(* ===== verification/Nx_Prelude.thy ===== *)
theory Nx_Prelude
  imports Main "HOL-Library.Word" "HOL-Library.Multiset"
begin

text \<open>
  Shared vocabulary of the development: names for the machine types of the C++ sources,
  wide strings, the error monad used wherever the code can go wrong, and the generic
  list lemmas that more than one component needs.
\<close>

unbundle bit_operations_syntax

section \<open>Machine types\<close>

type_synonym u8 = "8 word"
type_synonym u16 = "16 word"
type_synonym u32 = "32 word"
type_synonym u64 = "64 word"

text \<open>
  A \<^verbatim>\<open>wchar_t\<close> string is the list of its code points before the terminating zero.
\<close>

type_synonym wchar = nat
type_synonym wstr = "wchar list"

definition W :: "string \<Rightarrow> wstr" where
  "W s = map of_char s"

text \<open>\<^verbatim>\<open>wcslcpy(dst, src, n)\<close> keeps at most \<open>n - 1\<close> characters.\<close>

definition wcslcpy :: "wstr \<Rightarrow> nat \<Rightarrow> wstr" where
  "wcslcpy s n = take (n - 1) s"

lemma length_wcslcpy: "length (wcslcpy s n) \<le> n - 1"
  by (simp add: wcslcpy_def)

section \<open>The error monad\<close>

text \<open>What the hardware traps or the language leaves undefined: division by zero of an integer type, and
  access outside an array.\<close>

datatype fault = Div_zero | Bad_access

fun sum_bind :: "'e + 'a \<Rightarrow> ('a \<Rightarrow> 'e + 'b) \<Rightarrow> 'e + 'b" where
  "sum_bind (Inl e) f = Inl e"
| "sum_bind (Inr a) f = f a"

lemma sum_bind_Inr_iff:
  "sum_bind m f = Inr b \<longleftrightarrow> (\<exists>a. m = Inr a \<and> f a = Inr b)"
  by (cases m) auto

lemma sum_bind_assoc: "sum_bind (sum_bind m f) g = sum_bind m (\<lambda>a. sum_bind (f a) g)"
  by (cases m) auto

section \<open>Collections\<close>

named_theorems nx_inv \<open>definitions of the component invariants\<close>
named_theorems nx_frame \<open>fields an operation leaves alone\<close>

section \<open>Keyed lists\<close>

text \<open>
  Association lists in ascending key order stand for the sorted arrays of the code.
  \<open>keyed xs\<close> is the representation invariant: keys strictly ascending.
\<close>

definition keyed :: "('k::linorder \<times> 'v) list \<Rightarrow> bool" where
  "keyed xs \<longleftrightarrow> sorted_wrt (<) (map fst xs)"

lemma keyed_Nil [simp]: "keyed []"
  by (simp add: keyed_def)

lemma keyed_iff: "keyed xs \<longleftrightarrow> sorted (map fst xs) \<and> distinct (map fst xs)"
  by (simp add: keyed_def strict_sorted_iff)

lemma keyed_distinct: "keyed xs \<Longrightarrow> distinct (map fst xs)"
  by (simp add: keyed_iff)

lemma keyed_snoc:
  "keyed (xs @ [(k, v)]) \<longleftrightarrow> keyed xs \<and> (\<forall>k' \<in> set (map fst xs). k' < k)"
  by (auto simp: keyed_def sorted_wrt_append)

lemma keyed_sort_key:
  assumes "distinct (map fst xs)"
  shows "keyed (sort_key fst xs)"
proof -
  have "mset (map fst (sort_key fst xs)) = mset (map fst xs)"
    by simp
  then have "distinct (map fst (sort_key fst xs))"
    using assms mset_eq_imp_distinct_iff by blast
  then show ?thesis by (simp add: keyed_iff)
qed

lemma map_of_sort_key:
  assumes "distinct (map fst xs)"
  shows "map_of (sort_key fst xs) = map_of xs"
proof -
  have "distinct (map fst (sort_key fst xs))"
    using keyed_sort_key [OF assms] by (rule keyed_distinct)
  with assms show ?thesis by (subst map_of_inject_set) auto
qed

lemma keyed_update:
  assumes "keyed xs" "i < length xs"
  shows "keyed (xs[i := (fst (xs ! i), v)])"
proof -
  have "map fst (xs[i := (fst (xs ! i), v)]) = map fst xs"
    using assms(2) by (simp add: map_update list_update_same_conv)
  with assms(1) show ?thesis by (simp add: keyed_def)
qed

lemma map_of_distinct_update:
  assumes "distinct (map fst xs)" "i < length xs"
  shows "map_of (xs[i := (fst (xs ! i), v)]) = (map_of xs)(fst (xs ! i) \<mapsto> v)"
  using assms
proof (induction xs arbitrary: i)
  case Nil
  then show ?case by simp
next
  case (Cons x xs)
  show ?case
  proof (cases i)
    case 0
    then show ?thesis by (cases x) (simp add: fun_eq_iff)
  next
    case (Suc j)
    with Cons.prems have "fst (xs ! j) \<noteq> fst x"
      by (metis distinct.simps(2) length_Cons length_map list.simps(9) not_less_eq nth_map nth_mem)
    with Cons Suc show ?thesis by (cases x) (auto simp: fun_eq_iff)
  qed
qed

definition remove_nth :: "nat \<Rightarrow> 'a list \<Rightarrow> 'a list" where
  "remove_nth i xs = take i xs @ drop (Suc i) xs"

lemma length_remove_nth: "i < length xs \<Longrightarrow> length (remove_nth i xs) = length xs - 1"
  by (simp add: remove_nth_def)

lemma keyed_remove_nth:
  assumes "keyed xs"
  shows "keyed (remove_nth i xs)"
proof -
  have *: "sorted_wrt (\<lambda>x y. fst x < fst y) (take i xs @ drop i xs)"
    using assms by (simp add: keyed_def sorted_wrt_map)
  have "set (drop (Suc i) xs) \<subseteq> set (drop i xs)"
    by (rule set_drop_subset_set_drop) simp
  moreover have "sorted_wrt (\<lambda>x y. fst x < fst y) (drop (Suc i) xs)"
    using assms by (simp add: keyed_def sorted_wrt_map sorted_wrt_drop)
  ultimately have "sorted_wrt (\<lambda>x y. fst x < fst y) (take i xs @ drop (Suc i) xs)"
    using * unfolding sorted_wrt_append by blast
  then show ?thesis by (simp only: keyed_def remove_nth_def sorted_wrt_map)
qed

lemma map_of_remove_nth:
  assumes "distinct (map fst xs)" "i < length xs"
  shows "map_of (remove_nth i xs) = (map_of xs)(fst (xs ! i) := None)"
  using assms
proof (induction xs arbitrary: i)
  case Nil
  then show ?case by simp
next
  case (Cons x xs)
  show ?case
  proof (cases i)
    case 0
    with Cons.prems show ?thesis
      by (cases x) (auto simp: remove_nth_def fun_eq_iff map_of_eq_None_iff)
  next
    case (Suc j)
    with Cons.prems have "fst (xs ! j) \<noteq> fst x"
      by (metis distinct.simps(2) length_Cons length_map list.simps(9) not_less_eq nth_map nth_mem)
    with Cons Suc show ?thesis
      by (cases x) (auto simp: fun_eq_iff remove_nth_def)
  qed
qed

end
