(* ===== verification/Nx_Index.thy ===== *)
theory Nx_Index
  imports Nx_Prelude
begin

text \<open>
  The object index of the server core (\<^verbatim>\<open>src/src/server/core/index.cpp\<close>): every lookup
  of a managed object by identifier goes through \<^verbatim>\<open>AbstractIndexBase\<close>. The index
  keeps two copies of a sorted array. Readers search the primary copy; a writer changes the
  secondary copy, exchanges the two heads and repeats the change on the other copy.
  This theory models one operation at a time; the reader/writer protocol itself is the
  subject of \<^verbatim>\<open>Nx_Index_Sync\<close>.
\<close>

section \<open>State\<close>

text \<open>
  An \<^verbatim>\<open>INDEX_HEAD\<close>. \<open>elements\<close> holds the live part of the array, so
  \<^verbatim>\<open>size\<close> is its length; \<open>allocated\<close> is the capacity. The reader and writer
  counters belong to \<^verbatim>\<open>Nx_Index_Sync\<close>.
\<close>

record 'o index_head =
  elements :: "(u64 \<times> 'o) list"
  allocated :: nat
  maxKey :: u64

text \<open>
  \<open>destroyed\<close> records the objects handed to \<^verbatim>\<open>destroyObject\<close>, in order.
\<close>

record 'o object_index =
  m_primary :: "'o index_head"
  m_secondary :: "'o index_head"
  m_owner :: bool
  m_startupMode :: bool
  m_dirty :: bool
  destroyed :: "'o list"

datatype ix_error = OutOfBounds | SizeUnderflow | Uninitialised

definition empty_head :: "'o index_head" where
  "empty_head = \<lparr>elements = [], allocated = 0, maxKey = 0\<rparr>"

definition new_index :: "bool \<Rightarrow> 'o object_index" where
  "new_index owner = \<lparr>m_primary = empty_head, m_secondary = empty_head, m_owner = owner,
     m_startupMode = False, m_dirty = False, destroyed = []\<rparr>"

section \<open>Searching\<close>

definition elem_at :: "'o index_head \<Rightarrow> nat \<Rightarrow> ix_error + (u64 \<times> 'o)" where
  "elem_at h i = (if i < length (elements h) then Inr (elements h ! i) else Inl OutOfBounds)"

text \<open>
  The loop of \<^verbatim>\<open>findElement\<close>. The indices are \<^verbatim>\<open>size_t\<close>: \<open>mid - 1\<close> would wrap
  when \<open>mid\<close> is zero, which is the \<open>SizeUnderflow\<close> branch.
\<close>

function find_loop :: "'o index_head \<Rightarrow> u64 \<Rightarrow> nat \<Rightarrow> nat \<Rightarrow> ix_error + nat option" where
  "find_loop h key fst_i lst_i =
     (if fst_i < lst_i then
        (let mid = (fst_i + lst_i) div 2 in
         case elem_at h mid of
           Inl e \<Rightarrow> Inl e
         | Inr el \<Rightarrow>
             if key = fst el then Inr (Some mid)
             else if key < fst el then
               (if mid = 0 then Inl SizeUnderflow else find_loop h key fst_i (mid - 1))
             else find_loop h key (mid + 1) lst_i)
      else
        (case elem_at h lst_i of
           Inl e \<Rightarrow> Inl e
         | Inr el \<Rightarrow> Inr (if key = fst el then Some lst_i else None)))"
  by pat_completeness auto
termination
  by (relation "measure (\<lambda>(h, key, fst_i, lst_i). lst_i - fst_i)") auto

declare find_loop.simps [simp del]

definition findElement :: "'o index_head \<Rightarrow> u64 \<Rightarrow> ix_error + nat option" where
  "findElement h key =
     (if elements h = [] then Inr None
      else (let fst_i = 0; lst_i = length (elements h) - 1 in
        sum_bind (elem_at h 0) (\<lambda>e0. sum_bind (elem_at h lst_i) (\<lambda>el.
          if key < fst e0 \<or> key > fst el then Inr None
          else find_loop h key fst_i lst_i))))"

section \<open>Operations\<close>

definition sort_head :: "'o index_head \<Rightarrow> 'o index_head" where
  "sort_head h = h\<lparr>elements := sort_key fst (elements h)\<rparr>"

definition last_key :: "(u64 \<times> 'o) list \<Rightarrow> u64" where
  "last_key xs = (if xs = [] then 0 else fst (last xs))"

text \<open>Sort the primary copy and recompute its largest key (shared by the startup paths).\<close>

definition resort_primary :: "'o index_head \<Rightarrow> 'o index_head" where
  "resort_primary h = (let s = sort_head h in s\<lparr>maxKey := last_key (elements s)\<rparr>)"

definition setStartupMode :: "bool \<Rightarrow> 'o object_index \<Rightarrow> 'o object_index" where
  "setStartupMode startupMode ix =
     (if m_startupMode ix = startupMode then ix
      else
        (let ix1 = ix\<lparr>m_startupMode := startupMode\<rparr>;
             ix2 = (if startupMode then ix1
                    else
                      (let p = resort_primary (m_primary ix1);
                           s = (m_secondary ix1)\<lparr>maxKey := maxKey p, allocated := allocated p,
                                  elements := elements p\<rparr>
                       in ix1\<lparr>m_primary := p, m_secondary := s\<rparr>))
         in ix2\<lparr>m_dirty := False\<rparr>))"

definition swapAndWait :: "'o object_index \<Rightarrow> 'o object_index" where
  "swapAndWait ix = ix\<lparr>m_primary := m_secondary ix, m_secondary := m_primary ix\<rparr>"

definition destroyObject :: "'o \<Rightarrow> 'o object_index \<Rightarrow> 'o object_index" where
  "destroyObject obj ix = ix\<lparr>destroyed := destroyed ix @ [obj]\<rparr>"

definition grow :: "'o index_head \<Rightarrow> 'o index_head" where
  "grow h = (if length (elements h) = allocated h then h\<lparr>allocated := allocated h + 1024\<rparr> else h)"

text \<open>
  The change \<^verbatim>\<open>put\<close> makes to the copy that readers cannot see yet. The second
  component is the position and the replaced object, when the key was present.
\<close>

definition put_first ::
  "u64 \<Rightarrow> 'o \<Rightarrow> 'o index_head \<Rightarrow> ix_error + ('o index_head \<times> (nat \<times> 'o) option)" where
  "put_first key obj h =
     sum_bind (findElement h key) (\<lambda>r.
       case r of
         Some pos \<Rightarrow>
           Inr (h\<lparr>elements := (elements h)[pos := (fst (elements h ! pos), obj)]\<rparr>,
                Some (pos, snd (elements h ! pos)))
       | None \<Rightarrow>
           (let h1 = grow h;
                h2 = h1\<lparr>elements := elements h1 @ [(key, obj)]\<rparr>
            in Inr (if key < maxKey h2 then sort_head h2 else h2\<lparr>maxKey := key\<rparr>, None)))"

text \<open>
  The change to the other copy after the exchange: \<open>p\<close> is the new primary head, \<open>s\<close> the
  old one. Where the code would expose an array slot that was never written, the model
  answers \<open>Uninitialised\<close>.
\<close>

definition put_second ::
  "u64 \<Rightarrow> 'o \<Rightarrow> (nat \<times> 'o) option \<Rightarrow> 'o index_head \<Rightarrow> 'o index_head \<Rightarrow> ix_error + 'o index_head"
where
  "put_second key obj rep p s =
     (case rep of
        Some (pos, old) \<Rightarrow>
          (if pos < length (elements s)
           then Inr (s\<lparr>elements := (elements s)[pos := (fst (elements s ! pos), obj)]\<rparr>)
           else Inl OutOfBounds)
      | None \<Rightarrow>
          (let s1 = (if allocated p > allocated s then s\<lparr>allocated := allocated p\<rparr> else s);
               n = length (elements p)
           in if key < maxKey s1 then Inr (s1\<lparr>elements := take n (elements p)\<rparr>)
              else if n - 1 \<le> length (elements s1)
              then Inr (s1\<lparr>maxKey := key, elements := take (n - 1) (elements s1) @ [(key, obj)]\<rparr>)
              else Inl Uninitialised))"

definition put :: "u64 \<Rightarrow> 'o \<Rightarrow> 'o object_index \<Rightarrow> ix_error + ('o object_index \<times> bool)" where
  "put key obj ix =
     (if m_startupMode ix then
        (let p = grow (m_primary ix)
         in Inr (ix\<lparr>m_primary := p\<lparr>elements := elements p @ [(key, obj)]\<rparr>, m_dirty := True\<rparr>, False))
      else
        sum_bind (put_first key obj (m_secondary ix)) (\<lambda>(s1, rep).
          let ix1 = swapAndWait (ix\<lparr>m_secondary := s1\<rparr>) in
          sum_bind (put_second key obj rep (m_primary ix1) (m_secondary ix1)) (\<lambda>s2.
            let ix2 = ix1\<lparr>m_secondary := s2\<rparr> in
            Inr (case rep of
                   Some (pos, old) \<Rightarrow> (if m_owner ix2 then destroyObject old ix2 else ix2, True)
                 | None \<Rightarrow> (ix2, False)))))"

text \<open>Taking one element out of a copy, and the largest key that remains.\<close>

definition remove_at :: "nat \<Rightarrow> u64 \<Rightarrow> 'o index_head \<Rightarrow> 'o index_head" where
  "remove_at pos key h =
     (let h1 = h\<lparr>elements := remove_nth pos (elements h)\<rparr>
      in if maxKey h1 = key then h1\<lparr>maxKey := last_key (elements h1)\<rparr> else h1)"

definition remove_startup :: "u64 \<Rightarrow> 'o object_index \<Rightarrow> ix_error + 'o object_index" where
  "remove_startup key ix =
     (let ix1 = (if m_dirty ix
                 then ix\<lparr>m_primary := resort_primary (m_primary ix), m_dirty := False\<rparr> else ix)
      in sum_bind (findElement (m_primary ix1) key) (\<lambda>r.
           case r of
             None \<Rightarrow> Inr ix1
           | Some pos \<Rightarrow>
               (let p = m_primary ix1;
                    ix2 = (if m_owner ix1 then destroyObject (snd (elements p ! pos)) ix1 else ix1)
                in Inr (ix2\<lparr>m_primary := p\<lparr>elements := remove_nth pos (elements p)\<rparr>\<rparr>))))"

definition remove :: "u64 \<Rightarrow> 'o object_index \<Rightarrow> ix_error + 'o object_index" where
  "remove key ix =
     (if m_startupMode ix then remove_startup key ix
      else
        sum_bind (findElement (m_secondary ix) key) (\<lambda>r.
          case r of
            None \<Rightarrow> Inr ix
          | Some pos \<Rightarrow>
              (let ix1 = swapAndWait (ix\<lparr>m_secondary := remove_at pos key (m_secondary ix)\<rparr>);
                   s = m_secondary ix1
               in if pos < length (elements s)
                  then (let ix2 = (if m_owner ix1 then destroyObject (snd (elements s ! pos)) ix1
                                   else ix1)
                        in Inr (ix2\<lparr>m_secondary := remove_at pos key s\<rparr>))
                  else Inl OutOfBounds)))"

definition clear :: "'o object_index \<Rightarrow> 'o object_index" where
  "clear ix =
     (let ix1 = swapAndWait (ix\<lparr>m_secondary := empty_head\<rparr>);
          ix2 = (if m_owner ix1
                 then fold (\<lambda>e i. destroyObject (snd e) i) (elements (m_secondary ix1)) ix1
                 else ix1)
      in ix2\<lparr>m_secondary := empty_head\<rparr>)"

text \<open>\<^verbatim>\<open>get\<close> sorts the primary copy first when startup insertions left it unsorted.\<close>

definition get :: "u64 \<Rightarrow> 'o object_index \<Rightarrow> ix_error + ('o object_index \<times> 'o option)" where
  "get key ix =
     (let ix1 = (if m_startupMode ix \<and> m_dirty ix
                 then ix\<lparr>m_primary := resort_primary (m_primary ix), m_dirty := False\<rparr> else ix)
      in sum_bind (findElement (m_primary ix1) key) (\<lambda>r.
           Inr (ix1, case r of None \<Rightarrow> None | Some pos \<Rightarrow> Some (snd (elements (m_primary ix1) ! pos)))))"

section \<open>Enumeration\<close>

definition keys :: "'o object_index \<Rightarrow> u64 list" where
  "keys ix = map fst (elements (m_primary ix))"

definition size_ix :: "'o object_index \<Rightarrow> nat" where
  "size_ix ix = length (elements (m_primary ix))"

fun find_obj :: "('o \<Rightarrow> bool) \<Rightarrow> (u64 \<times> 'o) list \<Rightarrow> 'o option" where
  "find_obj comparator [] = None"
| "find_obj comparator (e # es) =
     (if comparator (snd e) then Some (snd e) else find_obj comparator es)"

definition find :: "('o \<Rightarrow> bool) \<Rightarrow> 'o object_index \<Rightarrow> 'o option" where
  "find comparator ix = find_obj comparator (elements (m_primary ix))"

fun findAll_loop :: "('o \<Rightarrow> bool) \<Rightarrow> (u64 \<times> 'o) list \<Rightarrow> 'o list \<Rightarrow> 'o list" where
  "findAll_loop comparator [] acc = acc"
| "findAll_loop comparator (e # es) acc =
     findAll_loop comparator es (if comparator (snd e) then acc @ [snd e] else acc)"

definition findAll :: "'o list \<Rightarrow> ('o \<Rightarrow> bool) \<Rightarrow> 'o object_index \<Rightarrow> 'o list" where
  "findAll resultSet comparator ix = findAll_loop comparator (elements (m_primary ix)) resultSet"

text \<open>
  \<^verbatim>\<open>forEach\<close> with a callback over a state; the callback's flag is True for
  \<^verbatim>\<open>_CONTINUE\<close>.
\<close>

fun forEach_loop :: "('o \<Rightarrow> 's \<Rightarrow> 's \<times> bool) \<Rightarrow> (u64 \<times> 'o) list \<Rightarrow> 's \<Rightarrow> 's" where
  "forEach_loop callback [] st = st"
| "forEach_loop callback (e # es) st =
     (let (st', cont) = callback (snd e) st in if cont then forEach_loop callback es st' else st')"

definition forEach :: "('o \<Rightarrow> 's \<Rightarrow> 's \<times> bool) \<Rightarrow> 'o object_index \<Rightarrow> 's \<Rightarrow> 's" where
  "forEach callback ix st = forEach_loop callback (elements (m_primary ix)) st"

text \<open>\<^verbatim>\<open>ObjectIndex::getObjects\<close>: the filter may be a null pointer (None).\<close>

definition getObjects :: "('o \<Rightarrow> bool) option \<Rightarrow> 'o object_index \<Rightarrow> 'o list" where
  "getObjects flt ix =
     findAll_loop (\<lambda>o'. case flt of None \<Rightarrow> True | Some f \<Rightarrow> f o') (elements (m_primary ix)) []"

definition getObjects_into :: "'o list \<Rightarrow> ('o \<Rightarrow> bool) option \<Rightarrow> 'o object_index \<Rightarrow> 'o list" where
  "getObjects_into destination flt ix =
     findAll_loop (\<lambda>o'. case flt of None \<Rightarrow> True | Some f \<Rightarrow> f o') (elements (m_primary ix)) destination"

section \<open>Search: memory safety and correctness\<close>

lemma find_loop_safe:
  assumes "lst_i < length (elements h)" "fst (elements h ! 0) \<le> key"
  shows "\<exists>r. find_loop h key fst_i lst_i = Inr r"
  using assms
proof (induction h key fst_i lst_i rule: find_loop.induct)
  case (1 h key fst_i lst_i)
  let ?mid = "(fst_i + lst_i) div 2"
  show ?case
  proof (cases "fst_i < lst_i")
    case True
    then have mid: "?mid < length (elements h)" using "1.prems"(1) by simp
    then have el: "elem_at h ?mid = Inr (elements h ! ?mid)" by (simp add: elem_at_def)
    have nz: "?mid \<noteq> 0" if "key < fst (elements h ! ?mid)"
      using that "1.prems"(2) by (metis leD)
    show ?thesis
      using "1.IH" [OF True refl el] "1.prems" True mid el nz
      by (subst find_loop.simps) (auto simp: Let_def)
  next
    case False
    with "1.prems" show ?thesis
      by (subst find_loop.simps) (simp add: elem_at_def)
  qed
qed

lemma findElement_total: "\<exists>r. findElement h key = Inr r"
proof (cases "elements h = []")
  case True
  then show ?thesis by (simp add: findElement_def)
next
  case False
  let ?lst = "length (elements h) - 1"
  have len: "?lst < length (elements h)" "0 < length (elements h)" using False by auto
  show ?thesis
  proof (cases "key < fst (elements h ! 0)")
    case True
    with False len show ?thesis by (simp add: findElement_def elem_at_def)
  next
    case ge: False
    then obtain r where "find_loop h key 0 ?lst = Inr r"
      using find_loop_safe [OF len(1)] by (metis leI)
    with False len show ?thesis by (simp add: findElement_def elem_at_def Let_def)
  qed
qed

definition found_at :: "'o index_head \<Rightarrow> u64 \<Rightarrow> nat option \<Rightarrow> bool" where
  "found_at h key r \<longleftrightarrow>
     (case r of Some i \<Rightarrow> i < length (elements h) \<and> fst (elements h ! i) = key
      | None \<Rightarrow> key \<notin> fst ` set (elements h))"

lemma keyed_nth_less: "keyed xs \<Longrightarrow> i < j \<Longrightarrow> j < length xs \<Longrightarrow> fst (xs ! i) < fst (xs ! j)"
  by (auto simp: keyed_def sorted_wrt_iff_nth_less)

lemma find_loop_correct:
  assumes "keyed (elements h)" "lst_i < length (elements h)"
    and "\<And>i. i < length (elements h) \<Longrightarrow> fst (elements h ! i) = key \<Longrightarrow> fst_i \<le> i \<and> i \<le> lst_i"
    and "find_loop h key fst_i lst_i = Inr r"
  shows "found_at h key r"
  using assms
proof (induction h key fst_i lst_i rule: find_loop.induct)
  case (1 h key fst_i lst_i)
  let ?mid = "(fst_i + lst_i) div 2"
  show ?case
  proof (cases "fst_i < lst_i")
    case True
    then have mid: "?mid < length (elements h)" "fst_i \<le> ?mid" "?mid < lst_i"
      using "1.prems"(2) by auto
    then have el: "elem_at h ?mid = Inr (elements h ! ?mid)" by (simp add: elem_at_def)
    consider (eq) "key = fst (elements h ! ?mid)" | (lt) "key < fst (elements h ! ?mid)"
      | (gt) "fst (elements h ! ?mid) < key" by (metis linorder_less_linear)
    then show ?thesis
    proof cases
      case eq
      with "1.prems"(4) True el mid show ?thesis
        by (subst (asm) find_loop.simps) (auto simp: Let_def found_at_def)
    next
      case lt
      with "1.prems"(4) True el have step: "?mid \<noteq> 0" "find_loop h key fst_i (?mid - 1) = Inr r"
        by (subst (asm) find_loop.simps, auto simp: Let_def split: if_splits)+
      have "i < ?mid" if "i < length (elements h)" "fst (elements h ! i) = key" for i
        using that lt keyed_nth_less [OF "1.prems"(1), of ?mid i] by (metis less_asym linorder_neqE_nat order_less_irrefl)
      then have rng: "i < length (elements h) \<Longrightarrow> fst (elements h ! i) = key \<Longrightarrow> fst_i \<le> i \<and> i \<le> ?mid - 1" for i
        using "1.prems"(3) by fastforce
      from lt have ne: "key \<noteq> fst (elements h ! ?mid)" by auto
      have "?mid - 1 < length (elements h)" using mid by simp
      from "1.IH"(1) [OF True refl el ne lt step(1) "1.prems"(1) this rng step(2)] show ?thesis by simp
    next
      case gt
      with "1.prems"(4) True el have step: "find_loop h key (?mid + 1) lst_i = Inr r"
        by (subst (asm) find_loop.simps) (auto simp: Let_def split: if_splits)
      have "?mid < i" if "i < length (elements h)" "fst (elements h ! i) = key" for i
        using that gt keyed_nth_less [OF "1.prems"(1), of i ?mid] mid by (metis less_asym linorder_neqE_nat order_less_irrefl)
      then have rng: "i < length (elements h) \<Longrightarrow> fst (elements h ! i) = key \<Longrightarrow> ?mid + 1 \<le> i \<and> i \<le> lst_i" for i
        using "1.prems"(3) by fastforce
      from gt have ne: "key \<noteq> fst (elements h ! ?mid)" "\<not> key < fst (elements h ! ?mid)" by auto
      from "1.IH"(2) [OF True refl el ne "1.prems"(1,2) rng step] show ?thesis by simp
    qed
  next
    case False
    have only: "key \<notin> fst ` set (elements h)" if "fst (elements h ! lst_i) \<noteq> key"
    proof
      assume "key \<in> fst ` set (elements h)"
      then obtain i where i: "i < length (elements h)" "fst (elements h ! i) = key"
        by (metis imageE in_set_conv_nth)
      with "1.prems"(3) [OF i] False have "i = lst_i" by simp
      with i that show False by simp
    qed
    have "r = (if key = fst (elements h ! lst_i) then Some lst_i else None)"
      using "1.prems"(2,4) False by (subst (asm) find_loop.simps) (simp add: elem_at_def)
    with only "1.prems"(2) show ?thesis by (auto simp: found_at_def)
  qed
qed

lemma findElement_correct:
  assumes "keyed (elements h)" "findElement h key = Inr r"
  shows "found_at h key r"
proof (cases "elements h = []")
  case True
  with assms(2) show ?thesis by (auto simp: findElement_def found_at_def)
next
  case False
  let ?lst = "length (elements h) - 1"
  have len: "?lst < length (elements h)" "0 < length (elements h)" using False by auto
  show ?thesis
  proof (cases "key < fst (elements h ! 0) \<or> key > fst (elements h ! ?lst)")
    case True
    have ne: "key \<noteq> fst (elements h ! i)" if "i < length (elements h)" for i
    proof -
      have "fst (elements h ! 0) \<le> fst (elements h ! i)"
        using keyed_nth_less [OF assms(1), of 0 i] that by (cases "i = 0") auto
      moreover have "fst (elements h ! i) \<le> fst (elements h ! ?lst)"
      proof (cases "i = ?lst")
        case False
        with that have "i < ?lst" by arith
        from keyed_nth_less [OF assms(1) this len(1)] show ?thesis by simp
      qed simp
      ultimately show ?thesis using True by auto
    qed
    have "key \<notin> fst ` set (elements h)"
      using ne by (metis imageE in_set_conv_nth)
    moreover have "r = None"
      using True False len assms(2) by (auto simp: findElement_def elem_at_def Let_def)
    ultimately show ?thesis by (simp add: found_at_def)
  next
    case inr: False
    with False len assms(2) have "find_loop h key 0 ?lst = Inr r"
      by (simp add: findElement_def elem_at_def)
    then show ?thesis by (intro find_loop_correct [OF assms(1) len(1)]) auto
  qed
qed

lemma findElement_cases:
  assumes "keyed (elements h)"
  obtains (found) i where "findElement h key = Inr (Some i)" "i < length (elements h)"
      "fst (elements h ! i) = key" "map_of (elements h) key = Some (snd (elements h ! i))"
  | (absent) "findElement h key = Inr None" "key \<notin> fst ` set (elements h)"
      "map_of (elements h) key = None"
proof -
  obtain r where r: "findElement h key = Inr r" using findElement_total by blast
  then have fa: "found_at h key r" by (rule findElement_correct [OF assms])
  show thesis
  proof (cases r)
    case None
    with fa r absent show thesis by (simp add: found_at_def map_of_eq_None_iff)
  next
    case (Some i)
    with fa have i: "i < length (elements h)" "fst (elements h ! i) = key"
      by (auto simp: found_at_def)
    then have "(key, snd (elements h ! i)) \<in> set (elements h)"
      by (metis nth_mem prod.collapse)
    then have "map_of (elements h) key = Some (snd (elements h ! i))"
      using keyed_distinct [OF assms] by simp
    with found i r Some show thesis by simp
  qed
qed

section \<open>Representation invariant\<close>

definition head_ok :: "'o index_head \<Rightarrow> bool" where
  [nx_inv]: "head_ok h \<longleftrightarrow>
     keyed (elements h) \<and> maxKey h = last_key (elements h) \<and> length (elements h) \<le> allocated h"

text \<open>Outside startup mode both copies are sorted and hold the same elements.\<close>

definition steady :: "'o object_index \<Rightarrow> bool" where
  [nx_inv]: "steady ix \<longleftrightarrow>
     \<not> m_startupMode ix \<and> head_ok (m_primary ix) \<and> head_ok (m_secondary ix) \<and>
     elements (m_secondary ix) = elements (m_primary ix)"

text \<open>In startup mode only the primary copy counts, and it may be unsorted while dirty.\<close>

definition loading :: "'o object_index \<Rightarrow> bool" where
  [nx_inv]: "loading ix \<longleftrightarrow>
     m_startupMode ix \<and> distinct (map fst (elements (m_primary ix))) \<and>
     (m_dirty ix \<or> keyed (elements (m_primary ix))) \<and>
     length (elements (m_primary ix)) \<le> allocated (m_primary ix)"

definition contents :: "'o object_index \<Rightarrow> (u64 \<rightharpoonup> 'o)" where
  "contents ix = map_of (elements (m_primary ix))"

lemma last_key_fst: "map fst xs = map fst ys \<Longrightarrow> last_key xs = last_key ys"
  by (metis last_key_def last_map map_is_Nil_conv)

lemma last_key_snoc [simp]: "last_key (xs @ [e]) = fst e"
  by (simp add: last_key_def)

lemma keyed_le_last: "keyed xs \<Longrightarrow> k \<in> fst ` set xs \<Longrightarrow> k \<le> last_key xs"
proof (cases xs rule: rev_cases)
  case (snoc ys e)
  assume "keyed xs" "k \<in> fst ` set xs"
  with snoc show ?thesis by (cases e) (auto simp: keyed_snoc intro: less_imp_le)
qed simp

lemma last_key_in: "xs \<noteq> [] \<Longrightarrow> last_key xs \<in> fst ` set xs"
  by (simp add: last_key_def)

lemma last_key_sort:
  assumes "keyed xs" "k \<notin> fst ` set xs" "k < last_key xs"
  shows "last_key (sort_key fst (xs @ [(k, v)])) = last_key xs"
proof -
  let ?ys = "sort_key fst (xs @ [(k, v)])"
  have ky: "keyed ?ys"
    using assms by (intro keyed_sort_key) (auto simp: keyed_distinct)
  have st: "fst ` set ?ys = insert k (fst ` set xs)" by auto
  have ne: "xs \<noteq> []" using assms(3) by (auto simp: last_key_def)
  have "last_key ?ys \<in> insert k (fst ` set xs)"
    using last_key_in [of ?ys] st by (metis insert_not_empty image_is_empty list.set(1))
  then have "last_key ?ys \<le> last_key xs"
    using keyed_le_last [OF assms(1)] assms(3) by auto
  moreover have "last_key xs \<le> last_key ?ys"
    using keyed_le_last [OF ky] last_key_in [OF ne] st by blast
  ultimately show ?thesis by simp
qed

lemma grow_simps [simp]:
  "elements (grow h) = elements h" "maxKey (grow h) = maxKey h"
  by (auto simp: grow_def)

lemma grow_room: "length (elements h) \<le> allocated h \<Longrightarrow> length (elements h) < allocated (grow h)"
  by (auto simp: grow_def)

section \<open>Insertion and removal on one copy\<close>

lemma head_ok_update:
  assumes "head_ok h" "i < length (elements h)" "fst (elements h ! i) = k"
  shows "head_ok (h\<lparr>elements := (elements h)[i := (k, v)]\<rparr>)"
proof -
  have "map fst ((elements h)[i := (k, v)]) = map fst (elements h)"
    using assms(2,3) by (simp add: map_update list_update_same_conv)
  then have "last_key ((elements h)[i := (k, v)]) = last_key (elements h)"
    by (rule last_key_fst)
  moreover have "keyed ((elements h)[i := (k, v)])"
    using keyed_update [of "elements h" i v] assms by (simp add: head_ok_def)
  ultimately show ?thesis using assms(1) by (simp add: head_ok_def)
qed

lemma put_first_found:
  assumes "head_ok h" "findElement h k = Inr (Some i)" "i < length (elements h)"
    "fst (elements h ! i) = k"
  shows "\<exists>h'. put_first k v h = Inr (h', Some (i, snd (elements h ! i))) \<and> head_ok h' \<and>
           elements h' = (elements h)[i := (k, v)]"
  using assms head_ok_update [OF assms(1,3,4), of v] by (simp add: put_first_def)

lemma put_first_absent:
  assumes "head_ok h" "findElement h k = Inr None" "k \<notin> fst ` set (elements h)"
  shows "\<exists>h'. put_first k v h = Inr (h', None) \<and> head_ok h' \<and>
           map_of (elements h') = (map_of (elements h))(k \<mapsto> v) \<and>
           length (elements h') = Suc (length (elements h)) \<and>
           elements h' = (if k < maxKey h then sort_key fst (elements h @ [(k, v)])
                          else elements h @ [(k, v)])"
proof -
  let ?xs = "elements h @ [(k, v)]"
  have ok: "keyed (elements h)" "maxKey h = last_key (elements h)"
    "length (elements h) < allocated (grow h)"
    using assms(1) grow_room by (auto simp: head_ok_def)
  have dist: "distinct (map fst ?xs)"
    using assms(3) keyed_distinct [OF ok(1)] by auto
  have "map_of (elements h) k = None"
    using assms(3) by (simp add: map_of_eq_None_iff)
  then have mp: "map_of ?xs = (map_of (elements h))(k \<mapsto> v)"
    by (auto simp: fun_eq_iff map_add_def split: option.splits)
  show ?thesis
  proof (cases "k < maxKey h")
    case True
    then show ?thesis
      using assms(2) ok dist mp last_key_sort [OF ok(1) assms(3), of v]
      by (auto simp: put_first_def sort_head_def head_ok_def Let_def keyed_sort_key map_of_sort_key)
  next
    case False
    have "k' < k" if "k' \<in> fst ` set (elements h)" for k'
    proof -
      have "k' \<le> maxKey h" using keyed_le_last [OF ok(1) that] ok(2) by simp
      with False have "k' \<le> k" by simp
      moreover have "k' \<noteq> k" using that assms(3) by blast
      ultimately show ?thesis by simp
    qed
    then have "keyed ?xs" using ok(1) by (auto simp: keyed_snoc)
    with False show ?thesis
      using assms(2) ok mp by (auto simp: put_first_def head_ok_def Let_def)
  qed
qed

lemma put_second_absent:
  assumes "head_ok p" "head_ok s" "k \<notin> fst ` set (elements s)"
    and el: "elements p = (if k < maxKey s then sort_key fst (elements s @ [(k, v)])
                           else elements s @ [(k, v)])"
  shows "\<exists>s2. put_second k v None p s = Inr s2 \<and> elements s2 = elements p \<and> head_ok s2"
proof -
  let ?s1 = "if allocated p > allocated s then s\<lparr>allocated := allocated p\<rparr> else s"
  have al: "length (elements p) \<le> allocated ?s1" using assms(1) by (auto simp: head_ok_def)
  have s1: "elements ?s1 = elements s" "maxKey ?s1 = maxKey s" by auto
  show ?thesis
  proof (cases "k < maxKey s")
    case True
    with assms(2) have "k < last_key (elements s)" "keyed (elements s)" by (auto simp: head_ok_def)
    then have "last_key (elements p) = maxKey s"
      using last_key_sort [of "elements s" k v] assms(2,3) el True by (simp add: head_ok_def)
    then have "head_ok (?s1\<lparr>elements := elements p\<rparr>)"
      using assms(1) al s1 by (simp add: head_ok_def)
    with True s1 show ?thesis by (auto simp: put_second_def Let_def)
  next
    case False
    then have "head_ok (?s1\<lparr>maxKey := k, elements := elements p\<rparr>)"
      using assms(1) al s1 el by (simp add: head_ok_def)
    with False s1 el show ?thesis by (auto simp: put_second_def Let_def)
  qed
qed

lemma remove_at_ok:
  assumes "head_ok h" "i < length (elements h)" "fst (elements h ! i) = k"
  shows "head_ok (remove_at i k h)"
    and "map_of (elements (remove_at i k h)) = (map_of (elements h))(k := None)"
    and "elements (remove_at i k h) = remove_nth i (elements h)"
proof -
  let ?xs = "elements h" and ?ys = "remove_nth i (elements h)"
  have ok: "keyed ?xs" "maxKey h = last_key ?xs" "length ?xs \<le> allocated h"
    using assms(1) by (auto simp: head_ok_def)
  have ky: "keyed ?ys" by (rule keyed_remove_nth [OF ok(1)])
  show el: "elements (remove_at i k h) = ?ys"
    by (simp add: remove_at_def Let_def)
  show "map_of (elements (remove_at i k h)) = (map_of ?xs)(k := None)"
    using map_of_remove_nth [OF keyed_distinct [OF ok(1)] assms(2)] assms(3) el by simp
  have lk: "last_key ?ys = last_key ?xs" if "last_key ?xs \<noteq> k"
  proof -
    have ne: "?xs \<noteq> []" using assms(2) by auto
    have "i \<noteq> length ?xs - 1"
    proof
      assume "i = length ?xs - 1"
      with ne have "?xs ! i = last ?xs" by (simp add: last_conv_nth)
      with assms(3) that ne show False by (simp add: last_key_def)
    qed
    with assms(2) have "drop (Suc i) ?xs \<noteq> []" by simp
    with ne show ?thesis by (simp add: remove_nth_def last_key_def)
  qed
  show "head_ok (remove_at i k h)"
    using ok ky lk length_remove_nth [OF assms(2)]
    by (auto simp: remove_at_def head_ok_def Let_def)
qed

section \<open>Operations on the whole index\<close>

text \<open>The objects the index holds, with multiplicity, and what an owner destroys.\<close>

definition live :: "'o object_index \<Rightarrow> 'o multiset" where
  "live ix = image_mset snd (mset (elements (m_primary ix)))"

definition opt_list :: "'a option \<Rightarrow> 'a list" where
  "opt_list x = (case x of None \<Rightarrow> [] | Some a \<Rightarrow> [a])"

definition gone :: "'o object_index \<Rightarrow> u64 \<Rightarrow> 'o list" where
  "gone ix k = (if m_owner ix then opt_list (contents ix k) else [])"

lemma live_update:
  assumes "i < length xs"
  shows "image_mset snd (mset (xs[i := (k, v)])) + {#snd (xs ! i)#} =
         image_mset snd (mset xs) + {#v#}"
proof -
  have "xs ! i \<in># mset xs" using assms by simp
  then have "image_mset snd (mset xs) = image_mset snd (mset xs - {#xs ! i#}) + {#snd (xs ! i)#}"
    by (metis add_mset_add_single image_mset_add_mset insert_DiffM)
  then show ?thesis using assms by (simp add: mset_update)
qed

lemma live_remove:
  assumes "i < length xs"
  shows "image_mset snd (mset (remove_nth i xs)) + {#snd (xs ! i)#} = image_mset snd (mset xs)"
proof -
  have "mset xs = mset (take i xs @ xs ! i # drop (Suc i) xs)"
    using assms by (metis id_take_nth_drop)
  then show ?thesis by (simp add: remove_nth_def)
qed

lemma put_steady:
  assumes "steady ix"
  shows "\<exists>ix'. put k v ix = Inr (ix', k \<in> dom (contents ix)) \<and> steady ix' \<and>
           contents ix' = (contents ix)(k \<mapsto> v) \<and> m_owner ix' = m_owner ix \<and>
           destroyed ix' = destroyed ix @ gone ix k \<and>
           live ix' + mset (opt_list (contents ix k)) = live ix + {#v#}"
proof -
  let ?s = "m_secondary ix" and ?p = "m_primary ix"
  have ok: "head_ok ?s" "head_ok ?p" "elements ?s = elements ?p" "\<not> m_startupMode ix"
    using assms by (auto simp: steady_def)
  have ky: "keyed (elements ?s)" using ok(1) by (simp add: head_ok_def)
  show ?thesis
  proof (cases rule: findElement_cases [OF ky, of k])
    case (1 i)
    obtain h' where h': "put_first k v ?s = Inr (h', Some (i, snd (elements ?s ! i)))"
      "head_ok h'" "elements h' = (elements ?s)[i := (k, v)]"
      using put_first_found [OF ok(1) 1(1,2,3)] by blast
    have mp: "map_of ((elements ?p)[i := (k, v)]) = (map_of (elements ?p))(k \<mapsto> v)"
      using map_of_distinct_update [OF keyed_distinct [OF ky] 1(2), of v] 1(3) ok(3) by simp
    have "head_ok (?p\<lparr>elements := (elements ?p)[i := (k, v)]\<rparr>)"
      using head_ok_update [OF ok(2), of i k v] 1 ok(3) by simp
    then show ?thesis
      using ok 1 h' mp live_update [OF 1(2), of k v]
      by (auto simp: put_def swapAndWait_def put_second_def steady_def contents_def live_def
          opt_list_def gone_def destroyObject_def Let_def)
  next
    case 2
    obtain h' where h': "put_first k v ?s = Inr (h', None)" "head_ok h'"
      "map_of (elements h') = (map_of (elements ?s))(k \<mapsto> v)"
      "length (elements h') = Suc (length (elements ?s))"
      "elements h' = (if k < maxKey ?s then sort_key fst (elements ?s @ [(k, v)])
                      else elements ?s @ [(k, v)])"
      using put_first_absent [OF ok(1) 2(1,2)] by blast
    have mx: "maxKey ?p = maxKey ?s" using ok by (simp add: head_ok_def)
    note el = h'(5) [folded mx, unfolded ok(3)]
    obtain s2 where s2: "put_second k v None h' ?p = Inr s2" "elements s2 = elements h'" "head_ok s2"
      using put_second_absent [OF h'(2) ok(2) 2(2) [unfolded ok(3)] el] by blast
    have "live (ix\<lparr>m_primary := h'\<rparr>) = live ix + {#v#}"
      using h'(5) ok(3) by (simp add: live_def)
    then show ?thesis
      using ok 2(3) h'(1,2,3) s2
      by (auto simp: put_def swapAndWait_def steady_def contents_def live_def
          opt_list_def gone_def Let_def)
  qed
qed

lemma remove_steady:
  assumes "steady ix"
  shows "\<exists>ix'. remove k ix = Inr ix' \<and> steady ix' \<and>
           contents ix' = (contents ix)(k := None) \<and> m_owner ix' = m_owner ix \<and>
           destroyed ix' = destroyed ix @ gone ix k \<and>
           live ix' + mset (opt_list (contents ix k)) = live ix"
proof -
  let ?s = "m_secondary ix" and ?p = "m_primary ix"
  have ok: "head_ok ?s" "head_ok ?p" "elements ?s = elements ?p" "\<not> m_startupMode ix"
    using assms by (auto simp: steady_def)
  have ky: "keyed (elements ?s)" using ok(1) by (simp add: head_ok_def)
  show ?thesis
  proof (cases rule: findElement_cases [OF ky, of k])
    case (1 i)
    note i = 1(2) [unfolded ok(3)] 1(3) [unfolded ok(3)]
    have "head_ok (remove_at i k ?s)" "head_ok (remove_at i k ?p)"
      "elements (remove_at i k ?s) = remove_nth i (elements ?p)"
      "elements (remove_at i k ?p) = remove_nth i (elements ?p)"
      using remove_at_ok [OF ok(1) 1(2,3)] remove_at_ok [OF ok(2) i] ok(3) by auto
    moreover have "map_of (remove_nth i (elements ?p)) = (map_of (elements ?p))(k := None)"
      using remove_at_ok(2,3) [OF ok(2) i] by simp
    ultimately show ?thesis
      using ok 1 i live_remove [OF i(1)]
      by (auto simp: remove_def swapAndWait_def steady_def contents_def live_def
          opt_list_def gone_def destroyObject_def Let_def)
  next
    case 2
    then have "map_of (elements ?p) k = None" using ok(3) by simp
    with 2 ok assms show ?thesis
      by (auto simp: remove_def contents_def opt_list_def gone_def fun_upd_idem)
  qed
qed

lemma get_keyed:
  assumes "keyed (elements (m_primary ix))" "\<not> m_startupMode ix \<or> \<not> m_dirty ix"
  shows "get k ix = Inr (ix, contents ix k)"
  using assms(2)
  by (cases rule: findElement_cases [OF assms(1), of k]) (auto simp: get_def contents_def Let_def)

lemma get_steady: "steady ix \<Longrightarrow> get k ix = Inr (ix, contents ix k)"
  by (rule get_keyed) (auto simp: nx_inv)

lemma resort_loading:
  assumes "loading ix"
  shows "loading (ix\<lparr>m_primary := resort_primary (m_primary ix), m_dirty := False\<rparr>)"
    and "contents (ix\<lparr>m_primary := resort_primary (m_primary ix), m_dirty := False\<rparr>) = contents ix"
  using assms keyed_sort_key [of "elements (m_primary ix)"]
    map_of_sort_key [of "elements (m_primary ix)"]
  by (auto simp: loading_def resort_primary_def sort_head_def Let_def contents_def keyed_distinct)

text \<open>Startup operations begin by sorting when needed; afterwards the array is sorted.\<close>

lemma loading_sorted:
  assumes "loading ix"
  defines "ix1 \<equiv> (if m_dirty ix
                 then ix\<lparr>m_primary := resort_primary (m_primary ix), m_dirty := False\<rparr> else ix)"
  shows "loading ix1" "contents ix1 = contents ix" "keyed (elements (m_primary ix1))" "\<not> m_dirty ix1"
    "m_startupMode ix1"
  using assms resort_loading [OF assms(1)] by (auto simp: ix1_def) (auto simp: loading_def)

lemma get_loading:
  assumes "loading ix"
  shows "\<exists>ix'. get k ix = Inr (ix', contents ix k) \<and> loading ix' \<and> contents ix' = contents ix"
proof -
  let ?ix1 = "if m_dirty ix
              then ix\<lparr>m_primary := resort_primary (m_primary ix), m_dirty := False\<rparr> else ix"
  note l = loading_sorted [OF assms]
  have "get k ix = get k ?ix1"
    using assms by (auto simp: get_def loading_def Let_def)
  also have "\<dots> = Inr (?ix1, contents ?ix1 k)"
    using l by (intro get_keyed) auto
  finally show ?thesis using l by auto
qed

lemma remove_loading:
  assumes "loading ix"
  shows "\<exists>ix'. remove k ix = Inr ix' \<and> loading ix' \<and> contents ix' = (contents ix)(k := None)"
proof -
  let ?ix1 = "if m_dirty ix
              then ix\<lparr>m_primary := resort_primary (m_primary ix), m_dirty := False\<rparr> else ix"
  note l = loading_sorted [OF assms]
  let ?p = "m_primary ?ix1"
  have rm: "remove k ix = remove_startup k ix" using assms by (simp add: remove_def loading_def)
  show ?thesis
  proof (cases rule: findElement_cases [OF l(3), of k])
    case (1 i)
    have "keyed (remove_nth i (elements ?p))" by (rule keyed_remove_nth [OF l(3)])
    moreover have "map_of (remove_nth i (elements ?p)) = (contents ix)(k := None)"
      using map_of_remove_nth [OF keyed_distinct [OF l(3)] 1(2)] 1(3) l(2) by (simp add: contents_def)
    moreover have "length (remove_nth i (elements ?p)) \<le> allocated ?p"
      using length_remove_nth [OF 1(2)] l(1) by (auto simp: loading_def)
    ultimately show ?thesis
      using 1 rm l(1,4,5) unfolding remove_startup_def Let_def
      by (auto simp: loading_def contents_def destroyObject_def keyed_distinct simp del: if_split_asm)
  next
    case 2
    then have "(contents ix)(k := None) = contents ix"
      using l(2) by (simp add: contents_def fun_upd_idem)
    with 2 rm l show ?thesis unfolding remove_startup_def Let_def by auto
  qed
qed

lemma put_loading:
  assumes "loading ix" "contents ix k = None"
  shows "\<exists>ix'. put k v ix = Inr (ix', False) \<and> loading ix' \<and> contents ix' = (contents ix)(k \<mapsto> v)"
proof -
  let ?xs = "elements (m_primary ix)"
  have k: "k \<notin> fst ` set ?xs" using assms(2) by (simp add: contents_def map_of_eq_None_iff)
  have "map_of (?xs @ [(k, v)]) = (map_of ?xs)(k \<mapsto> v)"
    using assms(2) by (auto simp: contents_def fun_eq_iff map_add_def split: option.splits)
  moreover have "length ?xs < allocated (grow (m_primary ix))"
    using assms(1) grow_room by (auto simp: loading_def)
  ultimately show ?thesis
    using assms(1) k by (auto simp: put_def loading_def contents_def Let_def)
qed

lemma setStartupMode_off:
  assumes "loading ix"
  shows "steady (setStartupMode False ix)" "contents (setStartupMode False ix) = contents ix"
  using assms keyed_sort_key [of "elements (m_primary ix)"]
    map_of_sort_key [of "elements (m_primary ix)"]
  by (auto simp: loading_def setStartupMode_def resort_primary_def sort_head_def Let_def
      steady_def head_ok_def contents_def)

lemma setStartupMode_on:
  assumes "steady ix"
  shows "loading (setStartupMode True ix)" "contents (setStartupMode True ix) = contents ix"
  using assms
  by (auto simp: loading_def setStartupMode_def Let_def steady_def head_ok_def contents_def
      keyed_distinct)

lemma steady_new: "steady (new_index ow)" "contents (new_index ow) = Map.empty"
  by (simp_all add: steady_def new_index_def empty_head_def head_ok_def last_key_def contents_def)

lemma destroy_fold:
  "fold (\<lambda>e i. destroyObject (snd e) i) es ix = ix\<lparr>destroyed := destroyed ix @ map snd es\<rparr>"
  by (induction es arbitrary: ix) (auto simp: destroyObject_def)

lemma clear_steady:
  assumes "steady ix"
  shows "steady (clear ix)" "contents (clear ix) = Map.empty"
    "mset (destroyed (clear ix)) = mset (destroyed ix) + (if m_owner ix then live ix else {#})"
  using assms
  by (auto simp: clear_def swapAndWait_def destroy_fold steady_def empty_head_def head_ok_def
      last_key_def contents_def live_def Let_def)

section \<open>The contract of an object store\<close>

text \<open>
  What clients of the index rely on: under the invariant every operation succeeds, keeps
  the invariant and acts on the abstract map as its name says. \<open>object_lookup\<close> holds in
  both modes; \<open>object_store\<close> adds replacing insertion.
\<close>

locale object_lookup =
  fixes inv :: "'ix \<Rightarrow> bool"
    and absm :: "'ix \<Rightarrow> (u64 \<rightharpoonup> 'o)"
    and remove_op :: "u64 \<Rightarrow> 'ix \<Rightarrow> 'e + 'ix"
    and get_op :: "u64 \<Rightarrow> 'ix \<Rightarrow> 'e + ('ix \<times> 'o option)"
  assumes remove_law: "inv ix \<Longrightarrow>
      \<exists>ix'. remove_op k ix = Inr ix' \<and> inv ix' \<and> absm ix' = (absm ix)(k := None)"
    and get_law: "inv ix \<Longrightarrow>
      \<exists>ix'. get_op k ix = Inr (ix', absm ix k) \<and> inv ix' \<and> absm ix' = absm ix"
begin

lemma get_after_remove:
  assumes "inv ix"
  shows "\<exists>ix' ix''. remove_op k ix = Inr ix' \<and>
           get_op k' ix' = Inr (ix'', if k' = k then None else absm ix k')"
  using remove_law [OF assms, of k] get_law by fastforce

end

datatype 'o store_cmd = Put u64 'o | Remove u64

fun run_cmds ::
  "(u64 \<Rightarrow> 'o \<Rightarrow> 'ix \<Rightarrow> 'e + ('ix \<times> bool)) \<Rightarrow> (u64 \<Rightarrow> 'ix \<Rightarrow> 'e + 'ix) \<Rightarrow>
   'o store_cmd list \<Rightarrow> 'ix \<Rightarrow> 'e + 'ix" where
  "run_cmds put_op remove_op [] ix = Inr ix"
| "run_cmds put_op remove_op (Put k v # cs) ix =
     sum_bind (put_op k v ix) (\<lambda>(ix', r). run_cmds put_op remove_op cs ix')"
| "run_cmds put_op remove_op (Remove k # cs) ix =
     sum_bind (remove_op k ix) (\<lambda>ix'. run_cmds put_op remove_op cs ix')"

fun run_abs :: "'o store_cmd list \<Rightarrow> (u64 \<rightharpoonup> 'o) \<Rightarrow> (u64 \<rightharpoonup> 'o)" where
  "run_abs [] m = m"
| "run_abs (Put k v # cs) m = run_abs cs (m(k \<mapsto> v))"
| "run_abs (Remove k # cs) m = run_abs cs (m(k := None))"

fun put_objects :: "'o store_cmd list \<Rightarrow> 'o list" where
  "put_objects [] = []"
| "put_objects (Put k v # cs) = v # put_objects cs"
| "put_objects (Remove k # cs) = put_objects cs"

locale object_store = object_lookup inv absm remove_op get_op
  for inv :: "'ix \<Rightarrow> bool"
    and absm :: "'ix \<Rightarrow> (u64 \<rightharpoonup> 'o)"
    and remove_op :: "u64 \<Rightarrow> 'ix \<Rightarrow> 'e + 'ix"
    and get_op :: "u64 \<Rightarrow> 'ix \<Rightarrow> 'e + ('ix \<times> 'o option)" +
  fixes put_op :: "u64 \<Rightarrow> 'o \<Rightarrow> 'ix \<Rightarrow> 'e + ('ix \<times> bool)"
  assumes put_law: "inv ix \<Longrightarrow>
      \<exists>ix'. put_op k v ix = Inr (ix', k \<in> dom (absm ix)) \<and> inv ix' \<and> absm ix' = (absm ix)(k \<mapsto> v)"
begin

lemma run_refines:
  assumes "inv ix"
  shows "\<exists>ix'. run_cmds put_op remove_op cs ix = Inr ix' \<and> inv ix' \<and> absm ix' = run_abs cs (absm ix)"
  using assms
proof (induction cs arbitrary: ix)
  case Nil
  then show ?case by simp
next
  case (Cons c cs)
  show ?case
  proof (cases c)
    case (Put k v)
    obtain ix1 where "put_op k v ix = Inr (ix1, k \<in> dom (absm ix))" "inv ix1"
      "absm ix1 = (absm ix)(k \<mapsto> v)"
      using put_law [OF Cons.prems] by blast
    with Cons.IH [of ix1] Put show ?thesis by (simp del: fun_upd_apply)
  next
    case (Remove k)
    obtain ix1 where "remove_op k ix = Inr ix1" "inv ix1" "absm ix1 = (absm ix)(k := None)"
      using remove_law [OF Cons.prems] by blast
    with Cons.IH [of ix1] Remove show ?thesis by (simp del: fun_upd_apply)
  qed
qed

lemma run_then_get:
  assumes "inv ix"
  shows "\<exists>ix' ix''. run_cmds put_op remove_op cs ix = Inr ix' \<and> inv ix' \<and>
           get_op k ix' = Inr (ix'', run_abs cs (absm ix) k)"
  using run_refines [OF assms, of cs] get_law by fastforce

end

interpretation lix: object_lookup loading contents remove get
  by unfold_locales (use remove_loading get_loading in auto)

interpretation six: object_store steady contents remove get put
  by unfold_locales (use remove_steady get_steady put_steady in fastforce)+

lemma load_all:
  assumes "loading ix" "distinct (map fst kvs)" "\<forall>k \<in> set (map fst kvs). contents ix k = None"
  shows "\<exists>ix'. run_cmds put remove (map (\<lambda>(k, v). Put k v) kvs) ix = Inr ix' \<and> loading ix' \<and>
           contents ix' = contents ix ++ map_of kvs"
  using assms
proof (induction kvs arbitrary: ix)
  case Nil
  then show ?case by simp
next
  case (Cons kv kvs)
  obtain k v where kv: "kv = (k, v)" by (cases kv)
  obtain ix1 where ix1: "put k v ix = Inr (ix1, False)" "loading ix1"
    "contents ix1 = (contents ix)(k \<mapsto> v)"
    using put_loading [of ix k v] Cons.prems kv by auto
  have "\<forall>k' \<in> set (map fst kvs). contents ix1 k' = None"
    using Cons.prems kv ix1(3) by auto
  then obtain ix' where "run_cmds put remove (map (\<lambda>(k, v). Put k v) kvs) ix1 = Inr ix'" "loading ix'"
    "contents ix' = contents ix1 ++ map_of kvs"
    using Cons.IH [OF ix1(2)] Cons.prems by auto
  moreover have "map_of kvs k = None"
    using Cons.prems(2) kv by (auto simp: map_of_eq_None_iff)
  ultimately show ?case
    using ix1 kv by (auto simp: fun_eq_iff map_add_def split: option.splits)
qed

section \<open>Properties\<close>

text \<open>
  C1. The index implements a finite map. From any consistent index, every sequence of
  insertions (of new or existing keys) and removals succeeds without leaving the array
  bounds, keeps both copies consistent, and afterwards a lookup of any key returns exactly
  what the sequence means on an abstract map.
\<close>

theorem index_implements_map:
  assumes "steady ix"
  shows "\<exists>ix'. run_cmds put remove cs ix = Inr ix' \<and> steady ix' \<and>
           (\<forall>k. get k ix' = Inr (ix', run_abs cs (contents ix) k))"
  using six.run_refines [OF assms, of cs] get_steady by metis

theorem index_implements_map_witness:
  "\<exists>ix'. run_cmds put remove [Put 7 ''a'', Put 3 ''b'', Put 7 ''c'', Remove 3] (new_index True) = Inr ix' \<and>
     get 7 ix' = Inr (ix', Some ''c'') \<and> get 3 ix' = Inr (ix', None)"
  using index_implements_map [OF steady_new(1) [of True],
      of "[Put 7 ''a'', Put 3 ''b'', Put 7 ''c'', Remove 3]"]
  by (auto simp: steady_new(2))

text \<open>
  C11. The binary search never reads outside the array and never wraps its unsigned
  position below zero, whatever the array holds (sorted or not); on a sorted array it
  returns a position exactly when the key is present, and that position holds the key.
\<close>

theorem index_search_safe_and_exact:
  "\<exists>r. findElement h key = Inr r \<and>
     (keyed (elements h) \<longrightarrow>
        (case r of
           Some i \<Rightarrow> i < length (elements h) \<and> fst (elements h ! i) = key
         | None \<Rightarrow> key \<notin> fst ` set (elements h)))"
proof -
  obtain r where r: "findElement h key = Inr r" using findElement_total by blast
  then show ?thesis
    using findElement_correct [OF _ r] by (auto simp: found_at_def split: option.splits)
qed

theorem index_search_safe_and_exact_witness:
  "keyed (elements \<lparr>elements = [(2, ''x''), (5, ''y'')], allocated = 2, maxKey = 5\<rparr>) \<and>
   (\<exists>i. findElement \<lparr>elements = [(2, ''x''), (5, ''y'')], allocated = 2, maxKey = 5\<rparr> 5 = Inr (Some i) \<and> i < 2)"
proof -
  let ?h = "\<lparr>elements = [(2, ''x''), (5, ''y'')], allocated = 2, maxKey = 5\<rparr>"
  have k: "keyed (elements ?h)" by (simp add: keyed_def)
  show ?thesis
    using index_search_safe_and_exact [of ?h 5] k by (auto split: option.splits)
qed

text \<open>
  C12. Ownership: an owning index destroys each object exactly once. Over any sequence of
  insertions and removals, the objects still held together with the objects destroyed are
  exactly the objects held and destroyed before plus the objects inserted.
\<close>

theorem index_ownership_conserved:
  assumes "steady ix" "m_owner ix" "run_cmds put remove cs ix = Inr ix'"
  shows "live ix' + mset (destroyed ix') = live ix + mset (destroyed ix) + mset (put_objects cs)"
  using assms
proof (induction cs arbitrary: ix)
  case Nil
  then show ?case by simp
next
  case (Cons c cs)
  show ?case
  proof (cases c)
    case (Put k v)
    obtain ix1 where ix1: "put k v ix = Inr (ix1, k \<in> dom (contents ix))" "steady ix1"
      "m_owner ix1 = m_owner ix" "destroyed ix1 = destroyed ix @ gone ix k"
      "live ix1 + mset (opt_list (contents ix k)) = live ix + {#v#}"
      using put_steady [OF Cons.prems(1)] by blast
    then have "live ix' + mset (destroyed ix') = live ix1 + mset (destroyed ix1) + mset (put_objects cs)"
      using Cons.IH [of ix1] Cons.prems Put by simp
    with ix1 Cons.prems(2) Put show ?thesis by (simp add: gone_def ac_simps)
  next
    case (Remove k)
    obtain ix1 where ix1: "remove k ix = Inr ix1" "steady ix1"
      "m_owner ix1 = m_owner ix" "destroyed ix1 = destroyed ix @ gone ix k"
      "live ix1 + mset (opt_list (contents ix k)) = live ix"
      using remove_steady [OF Cons.prems(1)] by blast
    then have "live ix' + mset (destroyed ix') = live ix1 + mset (destroyed ix1) + mset (put_objects cs)"
      using Cons.IH [of ix1] Cons.prems Remove by simp
    with ix1 Cons.prems(2) Remove show ?thesis by (simp add: gone_def ac_simps)
  qed
qed

theorem index_ownership_conserved_witness:
  "\<exists>ix'. run_cmds put remove [Put 1 ''a'', Put 1 ''b'', Remove 1] (new_index True) = Inr ix' \<and>
     live ix' + mset (destroyed ix') = {#''a'', ''b''#}"
proof -
  obtain ix' where r: "run_cmds put remove [Put 1 ''a'', Put 1 ''b'', Remove 1] (new_index True) = Inr ix'"
    using six.run_refines [OF steady_new(1)] by blast
  have "m_owner (new_index True)" by (simp add: new_index_def)
  from index_ownership_conserved [OF steady_new(1) this r] r show ?thesis
    by (auto simp: live_def new_index_def empty_head_def)
qed

text \<open>
  Loading at startup: objects with distinct keys inserted in any order while the index
  is in startup mode are found again, both while still loading and after startup mode is
  switched off, when the index is sorted and its two copies agree.
\<close>

theorem index_startup_load:
  assumes "distinct (map fst kvs)"
  shows "\<exists>ix. run_cmds put remove (map (\<lambda>(k, v). Put k v) kvs) (setStartupMode True (new_index ow)) = Inr ix \<and>
           (\<forall>k. \<exists>ix'. get k ix = Inr (ix', map_of kvs k)) \<and>
           steady (setStartupMode False ix) \<and> contents (setStartupMode False ix) = map_of kvs"
proof -
  let ?ix0 = "setStartupMode True (new_index ow) :: 'a object_index"
  have l: "loading ?ix0" and c: "contents ?ix0 = Map.empty"
    using setStartupMode_on [OF steady_new(1), of ow] by (simp_all add: steady_new(2))
  obtain ix where ix: "run_cmds put remove (map (\<lambda>(k, v). Put k v) kvs) ?ix0 = Inr ix"
    "loading ix" "contents ix = map_of kvs"
    using load_all [OF l assms] c by auto
  with get_loading [OF ix(2)] setStartupMode_off [OF ix(2)] show ?thesis by fastforce
qed

theorem index_startup_load_witness:
  "distinct (map fst [(9 :: u64, ''p''), (4, ''q'')]) \<and>
   (\<exists>ix. run_cmds put remove (map (\<lambda>(k, v). Put k v) [(9, ''p''), (4, ''q'')])
            (setStartupMode True (new_index False)) = Inr ix \<and>
         contents (setStartupMode False ix) = map_of [(9, ''p''), (4, ''q'')])"
proof -
  have d: "distinct (map fst [(9 :: u64, ''p''), (4, ''q'')])" by simp
  from d index_startup_load [OF d, of False] show ?thesis by blast
qed

end
