(* ===== verification/Nx_Index_Sync.thy ===== *)
theory Nx_Index_Sync
  imports Nx_Prelude
begin

text \<open>
  The reader/writer protocol of the object index (\<^verbatim>\<open>acquireIndex\<close>,
  \<^verbatim>\<open>ReleaseIndex\<close>, \<^verbatim>\<open>swapAndWait\<close> and the two editing phases of
  \<^verbatim>\<open>put\<close>, \<^verbatim>\<open>remove\<close> and \<^verbatim>\<open>clear\<close> in
  \<^verbatim>\<open>src/src/server/core/index.cpp\<close>) as a step relation over interleaved threads.
  Every shared access of the code (reading \<^verbatim>\<open>m_primary\<close>, an interlocked increment or
  decrement, the pointer exchange, a test of a counter) is one step. Any number of reader
  threads run; writers are serialised by \<^verbatim>\<open>m_writerLock\<close>, so one writer program
  counter is enough.
\<close>

section \<open>State\<close>

datatype head_id = HeadA | HeadB

fun other :: "head_id \<Rightarrow> head_id" where
  "other HeadA = HeadB"
| "other HeadB = HeadA"

lemma other_other [simp]: "other (other h) = h"
  by (cases h) auto

lemma other_neq [simp]: "other h \<noteq> h" "h \<noteq> other h"
  by (cases h; simp)+

lemma other_cases: "h = p \<or> h = other p"
  by (cases h; cases p) auto

text \<open>
  A reader in \<^verbatim>\<open>acquireIndex\<close>: it has loaded the primary head, incremented its reader
  counter, passed the writer test and holds the head, or failed the test and is about to
  decrement and retry.
\<close>

datatype reader_pc = RIdle | RLoaded head_id | RCounted head_id | RHolding head_id | RBackoff head_id

text \<open>
  A writer: editing the secondary head before the exchange, having exchanged the heads,
  having raised the writer counter of the old primary and waiting for its readers, editing
  the old primary.
\<close>

datatype writer_pc = WIdle | WEdit | WSwapped | WWaiting | WEdit2

record sync =
  primary :: head_id
  readers :: "head_id \<Rightarrow> nat"
  writers :: "head_id \<Rightarrow> nat"
  rpc :: "nat \<Rightarrow> reader_pc"
  wpc :: writer_pc

abbreviation secondary :: "sync \<Rightarrow> head_id" where
  "secondary s \<equiv> other (primary s)"

definition init_sync :: sync where
  "init_sync = \<lparr>primary = HeadA, readers = (\<lambda>_. 0), writers = (\<lambda>_. 0), rpc = (\<lambda>_. RIdle), wpc = WIdle\<rparr>"

section \<open>Steps\<close>

inductive sync_step :: "sync \<Rightarrow> sync \<Rightarrow> bool" where
  r_load: "rpc s i = RIdle \<Longrightarrow>
     sync_step s (s\<lparr>rpc := (rpc s)(i := RLoaded (primary s))\<rparr>)"
| r_count: "rpc s i = RLoaded h \<Longrightarrow>
     sync_step s (s\<lparr>rpc := (rpc s)(i := RCounted h), readers := (readers s)(h := readers s h + 1)\<rparr>)"
| r_enter: "rpc s i = RCounted h \<Longrightarrow> writers s h = 0 \<Longrightarrow>
     sync_step s (s\<lparr>rpc := (rpc s)(i := RHolding h)\<rparr>)"
| r_refuse: "rpc s i = RCounted h \<Longrightarrow> writers s h \<noteq> 0 \<Longrightarrow>
     sync_step s (s\<lparr>rpc := (rpc s)(i := RBackoff h)\<rparr>)"
| r_retry: "rpc s i = RBackoff h \<Longrightarrow>
     sync_step s (s\<lparr>rpc := (rpc s)(i := RIdle), readers := (readers s)(h := readers s h - 1)\<rparr>)"
| r_release: "rpc s i = RHolding h \<Longrightarrow>
     sync_step s (s\<lparr>rpc := (rpc s)(i := RIdle), readers := (readers s)(h := readers s h - 1)\<rparr>)"
| w_begin: "wpc s = WIdle \<Longrightarrow> sync_step s (s\<lparr>wpc := WEdit\<rparr>)"
| w_swap: "wpc s = WEdit \<Longrightarrow> sync_step s (s\<lparr>primary := secondary s, wpc := WSwapped\<rparr>)"
| w_mark: "wpc s = WSwapped \<Longrightarrow>
     sync_step s (s\<lparr>writers := (writers s)(secondary s := writers s (secondary s) + 1), wpc := WWaiting\<rparr>)"
| w_ready: "wpc s = WWaiting \<Longrightarrow> readers s (secondary s) = 0 \<Longrightarrow>
     sync_step s (s\<lparr>wpc := WEdit2\<rparr>)"
| w_done: "wpc s = WEdit2 \<Longrightarrow>
     sync_step s (s\<lparr>writers := (writers s)(secondary s := writers s (secondary s) - 1), wpc := WIdle\<rparr>)"

inductive sync_reachable :: "sync \<Rightarrow> bool" where
  start: "sync_reachable init_sync"
| step: "sync_reachable s \<Longrightarrow> sync_step s t \<Longrightarrow> sync_reachable t"

section \<open>Invariant\<close>

text \<open>The readers a head has counted, whether admitted, about to test, or backing off.\<close>

definition counted :: "sync \<Rightarrow> head_id \<Rightarrow> nat set" where
  "counted s h = {i. rpc s i \<in> {RCounted h, RHolding h, RBackoff h}}"

definition sync_inv :: "sync \<Rightarrow> bool" where
  [nx_inv]: "sync_inv s \<longleftrightarrow>
     (\<forall>h. finite (counted s h) \<and> readers s h = card (counted s h)) \<and>
     writers s (primary s) = 0 \<and>
     writers s (secondary s) = (if wpc s \<in> {WWaiting, WEdit2} then 1 else 0) \<and>
     (wpc s = WEdit2 \<longrightarrow> (\<forall>i. rpc s i \<noteq> RHolding (secondary s)))"

text \<open>How each reader transition changes the counted sets.\<close>

lemma counted_in:
  assumes "rpc s i = RLoaded h"
  shows "counted (s\<lparr>rpc := (rpc s)(i := RCounted h), readers := r\<rparr>) h' =
           (if h' = h then insert i (counted s h) else counted s h')"
    and "i \<notin> counted s h'"
  using assms by (auto simp: counted_def)

lemma counted_out:
  assumes "rpc s i \<in> {RBackoff h, RHolding h}"
  shows "counted (s\<lparr>rpc := (rpc s)(i := RIdle), readers := r\<rparr>) h' =
           (if h' = h then counted s h - {i} else counted s h')"
    and "i \<in> counted s h"
  using assms by (auto simp: counted_def)

lemma counted_stay:
  assumes "rpc s i = RCounted h" "x \<in> {RHolding h, RBackoff h}"
  shows "counted (s\<lparr>rpc := (rpc s)(i := x)\<rparr>) h' = counted s h'"
  using assms by (auto simp: counted_def)

lemma counted_frame:
  "counted (s\<lparr>wpc := w\<rparr>) h = counted s h"
  "counted (s\<lparr>primary := p\<rparr>) h = counted s h"
  "counted (s\<lparr>writers := ws\<rparr>) h = counted s h"
  by (simp_all add: counted_def)

lemma counted_load:
  "rpc s i = RIdle \<Longrightarrow> counted (s\<lparr>rpc := (rpc s)(i := RLoaded p)\<rparr>) h = counted s h"
  by (auto simp: counted_def)

lemma sync_inv_init: "sync_inv init_sync"
  by (simp add: sync_inv_def init_sync_def counted_def)

lemma sync_step_inv:
  assumes "sync_step s t" "sync_inv s"
  shows "sync_inv t"
  using assms
proof (induction rule: sync_step.induct)
  case (r_load s i)
  then show ?case by (auto simp: sync_inv_def counted_load)
next
  case (r_count s i h)
  then show ?case by (auto simp: sync_inv_def counted_in)
next
  case (r_enter s i h)
  then have "wpc s = WEdit2 \<longrightarrow> h \<noteq> secondary s" by (auto simp: sync_inv_def)
  with r_enter show ?case by (auto simp: sync_inv_def counted_stay)
next
  case (r_refuse s i h)
  then show ?case by (auto simp: sync_inv_def counted_stay)
next
  case (r_retry s i h)
  then show ?case by (auto simp: sync_inv_def counted_out)
next
  case (r_release s i h)
  then show ?case by (auto simp: sync_inv_def counted_out)
next
  case (w_begin s)
  then show ?case by (auto simp: sync_inv_def counted_frame)
next
  case (w_swap s)
  then show ?case by (auto simp: sync_inv_def counted_frame)
next
  case (w_mark s)
  then show ?case by (auto simp: sync_inv_def counted_frame)
next
  case (w_ready s)
  then have "counted s (secondary s) = {}" by (simp add: sync_inv_def)
  then have "rpc s i \<noteq> RHolding (secondary s)" for i
    unfolding counted_def by blast
  with w_ready show ?case by (auto simp: sync_inv_def counted_frame)
next
  case (w_done s)
  then show ?case by (auto simp: sync_inv_def counted_frame)
qed

lemma sync_reachable_inv: "sync_reachable s \<Longrightarrow> sync_inv s"
  by (induction rule: sync_reachable.induct) (auto intro: sync_inv_init sync_step_inv)

section \<open>Properties\<close>

text \<open>
  C14. The second editing phase is exclusive: in every reachable interleaving, while a writer
  edits the former primary copy (after it has exchanged the heads, raised the writer counter
  and seen no readers), no reader holds that copy.
\<close>

theorem index_second_edit_exclusive:
  assumes "sync_reachable s" "wpc s = WEdit2"
  shows "rpc s i \<noteq> RHolding (secondary s)"
  using sync_reachable_inv [OF assms(1)] assms(2) by (simp add: sync_inv_def)

text \<open>A run of one writer with no readers reaches the second phase.\<close>

lemma writer_alone_reaches_edit2:
  "sync_reachable \<lparr>primary = HeadB, readers = (\<lambda>_. 0), writers = (\<lambda>_. 0)(HeadA := 1),
     rpc = (\<lambda>_. RIdle), wpc = WEdit2\<rparr>"
proof -
  let ?s1 = "init_sync\<lparr>wpc := WEdit\<rparr>"
  let ?s2 = "?s1\<lparr>primary := secondary ?s1, wpc := WSwapped\<rparr>"
  let ?s3 = "?s2\<lparr>writers := (writers ?s2)(secondary ?s2 := writers ?s2 (secondary ?s2) + 1), wpc := WWaiting\<rparr>"
  have 1: "sync_reachable ?s1"
    by (rule sync_reachable.step [OF sync_reachable.start w_begin]) (simp add: init_sync_def)
  have 2: "sync_reachable ?s2"
    by (rule sync_reachable.step [OF 1 w_swap]) simp
  have 3: "sync_reachable ?s3"
    by (rule sync_reachable.step [OF 2 w_mark]) simp
  have "sync_reachable (?s3\<lparr>wpc := WEdit2\<rparr>)"
    by (rule sync_reachable.step [OF 3 w_ready]) (simp_all add: init_sync_def)
  then show ?thesis by (simp add: init_sync_def)
qed

theorem index_second_edit_exclusive_witness:
  "sync_reachable \<lparr>primary = HeadB, readers = (\<lambda>_. 0), writers = (\<lambda>_. 0)(HeadA := 1),
     rpc = (\<lambda>_. RIdle), wpc = WEdit2\<rparr> \<and> (\<lambda>_. RIdle) (0 :: nat) \<noteq> RHolding HeadA"
  using index_second_edit_exclusive [OF writer_alone_reaches_edit2, of 0]
    writer_alone_reaches_edit2 by simp

text \<open>
  C39. The first editing phase is not exclusive. A reader that has loaded the primary head
  but not yet counted itself can be overtaken by a complete write operation; it then counts
  itself on a head that has become the secondary one, finds no writer there and enters. The
  next writer starts editing that head at once, since it waits for readers only after the
  exchange: a reachable state has a reader holding the very copy a writer is editing.
\<close>

theorem index_first_edit_race:
  "\<exists>s. sync_reachable s \<and> wpc s = WEdit \<and> rpc s 0 = RHolding (secondary s)"
proof -
  let ?s1 = "init_sync\<lparr>rpc := (rpc init_sync)(0 := RLoaded (primary init_sync))\<rparr>"
  let ?s2 = "?s1\<lparr>wpc := WEdit\<rparr>"
  let ?s3 = "?s2\<lparr>primary := secondary ?s2, wpc := WSwapped\<rparr>"
  let ?s4 = "?s3\<lparr>writers := (writers ?s3)(secondary ?s3 := writers ?s3 (secondary ?s3) + 1), wpc := WWaiting\<rparr>"
  let ?s5 = "?s4\<lparr>wpc := WEdit2\<rparr>"
  let ?s6 = "?s5\<lparr>writers := (writers ?s5)(secondary ?s5 := writers ?s5 (secondary ?s5) - 1), wpc := WIdle\<rparr>"
  let ?s7 = "?s6\<lparr>rpc := (rpc ?s6)(0 := RCounted HeadA), readers := (readers ?s6)(HeadA := readers ?s6 HeadA + 1)\<rparr>"
  let ?s8 = "?s7\<lparr>rpc := (rpc ?s7)(0 := RHolding HeadA)\<rparr>"
  let ?s9 = "?s8\<lparr>wpc := WEdit\<rparr>"
  have 1: "sync_reachable ?s1"
    by (rule sync_reachable.step [OF sync_reachable.start r_load]) (simp add: init_sync_def)
  have 2: "sync_reachable ?s2"
    by (rule sync_reachable.step [OF 1 w_begin]) (simp add: init_sync_def)
  have 3: "sync_reachable ?s3" by (rule sync_reachable.step [OF 2 w_swap]) simp
  have 4: "sync_reachable ?s4" by (rule sync_reachable.step [OF 3 w_mark]) simp
  have 5: "sync_reachable ?s5"
    by (rule sync_reachable.step [OF 4 w_ready]) (simp_all add: init_sync_def)
  have 6: "sync_reachable ?s6" by (rule sync_reachable.step [OF 5 w_done]) simp
  have 7: "sync_reachable ?s7"
    by (rule sync_reachable.step [OF 6 r_count]) (simp add: init_sync_def)
  have 8: "sync_reachable ?s8"
    by (rule sync_reachable.step [OF 7 r_enter]) (simp_all add: init_sync_def)
  have 9: "sync_reachable ?s9" by (rule sync_reachable.step [OF 8 w_begin]) simp
  moreover have "wpc ?s9 = WEdit" "rpc ?s9 0 = RHolding (secondary ?s9)"
    by (simp_all add: init_sync_def)
  ultimately show ?thesis by blast
qed

end
