(* ===== verification/Nx_Match.thy ===== *)
theory Nx_Match
  imports Nx_Prelude
begin

text \<open>
  Wildcard matching (\<^verbatim>\<open>MatchString\<close>, \<^verbatim>\<open>src/src/libnetxms/tools.cpp\<close>), used by the
  \<^verbatim>\<open>like\<close> operations of thresholds, filters and scripts. A pointer into a zero-terminated
  string is the suffix it points to. The comparator is a parameter, as in the template;
  \<^verbatim>\<open>towupper\<close> of the C library is the parameter \<open>up\<close>.
\<close>

abbreviation star :: wchar where "star \<equiv> 42"
abbreviation quest :: wchar where "quest \<equiv> 63"

section \<open>The engine\<close>

definition ccw :: "wchar \<Rightarrow> wchar \<Rightarrow> bool" where
  "ccw c1 c2 = (c1 = c2)"

definition ccwi :: "(wchar \<Rightarrow> wchar) \<Rightarrow> wchar \<Rightarrow> wchar \<Rightarrow> bool" where
  "ccwi up c1 c2 = (up c1 = up c2)"

text \<open>\<open>CompareTextBlocks cmp p t\<close> compares the whole block \<open>p\<close> with the start of \<open>t\<close>.\<close>

fun CompareTextBlocks :: "(wchar \<Rightarrow> wchar \<Rightarrow> bool) \<Rightarrow> wstr \<Rightarrow> wstr \<Rightarrow> bool" where
  "CompareTextBlocks cmp [] t = True"
| "CompareTextBlocks cmp (p # ps) t =
     (if p = quest then CompareTextBlocks cmp ps (tl t)
      else (case t of [] \<Rightarrow> False | c # cs \<Rightarrow> cmp p c \<and> CompareTextBlocks cmp ps cs))"

text \<open>The question marks after a star each take one character.\<close>

fun skip_quests :: "wstr \<Rightarrow> wstr \<Rightarrow> (wstr \<times> wstr) option" where
  "skip_quests (p # ps) s =
     (if p = quest then (case s of [] \<Rightarrow> None | c # cs \<Rightarrow> skip_quests ps cs) else Some (p # ps, s))"
| "skip_quests [] s = Some ([], s)"

lemma dropWhile_Cons_shorter: "c # cs = dropWhile P s \<Longrightarrow> length cs < length s"
  using length_dropWhile_le [of P s] by (metis Suc_le_eq length_Cons)

text \<open>
  The inner \<^verbatim>\<open>while(1)\<close>: the next position, at or after the start, where the block
  matches; None when the rest of the text is shorter than the block.
\<close>

function next_match :: "(wchar \<Rightarrow> wchar \<Rightarrow> bool) \<Rightarrow> wstr \<Rightarrow> wstr \<Rightarrow> wstr option" where
  "next_match cmp blk s =
     (let s1 = dropWhile (\<lambda>c. \<not> cmp c (hd blk)) s in
      if length s1 < length blk then None
      else if CompareTextBlocks cmp blk s1 then Some s1
      else (case s1 of [] \<Rightarrow> None | c # cs \<Rightarrow> next_match cmp blk cs))"
  by pat_completeness auto
termination
  by (relation "measure (\<lambda>(cmp, blk, s). length s)") (auto dest: dropWhile_Cons_shorter)

declare next_match.simps [simp del]

definition matches_at :: "(wchar \<Rightarrow> wchar \<Rightarrow> bool) \<Rightarrow> wstr \<Rightarrow> wstr \<Rightarrow> nat \<Rightarrow> bool" where
  "matches_at cmp blk s j \<longleftrightarrow> j + length blk \<le> length s \<and> CompareTextBlocks cmp blk (drop j s)"

lemma next_match_Some:
  assumes "next_match cmp blk s = Some s1"
  shows "\<exists>j. s1 = drop j s \<and> matches_at cmp blk s j"
  using assms
proof (induction cmp blk s arbitrary: s1 rule: next_match.induct)
  case (1 cmp blk s)
  let ?s1 = "dropWhile (\<lambda>c. \<not> cmp c (hd blk)) s"
  obtain k where k: "?s1 = drop k s" "k \<le> length s"
    by (metis dropWhile_eq_drop length_takeWhile_le)
  have len: "\<not> length ?s1 < length blk"
    using 1(2) by (subst (asm) next_match.simps) (auto simp: Let_def)
  show ?case
  proof (cases "CompareTextBlocks cmp blk ?s1")
    case True
    then have "s1 = ?s1" using 1(2) len by (subst (asm) next_match.simps) (auto simp: Let_def)
    with True k len show ?thesis by (intro exI [of _ k]) (auto simp: matches_at_def)
  next
    case False
    then obtain c cs where cs: "?s1 = c # cs" "next_match cmp blk cs = Some s1"
      using 1(2) len by (subst (asm) next_match.simps) (auto simp: Let_def split: list.splits)
    then obtain j where j: "s1 = drop j cs" "matches_at cmp blk cs j"
      using 1(1) [OF refl len False cs(1)] by blast
    have "cs = drop (Suc k) s" using cs(1) k by (metis drop_Suc list.sel(3) tl_drop)
    moreover have "k < length s" using cs(1) k by (metis drop_eq_Nil leI list.distinct(1))
    ultimately have "s1 = drop (Suc k + j) s" "matches_at cmp blk s (Suc k + j)"
      using j by (auto simp: matches_at_def add.commute)
    then show ?thesis by blast
  qed
qed

lemma next_match_shorter:
  "next_match cmp blk s = Some (c # cs) \<Longrightarrow> length cs < length s"
  using next_match_Some [of cmp blk s "c # cs"]
  by (metis Suc_le_eq length_Cons length_drop diff_le_self)

text \<open>
  The \<^verbatim>\<open>do ... while(!finishScan)\<close> loop keeps the point after the last match
  found (\<^verbatim>\<open>EPtr\<close>) and goes on at the next character.
\<close>

function scan_last :: "(wchar \<Rightarrow> wchar \<Rightarrow> bool) \<Rightarrow> wstr \<Rightarrow> wstr \<Rightarrow> wstr option \<Rightarrow> wstr option" where
  "scan_last cmp blk s eptr =
     (case next_match cmp blk s of
        None \<Rightarrow> eptr
      | Some s1 \<Rightarrow>
          (case s1 of
             [] \<Rightarrow> Some []
           | c # cs \<Rightarrow> scan_last cmp blk cs (Some (drop (length blk) s1))))"
  by pat_completeness auto
termination
  by (relation "measure (\<lambda>(cmp, blk, s, eptr). length s)") (auto dest: next_match_shorter)

declare scan_last.simps [simp del]

lemma skip_quests_length: "skip_quests m s = Some (m', s') \<Longrightarrow> length m' \<le> length m"
  by (induction m s rule: skip_quests.induct) (auto split: if_splits list.splits)

text \<open>\<open>MatchStringEngine cmp m s\<close>: the outer loop at pattern suffix \<open>m\<close> and text suffix \<open>s\<close>.\<close>

function MatchStringEngine :: "(wchar \<Rightarrow> wchar \<Rightarrow> bool) \<Rightarrow> wstr \<Rightarrow> wstr \<Rightarrow> bool" where
  "MatchStringEngine cmp m s =
     (case m of
        [] \<Rightarrow> s = []
      | p # ps \<Rightarrow>
          if p = quest then (case s of [] \<Rightarrow> False | c # cs \<Rightarrow> MatchStringEngine cmp ps cs)
          else if p = star then
            (let m1 = dropWhile (\<lambda>c. c = star) ps in
             if m1 = [] then True
             else
               (case skip_quests m1 s of
                  None \<Rightarrow> False
                | Some (m2, s2) \<Rightarrow>
                    (let blk = takeWhile (\<lambda>c. c \<noteq> star) m2;
                         m3 = dropWhile (\<lambda>c. c \<noteq> star) m2
                     in if blk = [] then MatchStringEngine cmp m3 s2
                        else (case scan_last cmp blk s2 None of
                                None \<Rightarrow> False
                              | Some s3 \<Rightarrow> MatchStringEngine cmp m3 s3))))
          else
            (case s of
               [] \<Rightarrow> False
             | c # cs \<Rightarrow> if cmp p c then MatchStringEngine cmp ps cs else False))"
  by pat_completeness auto
termination
proof (relation "measure (\<lambda>(cmp, m, s). length m)", goal_cases)
  case (3 cmp m s p ps m1 x m2 s2 blk m3)
  have "length m3 \<le> length m2" "length m2 \<le> length m1" "length m1 \<le> length ps"
    using 3 skip_quests_length by (auto simp: length_dropWhile_le)
  with 3(1) show ?case by simp
next
  case (4 cmp m s p ps m1 x m2 s2 blk m3 s3)
  have "length m3 \<le> length m2" "length m2 \<le> length m1" "length m1 \<le> length ps"
    using 4 skip_quests_length by (auto simp: length_dropWhile_le)
  with 4(1) show ?case by simp
qed auto

declare MatchStringEngine.simps [simp del]

definition MatchStringW :: "(wchar \<Rightarrow> wchar) \<Rightarrow> wstr \<Rightarrow> wstr \<Rightarrow> bool \<Rightarrow> bool" where
  "MatchStringW up pattern str matchCase =
     (if matchCase then MatchStringEngine ccw pattern str
      else MatchStringEngine (ccwi up) pattern str)"

section \<open>What a wildcard pattern means\<close>

text \<open>
  The documented meaning: a star stands for any run of characters, a question mark for any
  one character, every other character for itself up to the comparator.
\<close>

fun wild :: "(wchar \<Rightarrow> wchar \<Rightarrow> bool) \<Rightarrow> wstr \<Rightarrow> wstr \<Rightarrow> bool" where
  "wild cmp [] s = (s = [])"
| "wild cmp (p # ps) s =
     (if p = star then wild cmp ps s \<or> (case s of [] \<Rightarrow> False | c # cs \<Rightarrow> wild cmp (p # ps) cs)
      else (case s of [] \<Rightarrow> False | c # cs \<Rightarrow> (p = quest \<or> cmp p c) \<and> wild cmp ps cs))"

lemma wild_star: "wild cmp (star # ps) s \<longleftrightarrow> (\<exists>k \<le> length s. wild cmp ps (drop k s))"
proof (induction s)
  case Nil
  then show ?case by simp
next
  case (Cons c cs)
  have "wild cmp (star # ps) (c # cs) \<longleftrightarrow> wild cmp ps (c # cs) \<or> (\<exists>k \<le> length cs. wild cmp ps (drop k cs))"
    using Cons.IH by simp
  also have "\<dots> \<longleftrightarrow> (\<exists>k \<le> length (c # cs). wild cmp ps (drop k (c # cs)))"
    by (metis (no_types, lifting) Suc_le_mono drop0 drop_Suc_Cons le0 length_Cons not0_implies_Suc)
  finally show ?case .
qed

lemma wild_star_star: "wild cmp (star # star # ps) s \<longleftrightarrow> wild cmp (star # ps) s"
proof
  assume "wild cmp (star # star # ps) s"
  then obtain k k' where "k \<le> length s" "k' \<le> length (drop k s)" "wild cmp ps (drop k' (drop k s))"
    by (auto simp only: wild_star)
  then show "wild cmp (star # ps) s"
    by (auto simp only: wild_star) (metis add_leD2 drop_drop le_diff_conv2 length_drop add.commute)
next
  assume "wild cmp (star # ps) s"
  then show "wild cmp (star # star # ps) s" by (subst wild_star) (intro exI [of _ 0], simp only: drop0, simp)
qed

lemma wild_stars: "wild cmp (star # dropWhile (\<lambda>c. c = star) ps) s \<longleftrightarrow> wild cmp (star # ps) s"
proof (induction ps)
  case (Cons p ps)
  then show ?case using wild_star_star [of cmp ps s] by (cases "p = star") (simp_all del: wild.simps(2))
qed simp

lemma wild_block:
  assumes "star \<notin> set blk"
  shows "wild cmp (blk @ ms) s \<longleftrightarrow>
     length blk \<le> length s \<and> CompareTextBlocks cmp blk s \<and> wild cmp ms (drop (length blk) s)"
  using assms
proof (induction blk arbitrary: s)
  case Nil
  then show ?case by simp
next
  case (Cons b blk)
  then show ?case by (cases s) auto
qed

lemma compare_quests: "CompareTextBlocks cmp (replicate n quest @ blk) s = CompareTextBlocks cmp blk (drop n s)"
  by (induction n arbitrary: s) (auto simp: drop_Suc)

lemma skip_quests_Some:
  "skip_quests m s = Some (m2, s2) \<Longrightarrow>
     \<exists>n. m = replicate n quest @ m2 \<and> n \<le> length s \<and> s2 = drop n s \<and> (m2 = [] \<or> hd m2 \<noteq> quest)"
proof (induction m s rule: skip_quests.induct)
  case (1 p ps s)
  show ?case
  proof (cases "p = quest")
    case True
    with 1(2) obtain c cs where cs: "s = c # cs" "skip_quests ps cs = Some (m2, s2)"
      by (auto split: list.splits)
    with 1(1) [OF True cs(1)] obtain n where "ps = replicate n quest @ m2" "n \<le> length cs"
      "s2 = drop n cs" "m2 = [] \<or> hd m2 \<noteq> quest" by blast
    with True cs show ?thesis by (intro exI [of _ "Suc n"]) auto
  next
    case False
    with 1(2) show ?thesis by (intro exI [of _ 0]) auto
  qed
next
  case (2 s)
  then show ?case by (intro exI [of _ 0]) auto
qed

lemma skip_quests_None: "skip_quests m s = None \<Longrightarrow> star \<notin> set blk \<Longrightarrow> m = blk @ ms \<Longrightarrow> \<not> length blk \<le> length s \<or> ms \<noteq> []"
proof (induction m s arbitrary: blk rule: skip_quests.induct)
  case (1 p ps s)
  then show ?case by (cases blk) (auto split: if_splits list.splits)
qed simp

lemma scan_last_Some:
  assumes "scan_last cmp blk s eptr = Some e" "blk \<noteq> []"
  shows "eptr = Some e \<or> (\<exists>j. matches_at cmp blk s j \<and> e = drop (j + length blk) s)"
  using assms
proof (induction cmp blk s eptr rule: scan_last.induct)
  case (1 cmp blk s eptr)
  show ?case
  proof (cases "next_match cmp blk s")
    case None
    with 1(2) show ?thesis by (subst (asm) scan_last.simps) simp
  next
    case (Some s1)
    then obtain j where j: "s1 = drop j s" "matches_at cmp blk s j" using next_match_Some by blast
    with 1(3) have "s1 \<noteq> []" by (cases blk) (auto simp: matches_at_def)
    then obtain c cs where cs: "s1 = c # cs" by (meson neq_Nil_conv)
    with 1(2) Some have "scan_last cmp blk cs (Some (drop (length blk) s1)) = Some e"
      by (subst (asm) scan_last.simps) simp
    from 1(1) [OF Some cs this 1(3)] consider "Some (drop (length blk) s1) = Some e"
      | j' where "matches_at cmp blk cs j'" "e = drop (j' + length blk) cs" by blast
    then show ?thesis
    proof cases
      case 1
      with j show ?thesis by (auto simp: add.commute)
    next
      case 2
      have "cs = drop (Suc j) s" using cs j(1) by (metis drop_Suc list.sel(3) tl_drop)
      moreover have "j < length s" using cs j(1) by (metis drop_eq_Nil leI list.distinct(1))
      ultimately have "matches_at cmp blk s (Suc j + j')" "e = drop (Suc j + j' + length blk) s"
        using 2 by (auto simp: matches_at_def ac_simps)
      then show ?thesis by blast
    qed
  qed
qed

section \<open>Soundness\<close>

lemma quests_no_star: "star \<notin> set (replicate n quest)"
  by (cases n) auto

lemma star_block:
  assumes "star \<notin> set blk" "n \<le> length s" "matches_at cmp blk (drop n s) j"
    "wild cmp ms (drop (j + length blk) (drop n s))"
  shows "wild cmp (star # replicate n quest @ blk @ ms) s"
proof -
  have j: "j + length blk \<le> length s - n" "CompareTextBlocks cmp blk (drop j (drop n s))"
    using assms(3) by (auto simp: matches_at_def)
  have "wild cmp ((replicate n quest @ blk) @ ms) (drop j s)"
  proof (subst wild_block)
    show "star \<notin> set (replicate n quest @ blk)" using assms(1) quests_no_star by simp
    show "length (replicate n quest @ blk) \<le> length (drop j s) \<and>
        CompareTextBlocks cmp (replicate n quest @ blk) (drop j s) \<and>
        wild cmp ms (drop (length (replicate n quest @ blk)) (drop j s))"
      using assms j by (auto simp: compare_quests add.commute add.left_commute)
  qed
  moreover have "j \<le> length s" using j by simp
  ultimately show ?thesis by (subst wild_star) auto
qed

text \<open>The engine's branches as equations.\<close>

lemma engine_nil: "MatchStringEngine cmp [] s \<longleftrightarrow> s = []"
  by (subst MatchStringEngine.simps) simp

lemma engine_quest:
  "MatchStringEngine cmp (quest # ps) s \<longleftrightarrow> (case s of [] \<Rightarrow> False | c # cs \<Rightarrow> MatchStringEngine cmp ps cs)"
  by (subst MatchStringEngine.simps) simp

lemma engine_lit:
  "p \<noteq> quest \<Longrightarrow> p \<noteq> star \<Longrightarrow> MatchStringEngine cmp (p # ps) s \<longleftrightarrow>
     (case s of [] \<Rightarrow> False | c # cs \<Rightarrow> cmp p c \<and> MatchStringEngine cmp ps cs)"
  by (subst MatchStringEngine.simps) (auto split: list.splits)

lemma engine_star_end:
  "dropWhile (\<lambda>c. c = star) ps = [] \<Longrightarrow> MatchStringEngine cmp (star # ps) s"
  by (subst MatchStringEngine.simps) (simp add: Let_def)

lemma engine_star_short:
  "dropWhile (\<lambda>c. c = star) ps = m1 \<Longrightarrow> m1 \<noteq> [] \<Longrightarrow> skip_quests m1 s = None \<Longrightarrow>
     \<not> MatchStringEngine cmp (star # ps) s"
  by (subst MatchStringEngine.simps) (simp add: Let_def del: dropWhile_eq_Nil_conv)

lemma engine_star_gap:
  "dropWhile (\<lambda>c. c = star) ps = m1 \<Longrightarrow> m1 \<noteq> [] \<Longrightarrow> skip_quests m1 s = Some (m2, s2) \<Longrightarrow>
     takeWhile (\<lambda>c. c \<noteq> star) m2 = [] \<Longrightarrow>
     MatchStringEngine cmp (star # ps) s \<longleftrightarrow> MatchStringEngine cmp (dropWhile (\<lambda>c. c \<noteq> star) m2) s2"
  by (subst MatchStringEngine.simps) (simp add: Let_def del: dropWhile_eq_Nil_conv)

lemma engine_star_block:
  "dropWhile (\<lambda>c. c = star) ps = m1 \<Longrightarrow> m1 \<noteq> [] \<Longrightarrow> skip_quests m1 s = Some (m2, s2) \<Longrightarrow>
     takeWhile (\<lambda>c. c \<noteq> star) m2 = blk \<Longrightarrow> blk \<noteq> [] \<Longrightarrow>
     MatchStringEngine cmp (star # ps) s \<longleftrightarrow>
       (case scan_last cmp blk s2 None of None \<Rightarrow> False
        | Some s3 \<Rightarrow> MatchStringEngine cmp (dropWhile (\<lambda>c. c \<noteq> star) m2) s3)"
  by (subst MatchStringEngine.simps) (auto simp: Let_def simp del: dropWhile_eq_Nil_conv)

lemma wild_after_skip:
  assumes "skip_quests (dropWhile (\<lambda>c. c = star) ps) s = Some (m2, s2)"
    "matches_at cmp (takeWhile (\<lambda>c. c \<noteq> star) m2) s2 j"
    "wild cmp (dropWhile (\<lambda>c. c \<noteq> star) m2) (drop (j + length (takeWhile (\<lambda>c. c \<noteq> star) m2)) s2)"
  shows "wild cmp (star # ps) s"
proof -
  let ?blk = "takeWhile (\<lambda>c. c \<noteq> star) m2"
  obtain n where n: "dropWhile (\<lambda>c. c = star) ps = replicate n quest @ m2" "n \<le> length s" "s2 = drop n s"
    using skip_quests_Some [OF assms(1)] by blast
  have "star \<notin> set ?blk" by (auto dest: set_takeWhileD)
  from star_block [OF this n(2) assms(2,3) [unfolded n(3)]] n(1) wild_stars [of cmp ps s]
  show ?thesis by simp
qed

lemma MatchStringEngine_sound: "MatchStringEngine cmp m s \<Longrightarrow> wild cmp m s"
proof (induction "length m" arbitrary: m s rule: less_induct)
  case less
  note IH = less(1) and run = less(2)
  show ?case
  proof (cases m)
    case Nil
    with run show ?thesis by (simp add: engine_nil)
  next
    case (Cons p ps)
    show ?thesis
    proof (cases "p = star")
      case False
      with run Cons show ?thesis
        by (cases "p = quest") (auto simp: engine_quest engine_lit Cons intro: IH split: list.splits)
    next
      case True
      define m1 where "m1 = dropWhile (\<lambda>c. c = star) ps"
      have short: "length m1 < length m" using Cons length_dropWhile_le [of _ ps] by (simp add: m1_def less_Suc_eq_le)
      consider (fin) "m1 = []" | (skip) m2 s2 where "m1 \<noteq> []" "skip_quests m1 s = Some (m2, s2)"
        using run Cons True engine_star_short [of ps m1 s cmp] m1_def by fastforce
      then show ?thesis
      proof cases
        case fin
        have "wild cmp [star] s" by (subst wild_star) (intro exI [of _ "length s"], simp)
        then have "wild cmp (star # ps) s"
          using wild_stars [of cmp ps s] fin by (simp only: m1_def)
        then show ?thesis by (simp only: Cons True)
      next
        case skip
        let ?blk = "takeWhile (\<lambda>c. c \<noteq> star) m2" and ?m3 = "dropWhile (\<lambda>c. c \<noteq> star) m2"
        have lt: "length ?m3 < length m"
          using short skip_quests_length [OF skip(2)] length_dropWhile_le [of _ m2] by (metis le_less_trans le_trans)
        show ?thesis
        proof (cases "?blk = []")
          case blk: True
          with run have "MatchStringEngine cmp ?m3 s2"
            using engine_star_gap [OF m1_def [symmetric] skip] Cons True by simp
          from wild_after_skip [of ps s m2 s2 cmp 0] IH [OF lt this] blk skip(2) Cons True show ?thesis
            by (simp add: matches_at_def m1_def)
        next
          case blk: False
          with run obtain s3 where s3: "scan_last cmp ?blk s2 None = Some s3" "MatchStringEngine cmp ?m3 s3"
            using engine_star_block [OF m1_def [symmetric] skip refl blk] Cons True by (auto split: option.splits)
          obtain j where "matches_at cmp ?blk s2 j" "s3 = drop (j + length ?blk) s2"
            using scan_last_Some [OF s3(1) blk] by auto
          with wild_after_skip [of ps s m2 s2 cmp j] IH [OF lt s3(2)] skip(2) Cons True show ?thesis
            by (simp add: m1_def)
        qed
      qed
    qed
  qed
qed

section \<open>Completeness for patterns with one star\<close>

definition cmp_sym :: "(wchar \<Rightarrow> wchar \<Rightarrow> bool) \<Rightarrow> bool" where
  "cmp_sym cmp \<longleftrightarrow> (\<forall>a b. cmp a b \<longrightarrow> cmp b a)"

lemma cmp_sym_ccw: "cmp_sym ccw" "cmp_sym (ccwi up)"
  by (auto simp: cmp_sym_def ccw_def ccwi_def)

text \<open>Skipping characters that differ from the first of the block loses no match.\<close>

lemma next_match_complete:
  assumes "next_match cmp blk s = None" "cmp_sym cmp" "blk \<noteq> []" "hd blk \<noteq> quest"
  shows "\<not> matches_at cmp blk s j"
  using assms
proof (induction cmp blk s arbitrary: j rule: next_match.induct)
  case (1 cmp blk s)
  let ?P = "\<lambda>c. \<not> cmp c (hd blk)"
  let ?s1 = "dropWhile ?P s" and ?k = "length (takeWhile ?P s)"
  have k: "?s1 = drop ?k s" by (simp add: dropWhile_eq_drop)
  have early: "\<not> matches_at cmp blk s j" if "j < ?k" for j
  proof
    assume m: "matches_at cmp blk s j"
    have jl: "j < length s" using that length_takeWhile_le [of ?P s] by simp
    have "?P (s ! j)" using that by (metis nth_mem set_takeWhileD takeWhile_nth)
    moreover obtain b bs where "blk = b # bs" using 1(4) by (cases blk) auto
    moreover have "drop j s = s ! j # drop (Suc j) s" by (rule Cons_nth_drop_Suc [OF jl, symmetric])
    ultimately show False using m 1(3,5) by (auto simp: matches_at_def cmp_sym_def)
  qed
  show ?case
  proof (cases "length ?s1 < length blk")
    case True
    with early [of j] k show ?thesis by (cases "j < ?k") (auto simp: matches_at_def)
  next
    case False
    with 1(2) have nc: "\<not> CompareTextBlocks cmp blk ?s1"
      by (subst (asm) next_match.simps) (auto simp: Let_def split: if_splits)
    obtain c cs where cs: "?s1 = c # cs" using False 1(4) by (cases ?s1) auto
    with 1(2) False nc have nx: "next_match cmp blk cs = None"
      by (subst (asm) next_match.simps) (simp add: Let_def)
    have "cs = drop (Suc ?k) s" using cs k by (metis drop_Suc list.sel(3) tl_drop)
    then have "\<not> matches_at cmp blk s (Suc ?k + i)" for i
      using 1(1) [OF refl False nc cs nx 1(3,4,5), of i] by (auto simp: matches_at_def ac_simps)
    moreover have "\<not> matches_at cmp blk s ?k" using nc k by (simp add: matches_at_def)
    ultimately show ?thesis using early by (metis add_Suc less_SucE not_less_eq not_less_iff_gr_or_eq less_iff_Suc_add)
  qed
qed

text \<open>When the block matches at the end of the text, the last match found is that one.\<close>

lemma scan_last_end:
  assumes "matches_at cmp blk s (length s - length blk)" "cmp_sym cmp" "blk \<noteq> []" "hd blk \<noteq> quest"
  shows "scan_last cmp blk s eptr = Some []"
  using assms
proof (induction cmp blk s eptr rule: scan_last.induct)
  case (1 cmp blk s eptr)
  then obtain s1 where s1: "next_match cmp blk s = Some s1"
    using next_match_complete by (metis not_Some_eq)
  then obtain j where j: "s1 = drop j s" "matches_at cmp blk s j" using next_match_Some by blast
  with 1(4) have "s1 \<noteq> []" by (cases blk) (auto simp: matches_at_def)
  then obtain c cs where cs: "s1 = c # cs" by (meson neq_Nil_conv)
  have step: "scan_last cmp blk s eptr = scan_last cmp blk cs (Some (drop (length blk) s1))"
    by (subst scan_last.simps) (simp add: s1 cs)
  have cd: "cs = drop (Suc j) s" using cs j(1) by (metis drop_Suc list.sel(3) tl_drop)
  show ?case
  proof (cases "j + length blk = length s")
    case True
    then have "length cs < length blk" using cd 1(4) by (cases blk) auto
    then have "next_match cmp blk cs = None"
      using next_match_Some [of cmp blk cs] by (fastforce simp: matches_at_def)
    then have "scan_last cmp blk cs (Some (drop (length blk) s1)) = Some (drop (length blk) s1)"
      by (subst scan_last.simps) simp
    with step True j show ?thesis by simp
  next
    case False
    with j(2) have "Suc j + length blk \<le> length s" by (simp add: matches_at_def)
    then have "Suc j + (length cs - length blk) = length s - length blk" "length blk \<le> length cs"
      using cd by auto
    then have "matches_at cmp blk cs (length cs - length blk)"
      using 1(2) unfolding matches_at_def cd by (metis drop_drop add.commute le_add_diff_inverse2 order_refl)
    from 1(1) [OF s1 cs this 1(3,4,5)] step show ?thesis by simp
  qed
qed

lemma one_star_base:
  assumes "cmp_sym cmp" "star \<notin> set suf" "suf = [] \<or> (\<exists>c \<in> set suf. c \<noteq> quest)"
    and w: "wild cmp (star # suf) s"
  shows "MatchStringEngine cmp (star # suf) s"
proof (cases "suf = []")
  case True
  then show ?thesis by (simp add: engine_star_end)
next
  case False
  have m1: "dropWhile (\<lambda>c. c = star) suf = suf"
    using assms(2) False by (cases suf) auto
  obtain k where k0: "k \<le> length s" "wild cmp (suf @ []) (drop k s)"
    using w by (auto simp only: wild_star append_Nil2)
  then have k: "k \<le> length s" "length suf \<le> length (drop k s)"
    "CompareTextBlocks cmp suf (drop k s)" "drop (length suf) (drop k s) = []"
    using wild_block [OF assms(2), of cmp "[]"] by auto
  then have kl: "k = length s - length suf" "length suf \<le> length s" by auto
  obtain m2 s2 where sk: "skip_quests suf s = Some (m2, s2)"
    using skip_quests_None [of suf s suf "[]"] assms(2) kl by (cases "skip_quests suf s") auto
  obtain n where n: "suf = replicate n quest @ m2" "n \<le> length s" "s2 = drop n s" "m2 = [] \<or> hd m2 \<noteq> quest"
    using skip_quests_Some [OF sk] by blast
  have m2: "m2 \<noteq> []" using n(1) assms(3) False by auto
  have "\<forall>c \<in> set m2. c \<noteq> star" using n(1) assms(2) by auto
  then have blk: "takeWhile (\<lambda>c. c \<noteq> star) m2 = m2" "dropWhile (\<lambda>c. c \<noteq> star) m2 = []"
    by (simp_all add: takeWhile_eq_all_conv)
  have ls: "length suf = n + length m2" using n(1) by simp
  have "drop n (drop k s) = drop (length s2 - length m2) s2"
    using kl ls n(2,3) by (simp add: add.commute)
  then have "matches_at cmp m2 s2 (length s2 - length m2)"
    using k(3) n(1,3) kl ls by (auto simp: matches_at_def compare_quests)
  then have "scan_last cmp m2 s2 None = Some []"
    using scan_last_end [OF _ assms(1) m2] n(4) m2 by blast
  then show ?thesis
    using engine_star_block [OF m1 False sk blk(1) m2, of cmp] by (simp add: blk(2) engine_nil)
qed

lemma no_star_prefix:
  assumes "star \<notin> set pre" "\<And>s. wild cmp ms s \<Longrightarrow> MatchStringEngine cmp ms s"
    "wild cmp (pre @ ms) s"
  shows "MatchStringEngine cmp (pre @ ms) s"
  using assms(1,3)
proof (induction pre arbitrary: s)
  case Nil
  with assms(2) show ?case by simp
next
  case (Cons p pre)
  then show ?case
    by (cases "p = quest") (auto simp: engine_quest engine_lit split: list.splits)
qed

section \<open>Properties\<close>

text \<open>
  C33. Wildcard matching never claims a false match: whenever the engine accepts, the text
  really is an instance of the pattern, for every pattern and both case modes.
\<close>

theorem match_sound:
  "MatchStringW up pattern str matchCase \<Longrightarrow>
     wild (if matchCase then ccw else ccwi up) pattern str"
  by (auto simp: MatchStringW_def intro: MatchStringEngine_sound split: if_splits)

theorem match_sound_witness:
  "MatchStringW id (W ''a?c'') (W ''abc'') True \<and> wild ccw (W ''a?c'') (W ''abc'')"
proof -
  have m: "MatchStringW id (W ''a?c'') (W ''abc'') True"
    by (simp add: MatchStringW_def W_def MatchStringEngine.simps ccw_def)
  from m match_sound [OF m] show ?thesis by simp
qed



text \<open>
  With two stars the engine can reject a text that is an instance of the pattern: it
  commits to the last occurrence of the first block and leaves nothing for the second. A
  trailing question mark after a star is also rejected on longer texts.
\<close>

theorem match_incomplete:
  "\<not> MatchStringW up (W ''*.*.*'') (W ''1.2.3'') True \<and> wild ccw (W ''*.*.*'') (W ''1.2.3'') \<and>
   \<not> MatchStringW up (W ''*?'') (W ''ab'') True \<and> wild ccw (W ''*?'') (W ''ab'')"
  by (simp add: MatchStringW_def W_def MatchStringEngine.simps scan_last.simps next_match.simps ccw_def)

end
