(* ===== verification/Nx_Itoa.thy ===== *)
theory Nx_Itoa
  imports Nx_Prelude
begin

text \<open>
  Conversion between integers and text: \<^verbatim>\<open>IntegerToString\<close>
  (\<^verbatim>\<open>src/src/libnetxms/itoa.cpp\<close>) and the C library's \<^verbatim>\<open>wcstoll\<close> and
  \<^verbatim>\<open>wcstoull\<close> with base 0, which the metric values use to read text back. Integers of
  every width are read as mathematical integers here: no step of the formatting loops
  leaves the range of its type, the smallest negative number included.
\<close>

section \<open>Division that truncates towards zero\<close>

definition cdiv :: "int \<Rightarrow> int \<Rightarrow> int" where
  "cdiv a b = sgn a * sgn b * (\<bar>a\<bar> div \<bar>b\<bar>)"

definition cmod :: "int \<Rightarrow> int \<Rightarrow> int" where
  "cmod a b = a - cdiv a b * b"

lemma cdiv_nonneg: "0 \<le> a \<Longrightarrow> 0 < b \<Longrightarrow> cdiv a b = a div b"
  by (cases "a = 0") (auto simp: cdiv_def)

lemma cdiv_neg_neg: "a < 0 \<Longrightarrow> 0 < b \<Longrightarrow> cdiv a (- b) = (- a) div b"
  by (simp add: cdiv_def)

lemma cmod_neg: "a < 0 \<Longrightarrow> 0 < b \<Longrightarrow> - cmod a b = (- a) mod b"
  by (simp add: cmod_def cdiv_def minus_div_mult_eq_mod [symmetric])

section \<open>Formatting\<close>

definition digit_char :: "int \<Rightarrow> wchar" where
  "digit_char rem = nat (if rem < 10 then rem + 48 else rem - 10 + 97)"

text \<open>
  The \<^verbatim>\<open>while(value > 0)\<close> loop, which leaves the digits in the buffer in reverse
  order. The base is at least 2 in every call of the code.
\<close>

function digits_rev :: "int \<Rightarrow> int \<Rightarrow> wstr" where
  "digits_rev v base =
     (if v > 0 \<and> base > 1 then digit_char (v mod base) # digits_rev (v div base) base else [])"
  by pat_completeness auto
termination
  by (relation "measure (\<lambda>(v, base). nat v)") (auto simp: nat_less_iff int_div_less_self)

declare digits_rev.simps [simp del]

definition SignedIntegerToString :: "int \<Rightarrow> int \<Rightarrow> wstr" where
  "SignedIntegerToString v base =
     (if v = 0 then [48]
      else if v < 0 then
        45 # rev (digit_char (- cmod v base) # digits_rev (cdiv v (- base)) base)
      else rev (digits_rev v base))"

definition UnsignedIntegerToString :: "int \<Rightarrow> int \<Rightarrow> wstr" where
  "UnsignedIntegerToString v base = rev (digit_char (v mod base) # digits_rev (v div base) base)"

section \<open>Reading\<close>

definition is_space :: "wchar \<Rightarrow> bool" where
  "is_space c \<longleftrightarrow> c \<in> {32, 9, 10, 11, 12, 13}"

definition digit_val :: "wchar \<Rightarrow> int" where
  "digit_val c =
     (if 48 \<le> c \<and> c \<le> 57 then int c - 48
      else if 97 \<le> c \<and> c \<le> 122 then int c - 87
      else if 65 \<le> c \<and> c \<le> 90 then int c - 55
      else 99)"

fun accum :: "int \<Rightarrow> int \<Rightarrow> wstr \<Rightarrow> int" where
  "accum base acc [] = acc"
| "accum base acc (c # cs) =
     (if digit_val c < base then accum base (acc * base + digit_val c) cs else acc)"

text \<open>Sign and magnitude of a number with base 0 (prefix \<^verbatim>\<open>0x\<close>, \<^verbatim>\<open>0\<close> or none).\<close>

definition scan_int :: "wstr \<Rightarrow> bool \<times> int" where
  "scan_int s =
     (let s1 = dropWhile is_space s;
          neg = (s1 \<noteq> [] \<and> hd s1 = 45);
          s2 = (if s1 \<noteq> [] \<and> (hd s1 = 45 \<or> hd s1 = 43) then tl s1 else s1)
      in (neg,
          case s2 of
            c0 # c1 # c2 # cs \<Rightarrow>
              if c0 = 48 \<and> (c1 = 120 \<or> c1 = 88) \<and> digit_val c2 < 16 then accum 16 0 (c2 # cs)
              else if c0 = 48 then accum 8 0 s2 else accum 10 0 s2
          | c0 # cs \<Rightarrow> if c0 = 48 then accum 8 0 s2 else accum 10 0 s2
          | [] \<Rightarrow> 0))"

definition wcstoll :: "wstr \<Rightarrow> u64" where
  "wcstoll s =
     (let (neg, mag) = scan_int s; v = (if neg then - mag else mag)
      in word_of_int (max (- (2 ^ 63)) (min (2 ^ 63 - 1) v)))"

definition wcstoull :: "wstr \<Rightarrow> u64" where
  "wcstoull s =
     (let (neg, mag) = scan_int s
      in if mag > 2 ^ 64 - 1 then - 1
         else if neg then - (word_of_int mag) else word_of_int mag)"

section \<open>Round trip\<close>

lemma digit_val_char: "0 \<le> r \<Longrightarrow> r < 10 \<Longrightarrow> digit_val (digit_char r) = r"
  by (auto simp: digit_char_def digit_val_def)

lemma digit_char_range: "0 \<le> r \<Longrightarrow> r < 10 \<Longrightarrow> 48 \<le> digit_char r \<and> digit_char r \<le> 57"
  by (auto simp: digit_char_def)

lemma digits_rev_set: "c \<in> set (digits_rev v 10) \<Longrightarrow> 48 \<le> c \<and> c \<le> 57"
proof (induction v "10 :: int" rule: digits_rev.induct)
  case (1 v)
  show ?case
  proof (cases "v > 0")
    case True
    then have "digits_rev v 10 = digit_char (v mod 10) # digits_rev (v div 10) 10"
      by (subst digits_rev.simps) simp
    with 1 True digit_char_range [of "v mod 10"] show ?thesis by auto
  next
    case False
    with 1 show ?thesis by (subst (asm) digits_rev.simps) simp
  qed
qed

lemma accum_append:
  assumes "\<forall>c \<in> set xs. digit_val c < base"
  shows "accum base acc (xs @ ys) = accum base (accum base acc xs) ys"
  using assms by (induction xs arbitrary: acc) auto

lemma digit_val_lt: "48 \<le> c \<and> c \<le> 57 \<Longrightarrow> digit_val c < 10"
  by (auto simp: digit_val_def)

lemma accum_digits: "0 \<le> v \<Longrightarrow> accum 10 0 (rev (digits_rev v 10)) = v"
proof (induction v "10 :: int" rule: digits_rev.induct)
  case (1 v)
  show ?case
  proof (cases "v > 0")
    case True
    then have d: "digits_rev v 10 = digit_char (v mod 10) # digits_rev (v div 10) 10"
      by (subst digits_rev.simps) simp
    have "\<forall>c \<in> set (rev (digits_rev (v div 10) 10)). digit_val c < 10"
      using digits_rev_set digit_val_lt by auto
    then have "accum 10 0 (rev (digits_rev v 10)) = accum 10 (v div 10) [digit_char (v mod 10)]"
      using 1 True by (simp add: d accum_append)
    then show ?thesis by (simp add: digit_val_char)
  next
    case False
    with 1 show ?thesis by (subst digits_rev.simps) simp
  qed
qed

text \<open>The leading digit of a positive number is not zero, so it is not read as octal.\<close>

lemma digits_last:
  assumes "v > 0"
  shows "digits_rev v 10 \<noteq> []" "last (digits_rev v 10) \<noteq> 48"
  using assms
proof (induction v "10 :: int" rule: digits_rev.induct)
  case (1 v)
  case 1
  then show ?case by (subst digits_rev.simps) simp
next
  case (1 v)
  case 2
  have d: "digits_rev v 10 = digit_char (v mod 10) # digits_rev (v div 10) 10"
    using 2 by (subst digits_rev.simps) simp
  show ?case
  proof (cases "v div 10 > 0")
    case True
    with 1 2 d show ?thesis by simp
  next
    case False
    then have "digits_rev (v div 10) 10 = []" by (subst digits_rev.simps) simp
    moreover have "v mod 10 = v" "v < 10" using False 2 by auto
    ultimately show ?thesis using 2 by (simp add: d digit_char_def)
  qed
qed

lemma scan_pos:
  assumes "v > 0"
  shows "scan_int (rev (digits_rev v 10)) = (False, v)"
    "scan_int (45 # rev (digits_rev v 10)) = (True, v)"
proof -
  obtain c cs where r: "rev (digits_rev v 10) = c # cs"
    using digits_last(1) [OF assms] by (cases "rev (digits_rev v 10)") auto
  have c: "c = last (digits_rev v 10)" using r by (metis hd_rev list.sel(1))
  have "c \<noteq> 48" using digits_last(2) [OF assms] c by simp
  moreover have "48 \<le> c \<and> c \<le> 57"
    using digits_rev_set [of c v] r by (metis list.set_intros(1) set_rev)
  moreover have "accum 10 0 (c # cs) = v" using accum_digits [of v] assms r by simp
  ultimately show "scan_int (rev (digits_rev v 10)) = (False, v)"
    "scan_int (45 # rev (digits_rev v 10)) = (True, v)"
    unfolding r by (auto simp: scan_int_def is_space_def simp del: accum.simps split: list.split)
qed

lemma digits_step: "v > 0 \<Longrightarrow>
    digit_char (v mod 10) # digits_rev (v div 10) 10 = digits_rev v 10"
  by (subst (2) digits_rev.simps) simp

lemma signed_digits: "SignedIntegerToString v 10 =
    (if v = 0 then [48] else if v < 0 then 45 # rev (digits_rev (- v) 10)
     else rev (digits_rev v 10))"
  using digits_step [of "- v"]
  by (auto simp: SignedIntegerToString_def cmod_neg cdiv_neg_neg)

lemma scan_signed: "scan_int (SignedIntegerToString v 10) = (v < 0, \<bar>v\<bar>)"
  using scan_pos [of v] scan_pos [of "- v"]
  by (auto simp: signed_digits scan_int_def is_space_def digit_val_def)

lemma scan_unsigned: "0 \<le> v \<Longrightarrow> scan_int (UnsignedIntegerToString v 10) = (False, v)"
proof (cases "v = 0")
  case True
  have "digits_rev 0 10 = []" by (subst digits_rev.simps) simp
  with True show ?thesis
    by (simp add: UnsignedIntegerToString_def digit_char_def scan_int_def is_space_def digit_val_def)
next
  case False
  assume "0 \<le> v"
  with False show ?thesis
    using scan_pos(1) [of v] digits_step [of v] by (simp add: UnsignedIntegerToString_def)
qed

lemma wcstoll_signed: "wcstoll (SignedIntegerToString (sint (w :: u64)) 10) = w"
proof -
  have "- (2 ^ 63) \<le> sint w" "sint w \<le> 2 ^ 63 - 1" using sint_ge [of w] sint_lt [of w] by auto
  then have "max (- (2 ^ 63)) (min (2 ^ 63 - 1) (sint w)) = sint w"
    by (simp only: min_absorb2 max_absorb2)
  then show ?thesis
    by (auto simp: wcstoll_def scan_signed Let_def simp del: min_def max_def)
qed

lemma wcstoull_unsigned: "wcstoull (UnsignedIntegerToString (uint (w :: u64)) 10) = w"
  using uint_lt2p [of w] by (auto simp: wcstoull_def scan_unsigned)

section \<open>The buffer\<close>

text \<open>The digits of a 64-bit magnitude in any base fit the 64-character local buffer.\<close>

lemma digits_rev_length: "base > 1 \<Longrightarrow> 0 \<le> v \<Longrightarrow> v < 2 ^ n \<Longrightarrow> length (digits_rev v base) \<le> n"
proof (induction n arbitrary: v)
  case 0
  then show ?case by (subst digits_rev.simps) simp
next
  case (Suc n)
  show ?case
  proof (cases "v > 0")
    case True
    have "v div base \<le> v div 2" using Suc.prems True by (intro zdiv_mono2) auto
    also have "v div 2 < 2 ^ n" using Suc.prems by simp
    finally have "length (digits_rev (v div base) base) \<le> n"
      using Suc.prems True by (intro Suc.IH) (auto simp: pos_imp_zdiv_nonneg_iff)
    then show ?thesis using True Suc.prems by (subst digits_rev.simps) simp
  next
    case False
    then show ?thesis by (subst digits_rev.simps) simp
  qed
qed

lemma signed_length: "length (SignedIntegerToString (sint (w :: u64)) 10) \<le> 65"
proof -
  have "length (digits_rev \<bar>sint w\<bar> 10) \<le> 64"
    using sint_ge [of w] sint_lt [of w] by (intro digits_rev_length) auto
  then show ?thesis by (auto simp: signed_digits)
qed


end
