(* ===== verification/Nx_Value.thy ===== *)
theory Nx_Value
  imports Nx_Itoa
begin

text \<open>
  Metric values: \<^verbatim>\<open>class ItemValue\<close> (\<^verbatim>\<open>src/src/server/include/nms_dcoll.h\<close>) and its
  functions in \<^verbatim>\<open>src/src/server/core/dcivalue.cpp\<close>. A value holds the same quantity as
  text, as a double and as two 64-bit integers. Integers are words, so arithmetic wraps; the
  signed ones are read with \<open>sint\<close>. The C type \<^verbatim>\<open>double\<close> is a parameter: the type
  variable \<open>'d\<close> and the record \<open>'d dbl\<close> of its operations. A template over a numeric type
  takes the record \<open>'t cnum\<close> of that type's operations. Division by zero of an integer
  type, which traps, is the fault \<open>Div_zero\<close>.
\<close>

section \<open>C arithmetic types\<close>

record 't cnum =
  c_add :: "'t \<Rightarrow> 't \<Rightarrow> 't"
  c_sub :: "'t \<Rightarrow> 't \<Rightarrow> 't"
  c_div :: "'t \<Rightarrow> 't \<Rightarrow> fault + 't"
  c_lt :: "'t \<Rightarrow> 't \<Rightarrow> bool"
  c_abs :: "'t \<Rightarrow> 't"
  c_of_int :: "int \<Rightarrow> 't"

definition abs_signed :: "'a::len word \<Rightarrow> 'a word" where
  "abs_signed v = (if sint v < 0 then - v else v)"

definition signed_num :: "'a::len word cnum" where
  "signed_num = \<lparr>
     c_add = (+), c_sub = (-),
     c_div = (\<lambda>a b. if b = 0 then Inl Div_zero else Inr (word_of_int (cdiv (sint a) (sint b)))),
     c_lt = (\<lambda>a b. sint a < sint b),
     c_abs = abs_signed,
     c_of_int = word_of_int \<rparr>"

definition unsigned_num :: "'a::len word cnum" where
  "unsigned_num = \<lparr>
     c_add = (+), c_sub = (-),
     c_div = (\<lambda>a b. if b = 0 then Inl Div_zero else Inr (a div b)),
     c_lt = (\<lambda>a b. a < b),
     c_abs = (\<lambda>v. v),
     c_of_int = word_of_int \<rparr>"

record 'd dbl =
  d_num :: "'d cnum"
  d_le :: "'d \<Rightarrow> 'd \<Rightarrow> bool"
  d_eq :: "'d \<Rightarrow> 'd \<Rightarrow> bool"
  d_mul :: "'d \<Rightarrow> 'd \<Rightarrow> 'd"
  d_eps :: 'd
  d_to_i64 :: "'d \<Rightarrow> u64"
  d_to_u64 :: "'d \<Rightarrow> u64"
  d_print :: "'d \<Rightarrow> wstr"
  d_wcstod :: "wstr \<Rightarrow> 'd \<times> wstr"

section \<open>Values\<close>

abbreviation (input) "MAX_DB_STRING \<equiv> (256 :: nat)"

abbreviation (input) "DCI_DT_INT \<equiv> (0 :: nat)"
abbreviation (input) "DCI_DT_UINT \<equiv> (1 :: nat)"
abbreviation (input) "DCI_DT_INT64 \<equiv> (2 :: nat)"
abbreviation (input) "DCI_DT_UINT64 \<equiv> (3 :: nat)"
abbreviation (input) "DCI_DT_STRING \<equiv> (4 :: nat)"
abbreviation (input) "DCI_DT_FLOAT \<equiv> (5 :: nat)"
abbreviation (input) "DCI_DT_NULL \<equiv> (6 :: nat)"
abbreviation (input) "DCI_DT_COUNTER32 \<equiv> (7 :: nat)"
abbreviation (input) "DCI_DT_COUNTER64 \<equiv> (8 :: nat)"

text \<open>Timestamps are milliseconds; 0 is the null timestamp and 1 marks a cache placeholder.\<close>

record 'd item_value =
  v_double :: 'd
  v_int64 :: u64
  v_uint64 :: u64
  v_timestamp :: int
  v_string :: wstr

definition new_value :: "'d dbl \<Rightarrow> int \<Rightarrow> 'd item_value" where
  "new_value D now = \<lparr> v_double = c_of_int (d_num D) 0, v_int64 = 0, v_uint64 = 0,
     v_timestamp = now, v_string = [] \<rparr>"

definition getInt32 :: "'d item_value \<Rightarrow> u32" where
  "getInt32 v = ucast (v_int64 v)"

definition getUInt32 :: "'d item_value \<Rightarrow> u32" where
  "getUInt32 v = ucast (v_uint64 v)"

definition suffix_power :: "wstr \<Rightarrow> nat" where
  "suffix_power s = (case s of [] \<Rightarrow> 0 | c # _ \<Rightarrow>
     if c = 75 \<or> c = 107 then 1
     else if c = 77 \<or> c = 109 then 2
     else if c = 71 \<or> c = 103 then 3
     else if c = 84 \<or> c = 116 then 4
     else 0)"

definition suffix_multiplier :: "wstr \<Rightarrow> int" where
  "suffix_multiplier s =
     (case tl s of c # _ \<Rightarrow> if c = 73 \<or> c = 105 then 1024 ^ suffix_power s else 1000 ^ suffix_power s
      | [] \<Rightarrow> 1000 ^ suffix_power s)"

definition parseStringValue :: "'d dbl \<Rightarrow> bool \<Rightarrow> 'd item_value \<Rightarrow> 'd item_value" where
  "parseStringValue D parseSuffix v =
     (let (d, e) = d_wcstod D (v_string v);
          eptr = dropWhile (\<lambda>c. c = 32) e
      in if parseSuffix \<and> suffix_power eptr > 0 then
           let d' = d_mul D d (c_of_int (d_num D) (suffix_multiplier eptr))
           in v\<lparr> v_double := d', v_int64 := d_to_i64 D d', v_uint64 := d_to_u64 D d' \<rparr>
         else
           v\<lparr> v_double := d, v_int64 := wcstoll (v_string v), v_uint64 := wcstoull (v_string v) \<rparr>)"

definition value_of_string :: "'d dbl \<Rightarrow> int \<Rightarrow> wstr \<Rightarrow> int \<Rightarrow> bool \<Rightarrow> 'd item_value" where
  "value_of_string D now s timestamp parseSuffix =
     parseStringValue D parseSuffix
       \<lparr> v_double = c_of_int (d_num D) 0, v_int64 = 0, v_uint64 = 0,
         v_timestamp = (if timestamp = 0 then now else timestamp),
         v_string = wcslcpy s MAX_DB_STRING \<rparr>"

definition set_string :: "'d dbl \<Rightarrow> wstr option \<Rightarrow> bool \<Rightarrow> 'd item_value \<Rightarrow> 'd item_value" where
  "set_string D s parseSuffix v =
     parseStringValue D parseSuffix
       (v\<lparr> v_string := wcslcpy (case s of None \<Rightarrow> [] | Some t \<Rightarrow> t) MAX_DB_STRING \<rparr>)"

definition text_or :: "wstr option \<Rightarrow> wstr \<Rightarrow> wstr" where
  "text_or s t = (case s of Some u \<Rightarrow> wcslcpy u MAX_DB_STRING | None \<Rightarrow> t)"

definition set_double :: "'d dbl \<Rightarrow> 'd \<Rightarrow> wstr option \<Rightarrow> 'd item_value \<Rightarrow> 'd item_value" where
  "set_double D x s v = v\<lparr> v_double := x,
     v_string := text_or s (wcslcpy (d_print D x) MAX_DB_STRING),
     v_int64 := d_to_i64 D x, v_uint64 := d_to_u64 D x \<rparr>"

definition set_int32 :: "'d dbl \<Rightarrow> u32 \<Rightarrow> wstr option \<Rightarrow> 'd item_value \<Rightarrow> 'd item_value" where
  "set_int32 D x s v = v\<lparr> v_int64 := scast x,
     v_string := text_or s (SignedIntegerToString (sint x) 10),
     v_double := c_of_int (d_num D) (sint x), v_uint64 := scast x \<rparr>"

definition set_int64 :: "'d dbl \<Rightarrow> u64 \<Rightarrow> wstr option \<Rightarrow> 'd item_value \<Rightarrow> 'd item_value" where
  "set_int64 D x s v = v\<lparr> v_int64 := x,
     v_string := text_or s (SignedIntegerToString (sint x) 10),
     v_double := c_of_int (d_num D) (sint x), v_uint64 := x \<rparr>"

definition set_uint32 :: "'d dbl \<Rightarrow> u32 \<Rightarrow> wstr option \<Rightarrow> 'd item_value \<Rightarrow> 'd item_value" where
  "set_uint32 D x s v = v\<lparr> v_uint64 := ucast x,
     v_string := text_or s (UnsignedIntegerToString (uint x) 10),
     v_double := c_of_int (d_num D) (uint x), v_int64 := ucast x \<rparr>"

definition set_uint64 :: "'d dbl \<Rightarrow> u64 \<Rightarrow> wstr option \<Rightarrow> 'd item_value \<Rightarrow> 'd item_value" where
  "set_uint64 D x s v = v\<lparr> v_uint64 := x,
     v_string := text_or s (UnsignedIntegerToString (uint x) 10),
     v_double := c_of_int (d_num D) (sint x), v_int64 := x \<rparr>"

section \<open>Differences\<close>

definition diff_uint32 :: "u32 \<Rightarrow> u32 \<Rightarrow> u64" where
  "diff_uint32 cur prev =
     (if cur \<ge> prev then ucast (cur - prev) else - ucast (prev - cur))"

definition diff_uint64 :: "u64 \<Rightarrow> u64 \<Rightarrow> u64" where
  "diff_uint64 cur prev = (if cur \<ge> prev then cur - prev else - (prev - cur))"

text \<open>Every switch on the data type groups the cases alike.\<close>

definition dt_switch :: "nat \<Rightarrow> 'r \<Rightarrow> 'r \<Rightarrow> 'r \<Rightarrow> 'r \<Rightarrow> 'r \<Rightarrow> 'r \<Rightarrow> 'r \<Rightarrow> 'r" where
  "dt_switch dt i32 u32 i64 u64 flt str other =
     (if dt = DCI_DT_INT then i32
      else if dt = DCI_DT_UINT \<or> dt = DCI_DT_COUNTER32 then u32
      else if dt = DCI_DT_INT64 then i64
      else if dt = DCI_DT_UINT64 \<or> dt = DCI_DT_COUNTER64 then u64
      else if dt = DCI_DT_FLOAT then flt
      else if dt = DCI_DT_STRING then str
      else other)"

definition CalculateItemValueDiff ::
  "'d dbl \<Rightarrow> nat \<Rightarrow> 'd item_value \<Rightarrow> 'd item_value \<Rightarrow> 'd item_value \<Rightarrow> 'd item_value" where
  "CalculateItemValueDiff D dt cur prev result =
     dt_switch dt
       (set_int32 D (getInt32 cur - getInt32 prev) None result)
       (set_int64 D (diff_uint32 (getUInt32 cur) (getUInt32 prev)) None result)
       (set_int64 D (v_int64 cur - v_int64 prev) None result)
       (set_int64 D (diff_uint64 (v_uint64 cur) (v_uint64 prev)) None result)
       (set_double D (c_sub (d_num D) (v_double cur) (v_double prev)) None result)
       (set_int32 D (if v_string cur = v_string prev then 0 else 1) None result)
       cur"

section \<open>Aggregates over a list of values\<close>

text \<open>The value list is the first \<^verbatim>\<open>sampleCount\<close> entries; placeholders are skipped.\<close>

definition sum_count :: "'t cnum \<Rightarrow> ('d item_value \<Rightarrow> 't) \<Rightarrow> 'd item_value list \<Rightarrow> 't \<times> nat" where
  "sum_count N cast valueList =
     foldl (\<lambda>(sum, count) v. if v_timestamp v \<noteq> 1 then (c_add N sum (cast v), count + 1) else (sum, count))
       (c_of_int N 0, 0) valueList"

definition CalculateAverage ::
  "'t cnum \<Rightarrow> ('d item_value \<Rightarrow> 't) \<Rightarrow> 'd item_value list \<Rightarrow> fault + 't" where
  "CalculateAverage N cast valueList =
     (let (sum, count) = sum_count N cast valueList
      in if count > 0 then c_div N sum (c_of_int N (int count)) else Inr (c_of_int N 0))"

definition CalculateItemValueAverage ::
  "'d dbl \<Rightarrow> nat \<Rightarrow> 'd item_value list \<Rightarrow> 'd item_value \<Rightarrow> fault + 'd item_value" where
  "CalculateItemValueAverage D dt valueList result =
     dt_switch dt
       (sum_bind (CalculateAverage signed_num getInt32 valueList) (\<lambda>x. Inr (set_int32 D x None result)))
       (sum_bind (CalculateAverage unsigned_num getUInt32 valueList) (\<lambda>x. Inr (set_uint32 D x None result)))
       (sum_bind (CalculateAverage signed_num v_int64 valueList) (\<lambda>x. Inr (set_int64 D x None result)))
       (sum_bind (CalculateAverage unsigned_num v_uint64 valueList) (\<lambda>x. Inr (set_uint64 D x None result)))
       (sum_bind (CalculateAverage (d_num D) v_double valueList) (\<lambda>x. Inr (set_double D x None result)))
       (Inr (set_string D (Some []) False result))
       (Inr result)"

definition CalculateSum :: "'t cnum \<Rightarrow> ('d item_value \<Rightarrow> 't) \<Rightarrow> 'd item_value list \<Rightarrow> 't" where
  "CalculateSum N cast valueList =
     foldl (\<lambda>sum v. if v_timestamp v \<noteq> 1 then c_add N sum (cast v) else sum) (c_of_int N 0) valueList"

definition CalculateItemValueTotal ::
  "'d dbl \<Rightarrow> nat \<Rightarrow> 'd item_value list \<Rightarrow> 'd item_value \<Rightarrow> 'd item_value" where
  "CalculateItemValueTotal D dt valueList result =
     dt_switch dt
       (set_int32 D (CalculateSum signed_num getInt32 valueList) None result)
       (set_uint32 D (CalculateSum unsigned_num getUInt32 valueList) None result)
       (set_int64 D (CalculateSum signed_num v_int64 valueList) None result)
       (set_uint64 D (CalculateSum unsigned_num v_uint64 valueList) None result)
       (set_double D (CalculateSum (d_num D) v_double valueList) None result)
       (set_string D (Some []) False result)
       result"

definition CalculateMeanDeviation ::
  "'t cnum \<Rightarrow> ('d item_value \<Rightarrow> 't) \<Rightarrow> 'd item_value list \<Rightarrow> fault + 't" where
  "CalculateMeanDeviation N cast valueList =
     (let (sum, count) = sum_count N cast valueList in
      sum_bind (c_div N sum (c_of_int N (int count))) (\<lambda>mean.
        let dev = foldl (\<lambda>dev v. if v_timestamp v \<noteq> 1
                    then c_add N dev (c_abs N (c_sub N (cast v) mean)) else dev)
                    (c_of_int N 0) valueList
        in c_div N dev (c_of_int N (int count))))"

definition CalculateItemValueMeanDeviation ::
  "'d dbl \<Rightarrow> nat \<Rightarrow> 'd item_value list \<Rightarrow> 'd item_value \<Rightarrow> fault + 'd item_value" where
  "CalculateItemValueMeanDeviation D dt valueList result =
     dt_switch dt
       (sum_bind (CalculateMeanDeviation signed_num getInt32 valueList) (\<lambda>x. Inr (set_int32 D x None result)))
       (sum_bind (CalculateMeanDeviation unsigned_num getUInt32 valueList) (\<lambda>x. Inr (set_uint32 D x None result)))
       (sum_bind (CalculateMeanDeviation signed_num v_int64 valueList) (\<lambda>x. Inr (set_int64 D x None result)))
       (sum_bind (CalculateMeanDeviation unsigned_num v_uint64 valueList) (\<lambda>x. Inr (set_uint64 D x None result)))
       (sum_bind (CalculateMeanDeviation (d_num D) v_double valueList) (\<lambda>x. Inr (set_double D x None result)))
       (Inr (set_string D (Some []) False result))
       (Inr result)"

text \<open>Minimum and maximum: \<open>better\<close> is the type's less-than or greater-than.\<close>

definition best_step :: "('t \<Rightarrow> 't \<Rightarrow> bool) \<Rightarrow> ('d item_value \<Rightarrow> 't) \<Rightarrow> bool \<times> 't \<Rightarrow> 'd item_value \<Rightarrow> bool \<times> 't" where
  "best_step better cast = (\<lambda>(is_first, best) v.
     if v_timestamp v \<noteq> 1 \<and> (is_first \<or> better (cast v) best) then (False, cast v)
     else (is_first, best))"

definition CalculateMin :: "'t cnum \<Rightarrow> ('d item_value \<Rightarrow> 't) \<Rightarrow> 'd item_value list \<Rightarrow> 't" where
  "CalculateMin N cast valueList =
     snd (foldl (best_step (c_lt N) cast) (True, c_of_int N 0) valueList)"

definition CalculateMax :: "'t cnum \<Rightarrow> ('d item_value \<Rightarrow> 't) \<Rightarrow> 'd item_value list \<Rightarrow> 't" where
  "CalculateMax N cast valueList =
     snd (foldl (best_step (\<lambda>a b. c_lt N b a) cast) (True, c_of_int N 0) valueList)"

definition CalculateItemValueMin ::
  "'d dbl \<Rightarrow> nat \<Rightarrow> 'd item_value list \<Rightarrow> 'd item_value \<Rightarrow> 'd item_value" where
  "CalculateItemValueMin D dt valueList result =
     dt_switch dt
       (set_int32 D (CalculateMin signed_num getInt32 valueList) None result)
       (set_uint32 D (CalculateMin unsigned_num getUInt32 valueList) None result)
       (set_int64 D (CalculateMin signed_num v_int64 valueList) None result)
       (set_uint64 D (CalculateMin unsigned_num v_uint64 valueList) None result)
       (set_double D (CalculateMin (d_num D) v_double valueList) None result)
       (set_string D (Some []) False result)
       result"

definition CalculateItemValueMax ::
  "'d dbl \<Rightarrow> nat \<Rightarrow> 'd item_value list \<Rightarrow> 'd item_value \<Rightarrow> 'd item_value" where
  "CalculateItemValueMax D dt valueList result =
     dt_switch dt
       (set_int32 D (CalculateMax signed_num getInt32 valueList) None result)
       (set_uint32 D (CalculateMax unsigned_num getUInt32 valueList) None result)
       (set_int64 D (CalculateMax signed_num v_int64 valueList) None result)
       (set_uint64 D (CalculateMax unsigned_num v_uint64 valueList) None result)
       (set_double D (CalculateMax (d_num D) v_double valueList) None result)
       (set_string D (Some []) False result)
       result"

section \<open>The contract of an integer type\<close>

text \<open>The values that are not placeholders, and one step of the scan for the best one.\<close>

definition live_values :: "('d item_value \<Rightarrow> 't) \<Rightarrow> 'd item_value list \<Rightarrow> 't list" where
  "live_values cast vs = map cast (filter (\<lambda>v. v_timestamp v \<noteq> 1) vs)"

lemma best_step_eq:
  "best_step better cast (f, b) v =
     (if v_timestamp v \<noteq> 1 \<and> (f \<or> better (cast v) b) then (False, cast v) else (f, b))"
  by (simp add: best_step_def)

lemma sum_count_live:
  "sum_count N cast vs =
     (foldl (c_add N) (c_of_int N 0) (live_values cast vs), length (live_values cast vs))"
proof -
  have "foldl (\<lambda>(sum, count) v. if v_timestamp v \<noteq> 1 then (c_add N sum (cast v), count + 1)
          else (sum, count)) (s, c) vs =
        (foldl (c_add N) s (live_values cast vs), c + length (live_values cast vs))" for s c
    by (induction vs arbitrary: s c) (simp_all add: live_values_def)
  then show ?thesis by (simp add: sum_count_def)
qed

text \<open>
  \<open>val\<close> reads an element of the C type as an integer between \<open>lo\<close> and \<open>hi\<close>; each operation
  agrees with the integers as long as its result is in the range.
\<close>

locale int_type =
  fixes N :: "'t cnum" and val :: "'t \<Rightarrow> int" and lo hi :: int
  assumes val_range: "lo \<le> val a" "val a \<le> hi"
    and zero_range: "lo \<le> 0" "0 < hi"
    and val_add: "lo \<le> val a + val b \<Longrightarrow> val a + val b \<le> hi \<Longrightarrow> val (c_add N a b) = val a + val b"
    and val_of_int: "lo \<le> n \<Longrightarrow> n \<le> hi \<Longrightarrow> val (c_of_int N n) = n"
    and val_lt: "c_lt N a b \<longleftrightarrow> val a < val b"
    and val_div: "0 < val b \<Longrightarrow> \<exists>q. c_div N a b = Inr q \<and> val q = cdiv (val a) (val b)"
    and div_zero: "c_div N a (c_of_int N 0) = Inl Div_zero"
begin

definition total :: "'t list \<Rightarrow> int" where
  "total xs = sum_list (map val xs)"

definition fits :: "'t list \<Rightarrow> bool" where
  "fits xs \<longleftrightarrow> (\<forall>k \<le> length xs. lo \<le> total (take k xs) \<and> total (take k xs) \<le> hi)"

lemma sum_fits: "fits xs \<Longrightarrow> val (foldl (c_add N) (c_of_int N 0) xs) = total xs"
proof (induction xs rule: rev_induct)
  case Nil
  show ?case using zero_range by (simp add: total_def val_of_int)
next
  case (snoc x xs)
  have "fits xs" unfolding fits_def
  proof (intro allI impI)
    fix k assume "k \<le> length xs"
    then show "lo \<le> total (take k xs) \<and> total (take k xs) \<le> hi"
      using snoc.prems unfolding fits_def by (auto dest!: spec [of _ k])
  qed
  then have "val (foldl (c_add N) (c_of_int N 0) xs) = total xs" by (rule snoc.IH)
  moreover have "lo \<le> total (xs @ [x]) \<and> total (xs @ [x]) \<le> hi"
    using snoc.prems unfolding fits_def by (auto dest!: spec [of _ "length (xs @ [x])"])
  ultimately show ?case by (simp add: total_def val_add)
qed

lemma average_exact:
  assumes "live_values cast vs \<noteq> []" "fits (live_values cast vs)" "int (length (live_values cast vs)) \<le> hi"
  shows "\<exists>q. CalculateAverage N cast vs = Inr q \<and>
     val q = cdiv (total (live_values cast vs)) (int (length (live_values cast vs)))"
proof -
  let ?n = "int (length (live_values cast vs))"
  have n: "val (c_of_int N ?n) = ?n" using assms(3) zero_range by (intro val_of_int) auto
  moreover have "0 < ?n" using assms(1) by simp
  ultimately show ?thesis
    using val_div [of "c_of_int N ?n" "foldl (c_add N) (c_of_int N 0) (live_values cast vs)"]
      sum_fits [OF assms(2)] by (simp add: CalculateAverage_def sum_count_live)
qed

lemma average_empty: "live_values cast vs = [] \<Longrightarrow> CalculateAverage N cast vs = Inr (c_of_int N 0)"
  by (simp add: CalculateAverage_def sum_count_live)

lemma deviation_empty: "live_values cast vs = [] \<Longrightarrow> CalculateMeanDeviation N cast vs = Inl Div_zero"
  by (simp add: CalculateMeanDeviation_def sum_count_live div_zero)

text \<open>The scan for the best value, for an order that \<open>val\<close> or its negation respects.\<close>

lemma best_scan:
  assumes key: "\<And>a b. better a b \<longleftrightarrow> key a < (key b :: int)"
  shows "(let (f, r) = foldl (best_step better cast) (False, b) vs in
     \<not> f \<and> r \<in> insert b (set (live_values cast vs)) \<and> key r \<le> key b \<and>
     (\<forall>y \<in> set (live_values cast vs). key r \<le> key y))"
proof (induction vs arbitrary: b)
  case Nil
  show ?case by (simp add: live_values_def)
next
  case (Cons v vs)
  show ?case
    using Cons.IH [of "cast v"] Cons.IH [of b]
    by (auto simp: best_step_eq live_values_def key not_less split: if_splits)
qed

lemma best_first:
  assumes key: "\<And>a b. better a b \<longleftrightarrow> key a < (key b :: int)" and "live_values cast vs \<noteq> []"
  shows "snd (foldl (best_step better cast) (True, z) vs) \<in> set (live_values cast vs) \<and>
     (\<forall>y \<in> set (live_values cast vs). key (snd (foldl (best_step better cast) (True, z) vs)) \<le> key y)"
  using assms(2)
proof (induction vs)
  case (Cons v vs)
  show ?case
  proof (cases "v_timestamp v = 1")
    case True
    with Cons show ?thesis by (simp add: best_step_eq live_values_def)
  next
    case False
    then show ?thesis
      using best_scan [of better key, OF key, of cast "cast v" vs]
      by (auto simp: best_step_eq live_values_def Let_def split: prod.splits)
  qed
qed (simp add: live_values_def)

lemma min_exact:
  assumes "live_values cast vs \<noteq> []"
  shows "CalculateMin N cast vs \<in> set (live_values cast vs)"
    "y \<in> set (live_values cast vs) \<Longrightarrow> val (CalculateMin N cast vs) \<le> val y"
  using best_first [of "c_lt N" val, OF val_lt assms, of "c_of_int N 0"]
  by (auto simp: CalculateMin_def)

lemma max_exact:
  assumes "live_values cast vs \<noteq> []"
  shows "CalculateMax N cast vs \<in> set (live_values cast vs)"
    "y \<in> set (live_values cast vs) \<Longrightarrow> val y \<le> val (CalculateMax N cast vs)"
  using best_first [of "\<lambda>a b. c_lt N b a" "\<lambda>a. - val a" cast vs "c_of_int N 0"] assms
  by (auto simp: CalculateMax_def val_lt)

end

section \<open>The four integer types\<close>

lemma sint_of_int_range:
  "- (2 ^ (LENGTH('a) - 1)) \<le> n \<Longrightarrow> n < 2 ^ (LENGTH('a) - 1) \<Longrightarrow> sint (word_of_int n :: 'a::len word) = n"
  by (simp add: sint_sbintrunc' signed_take_bit_int_eq_self)

lemma sint_add_range:
  assumes "- (2 ^ (LENGTH('a) - 1)) \<le> sint a + sint b" "sint a + sint b < 2 ^ (LENGTH('a) - 1)"
  shows "sint (a + b :: 'a::len word) = sint a + sint b"
  using assms by (simp add: sint_word_ariths signed_take_bit_int_eq_self)

lemma cdiv_range: "0 < b \<Longrightarrow> \<bar>cdiv a b\<bar> \<le> \<bar>a\<bar>"
  using zdiv_mono2 [of "\<bar>a\<bar>" 1 b] pos_imp_zdiv_nonneg_iff [of b "\<bar>a\<bar>"]
  by (auto simp: cdiv_def sgn_if)

lemma cdiv_sint:
  fixes a b :: "'a::len word"
  assumes "0 < sint b"
  shows "sint (word_of_int (cdiv (sint a) (sint b)) :: 'a word) = cdiv (sint a) (sint b)"
proof (rule sint_of_int_range)
  have r: "\<bar>cdiv (sint a) (sint b)\<bar> \<le> \<bar>sint a\<bar>" using assms by (rule cdiv_range)
  show "- (2 ^ (LENGTH('a) - 1)) \<le> cdiv (sint a) (sint b)"
    using r sint_ge [of a] sint_lt [of a] by linarith
  show "cdiv (sint a) (sint b) < 2 ^ (LENGTH('a) - 1)"
  proof (cases "sint a \<ge> 0")
    case True
    with r sint_lt [of a] show ?thesis by linarith
  next
    case False
    then have "cdiv (sint a) (sint b) \<le> 0"
      using assms by (simp add: cdiv_def pos_imp_zdiv_nonneg_iff)
    then show ?thesis by (rule le_less_trans) simp
  qed
qed

lemma signed_int_type:
  assumes "LENGTH('a) > 1"
  shows "int_type (signed_num :: 'a::len word cnum) sint
    (- (2 ^ (LENGTH('a) - 1))) (2 ^ (LENGTH('a) - 1) - 1)"
proof
  have le: "x \<le> y - 1 \<longleftrightarrow> x < y" for x y :: int by auto
  note le [simp]
  fix a b :: "'a word" and n :: int
  show "- (2 ^ (LENGTH('a) - 1)) \<le> sint a" "sint a \<le> 2 ^ (LENGTH('a) - 1) - 1"
    using sint_ge [of a] sint_lt [of a] by simp_all
  show "- (2 ^ (LENGTH('a) - 1)) \<le> (0::int)" "(0::int) < 2 ^ (LENGTH('a) - 1) - 1"
    using assms one_less_power [of "2::int" "LENGTH('a) - 1"] by simp_all
  show "c_lt signed_num a b \<longleftrightarrow> sint a < sint b" by (simp add: signed_num_def)
  show "c_div signed_num a (c_of_int signed_num 0) = Inl Div_zero" by (simp add: signed_num_def)
  show "sint (c_add signed_num a b) = sint a + sint b"
    if "- (2 ^ (LENGTH('a) - 1)) \<le> sint a + sint b" "sint a + sint b \<le> 2 ^ (LENGTH('a) - 1) - 1"
    using that by (simp add: signed_num_def sint_add_range)
  show "sint (c_of_int signed_num n :: 'a word) = n"
    if "- (2 ^ (LENGTH('a) - 1)) \<le> n" "n \<le> 2 ^ (LENGTH('a) - 1) - 1"
    using that by (simp add: signed_num_def sint_of_int_range)
  show "\<exists>q. c_div signed_num a b = Inr q \<and> sint q = cdiv (sint a) (sint b)" if "0 < sint b"
    using that cdiv_sint [of b a] by (auto simp: signed_num_def)
qed

lemma unsigned_int_type:
  assumes "LENGTH('a) > 1"
  shows "int_type (unsigned_num :: 'a::len word cnum) uint 0 (2 ^ LENGTH('a) - 1)"
proof
  have le: "x \<le> y - 1 \<longleftrightarrow> x < y" for x y :: int by auto
  note le [simp]
  fix a b :: "'a word" and n :: int
  show "0 \<le> uint a" "uint a \<le> 2 ^ LENGTH('a) - 1" by simp_all
  show "0 \<le> (0::int)" "(0::int) < 2 ^ LENGTH('a) - 1"
    using assms one_less_power [of "2::int" "LENGTH('a)"] by simp_all
  show "c_lt unsigned_num a b \<longleftrightarrow> uint a < uint b" by (simp add: unsigned_num_def word_less_def)
  show "c_div unsigned_num a (c_of_int unsigned_num 0) = Inl Div_zero"
    by (simp add: unsigned_num_def)
  show "uint (c_add unsigned_num a b) = uint a + uint b" if "uint a + uint b \<le> 2 ^ LENGTH('a) - 1"
    using that by (simp add: unsigned_num_def uint_plus_if')
  show "uint (c_of_int unsigned_num n :: 'a word) = n" if "0 \<le> n" "n \<le> 2 ^ LENGTH('a) - 1"
    using that by (simp add: unsigned_num_def uint_word_of_int)
  show "\<exists>q. c_div unsigned_num a b = Inr q \<and> uint q = cdiv (uint a) (uint b)" if "0 < uint b"
    using that by (auto simp: unsigned_num_def uint_div cdiv_nonneg)
qed

interpretation i32: int_type "signed_num :: u32 cnum" sint "- (2 ^ 31)" "2 ^ 31 - 1"
  using signed_int_type [where 'a = 32] by simp

interpretation i64: int_type "signed_num :: u64 cnum" sint "- (2 ^ 63)" "2 ^ 63 - 1"
  using signed_int_type [where 'a = 64] by simp

interpretation u32: int_type "unsigned_num :: u32 cnum" uint 0 "2 ^ 32 - 1"
  using unsigned_int_type [where 'a = 32] by simp

interpretation u64: int_type "unsigned_num :: u64 cnum" uint 0 "2 ^ 64 - 1"
  using unsigned_int_type [where 'a = 64] by simp

section \<open>Values seen as integers\<close>

text \<open>The integer a value stands for under an integer data type, and the range of that type.\<close>

definition int_view :: "nat \<Rightarrow> 'd item_value \<Rightarrow> int" where
  "int_view dt v = dt_switch dt (sint (getInt32 v)) (uint (getUInt32 v))
     (sint (v_int64 v)) (uint (v_uint64 v)) 0 0 0"

definition int_lo :: "nat \<Rightarrow> int" where
  "int_lo dt = dt_switch dt (- (2 ^ 31)) 0 (- (2 ^ 63)) 0 0 0 0"

definition int_hi :: "nat \<Rightarrow> int" where
  "int_hi dt = dt_switch dt (2 ^ 31 - 1) (2 ^ 32 - 1) (2 ^ 63 - 1) (2 ^ 64 - 1) 0 0 0"

definition integer_type :: "nat \<Rightarrow> bool" where
  "integer_type dt \<longleftrightarrow>
     dt \<in> {DCI_DT_INT, DCI_DT_UINT, DCI_DT_INT64, DCI_DT_UINT64, DCI_DT_COUNTER32, DCI_DT_COUNTER64}"

definition live :: "'d item_value list \<Rightarrow> 'd item_value list" where
  "live vs = filter (\<lambda>v. v_timestamp v \<noteq> 1) vs"

definition sums_fit :: "nat \<Rightarrow> 'd item_value list \<Rightarrow> bool" where
  "sums_fit dt vs \<longleftrightarrow> list_all (\<lambda>k. int_lo dt \<le> sum_list (map (int_view dt) (take k (live vs)))
     \<and> sum_list (map (int_view dt) (take k (live vs))) \<le> int_hi dt) [0..<Suc (length (live vs))]"

lemma integer_type_cases:
  assumes "integer_type dt"
  obtains (i32) "dt = DCI_DT_INT" | (u32) "dt = DCI_DT_UINT \<or> dt = DCI_DT_COUNTER32"
    | (i64) "dt = DCI_DT_INT64" | (u64) "dt = DCI_DT_UINT64 \<or> dt = DCI_DT_COUNTER64"
  using assms by (auto simp: integer_type_def)

lemma ucast_scast_u32 [simp]: "ucast (scast (x :: u32) :: u64) = x"
  by (rule bit_word_eqI) (auto simp: bit_simps)

lemma ucast_ucast_u32 [simp]: "ucast (ucast (x :: u32) :: u64) = x"
  by (rule bit_word_eqI) (auto simp: bit_simps)

lemma set_view [simp]:
  "getInt32 (set_int32 D x s v) = x" "getUInt32 (set_uint32 D y s v) = y"
  "v_int64 (set_int64 D z s v) = z" "v_uint64 (set_uint64 D w s v) = w"
  by (simp_all add: getInt32_def getUInt32_def set_int32_def set_uint32_def set_int64_def
      set_uint64_def)

lemma cdiv_between:
  assumes "0 < n" "n * m \<le> t" "t \<le> n * M"
  shows "m \<le> cdiv t n" "cdiv t n \<le> M"
proof -
  have "m \<le> cdiv t n \<and> cdiv t n \<le> M"
  proof (cases "t \<ge> 0")
    case True
    have "t div n \<le> M" using assms zdiv_mono1 [of t "n * M" n] by simp
    moreover have "m \<le> t div n" using assms zdiv_mono1 [of "n * m" t n] by simp
    ultimately show ?thesis using True assms by (simp add: cdiv_nonneg)
  next
    case False
    have "cdiv t n = - ((- t) div n)" using False assms by (simp add: cdiv_def)
    moreover have "(- t) div n \<le> - m" using assms zdiv_mono1 [of "- t" "n * - m" n]
      nonzero_mult_div_cancel_left [of n "- m"] by simp
    moreover have "- M \<le> (- t) div n" using assms zdiv_mono1 [of "n * - M" "- t" n]
      nonzero_mult_div_cancel_left [of n "- M"] by simp
    ultimately show ?thesis by simp
  qed
  then show "m \<le> cdiv t n" "cdiv t n \<le> M" by auto
qed

lemma sum_list_between:
  assumes "\<And>x. x \<in> set xs \<Longrightarrow> m \<le> x \<and> x \<le> (M :: int)"
  shows "int (length xs) * m \<le> sum_list xs \<and> sum_list xs \<le> int (length xs) * M"
  using assms by (induction xs) (auto simp: algebra_simps, force+)

lemma live_values_live: "live_values cast vs = map cast (live vs)"
  by (simp add: live_values_def live_def)

context int_type
begin

lemma average_bounds:
  assumes "live_values cast vs \<noteq> []" "fits (live_values cast vs)" "int (length (live_values cast vs)) \<le> hi"
  shows "\<exists>q. CalculateAverage N cast vs = Inr q \<and>
     val q = cdiv (total (live_values cast vs)) (int (length (live_values cast vs))) \<and>
     val (CalculateMin N cast vs) \<le> val q \<and> val q \<le> val (CalculateMax N cast vs) \<and>
     CalculateMin N cast vs \<in> set (live_values cast vs) \<and> CalculateMax N cast vs \<in> set (live_values cast vs)"
proof -
  let ?xs = "live_values cast vs"
  obtain q where q: "CalculateAverage N cast vs = Inr q" "val q = cdiv (total ?xs) (int (length ?xs))"
    using average_exact [OF assms] by blast
  have "int (length (map val ?xs)) * val (CalculateMin N cast vs) \<le> total ?xs \<and>
      total ?xs \<le> int (length (map val ?xs)) * val (CalculateMax N cast vs)"
    unfolding total_def using min_exact(2) [OF assms(1)] max_exact(2) [OF assms(1)]
    by (intro sum_list_between) auto
  then show ?thesis
    using q assms(1) cdiv_between [of "int (length ?xs)" "val (CalculateMin N cast vs)" "total ?xs"
        "val (CalculateMax N cast vs)"] min_exact(1) [OF assms(1)] max_exact(1) [OF assms(1)]
    by (auto simp: length_greater_0_conv)
qed

lemma aggregates_view:
  assumes "live vs \<noteq> []" "int (length (live vs)) \<le> hi"
    and "\<forall>k \<le> length (live vs). lo \<le> sum_list (map (\<lambda>v. val (cast v)) (take k (live vs)))
       \<and> sum_list (map (\<lambda>v. val (cast v)) (take k (live vs))) \<le> hi"
  shows "\<exists>q. CalculateAverage N cast vs = Inr q \<and>
     val q = cdiv (sum_list (map (\<lambda>v. val (cast v)) (live vs))) (int (length (live vs))) \<and>
     val (CalculateMin N cast vs) \<le> val q \<and> val q \<le> val (CalculateMax N cast vs) \<and>
     val (CalculateMin N cast vs) \<in> (\<lambda>v. val (cast v)) ` set (live vs) \<and>
     val (CalculateMax N cast vs) \<in> (\<lambda>v. val (cast v)) ` set (live vs)"
proof -
  have "fits (live_values cast vs)"
    using assms(3) by (simp add: fits_def total_def live_values_live take_map comp_def)
  then show ?thesis
    using average_bounds [of cast vs] assms(1,2)
    by (auto simp: live_values_live total_def comp_def)
qed

end

lemma sums_fit_iff: "sums_fit dt vs \<longleftrightarrow> (\<forall>k \<le> length (live vs).
    int_lo dt \<le> sum_list (map (int_view dt) (take k (live vs)))
     \<and> sum_list (map (int_view dt) (take k (live vs))) \<le> int_hi dt)"
  by (auto simp: sums_fit_def list_all_iff less_Suc_eq_le simp del: upt_Suc)

lemmas int_type_dispatch = dt_switch_def int_view_def [abs_def] int_lo_def int_hi_def
  CalculateItemValueAverage_def CalculateItemValueMin_def CalculateItemValueMax_def
  CalculateItemValueMeanDeviation_def

text \<open>
  C29. For each integer data type, when the partial sums stay in the range of the type, the
  average the code computes is the exact quotient of the sum by the number of values that
  are not placeholders, truncated towards zero; it lies between the minimum and the maximum
  the code computes, and these are attained by a value of the list.
\<close>

theorem aggregates_exact:
  assumes "integer_type dt" "live vs \<noteq> []" "sums_fit dt vs" "int (length (live vs)) \<le> int_hi dt"
  shows "\<exists>r. CalculateItemValueAverage D dt vs res = Inr r \<and>
    int_view dt r = cdiv (sum_list (map (int_view dt) (live vs))) (int (length (live vs))) \<and>
    int_view dt (CalculateItemValueMin D dt vs res) \<le> int_view dt r \<and>
    int_view dt r \<le> int_view dt (CalculateItemValueMax D dt vs res) \<and>
    int_view dt (CalculateItemValueMin D dt vs res) \<in> int_view dt ` set (live vs) \<and>
    int_view dt (CalculateItemValueMax D dt vs res) \<in> int_view dt ` set (live vs)"
  using assms(1)
proof (cases rule: integer_type_cases)
  case i32
  from assms i32.aggregates_view [of vs getInt32] show ?thesis
    by (auto simp: i32 sums_fit_iff int_type_dispatch)
next
  case u32
  from assms u32 u32.aggregates_view [of vs getUInt32] show ?thesis
    by (elim disjE) (auto simp: sums_fit_iff int_type_dispatch)
next
  case i64
  from assms i64.aggregates_view [of vs v_int64] show ?thesis
    by (auto simp: i64 sums_fit_iff int_type_dispatch)
next
  case u64
  from assms u64 u64.aggregates_view [of vs v_uint64] show ?thesis
    by (elim disjE) (auto simp: sums_fit_iff int_type_dispatch)
qed

text \<open>A double type with few values, for concrete runs: integers with truncating division.\<close>

definition whole_dbl :: "int dbl" where
  "whole_dbl = \<lparr> d_num = \<lparr> c_add = (+), c_sub = (-), c_div = (\<lambda>a b. Inr (cdiv a b)), c_lt = (<),
       c_abs = abs, c_of_int = (\<lambda>n. n) \<rparr>,
     d_le = (\<le>), d_eq = (=), d_mul = (*), d_eps = 1, d_to_i64 = word_of_int, d_to_u64 = word_of_int,
     d_print = (\<lambda>x. SignedIntegerToString x 10), d_wcstod = (\<lambda>s. (sint (wcstoll s), [])) \<rparr>"

definition int_sample :: "int \<Rightarrow> int \<Rightarrow> int item_value" where
  "int_sample t x = set_int64 whole_dbl (word_of_int x) None (new_value whole_dbl t)"

lemma int_sample_simps [simp]:
  "v_timestamp (int_sample t x) = t" "v_int64 (int_sample t x) = word_of_int x"
  "v_uint64 (int_sample t x) = word_of_int x"
  by (simp_all add: int_sample_def set_int64_def new_value_def)

theorem aggregates_exact_witness:
  "\<exists>r. CalculateItemValueAverage whole_dbl DCI_DT_INT64 [int_sample 5 7, int_sample 1 0, int_sample 9 4]
         (new_value whole_dbl 0) = Inr r \<and> int_view DCI_DT_INT64 r = 5"
proof -
  let ?vs = "[int_sample 5 7, int_sample 1 0, int_sample 9 4]"
  have l: "live ?vs = [int_sample 5 7, int_sample 9 4]" by (simp add: live_def)
  have "integer_type DCI_DT_INT64" "live ?vs \<noteq> []" "sums_fit DCI_DT_INT64 ?vs"
    "int (length (live ?vs)) \<le> int_hi DCI_DT_INT64"
    by (simp_all add: l integer_type_def sums_fit_def int_type_dispatch)
  from aggregates_exact [OF this, of whole_dbl "new_value whole_dbl 0"] show ?thesis
    by (auto simp: l int_view_def dt_switch_def cdiv_def)
qed

section \<open>Mean deviation\<close>

lemma foldl_live:
  "foldl (\<lambda>s v. if v_timestamp v \<noteq> 1 then f s v else s) s vs = foldl f s (live vs)"
  by (induction vs arbitrary: s) (simp_all add: live_def)

lemma foldl_add_word: "foldl (\<lambda>s v. s + f v) s vs = s + (\<Sum>v\<leftarrow>vs. f v)" for s :: "'a::len word"
  by (induction vs arbitrary: s) (simp_all add: algebra_simps)

lemma sum_list_sub_word:
  "(\<Sum>v\<leftarrow>vs. f v - m) = (\<Sum>v\<leftarrow>vs. f v) - of_nat (length vs) * (m :: 'a::len word)"
  by (induction vs) (simp_all add: algebra_simps)

text \<open>
  Without an absolute value the deviations add up to the remainder of the sum by the number
  of values, which is less than the divisor.
\<close>

lemma unsigned_deviation:
  fixes cast :: "'d item_value \<Rightarrow> 'a::len word"
  assumes "live vs \<noteq> []" "length (live vs) < 2 ^ LENGTH('a)"
  shows "CalculateMeanDeviation unsigned_num cast vs = Inr 0"
proof -
  let ?n = "of_nat (length (live vs)) :: 'a word" and ?s = "\<Sum>v\<leftarrow>live vs. cast v"
  have n: "?n \<noteq> 0" "unat ?n = length (live vs)"
    using assms by (simp_all add: unat_of_nat word_unat_eq_iff take_bit_nat_eq_self)
  have sc: "sum_count unsigned_num cast vs = (?s, length (live vs))"
    using foldl_add_word [of "\<lambda>x. x" 0 "map cast (live vs)"]
    by (simp add: sum_count_live) (simp add: unsigned_num_def live_values_live)
  have "?s - ?n * (?s div ?n) = ?s mod ?n" by (simp add: minus_mult_div_eq_mod)
  moreover have "(?s mod ?n) div ?n = 0" using n by (simp add: div_eq_0_iff word_mod_less_divisor)
  ultimately show ?thesis
    unfolding CalculateMeanDeviation_def sc
    using n by (simp add: unsigned_num_def foldl_live foldl_add_word sum_list_sub_word)
qed

text \<open>
  The mean deviation of stored values: when every value is a placeholder the computation
  divides by zero for each integer data type, where the average is defined as zero; and for
  the unsigned and counter types the result is zero whatever the values are, because the
  absolute value of a wrapped difference is not taken.
\<close>

theorem mean_deviation_faults:
  "(integer_type dt \<and> live vs = [] \<longrightarrow>
      CalculateItemValueMeanDeviation D dt vs res = Inl Div_zero \<and>
      (\<exists>r. CalculateItemValueAverage D dt vs res = Inr r \<and> int_view dt r = 0)) \<and>
   (dt \<in> {DCI_DT_UINT, DCI_DT_UINT64, DCI_DT_COUNTER32, DCI_DT_COUNTER64} \<and>
      live vs \<noteq> [] \<and> length (live vs) < 2 ^ 32 \<longrightarrow>
      (\<exists>r. CalculateItemValueMeanDeviation D dt vs res = Inr r \<and> int_view dt r = 0))"
proof (intro conjI impI; elim conjE)
  assume "integer_type dt" and e: "live vs = []"
  then show "CalculateItemValueMeanDeviation D dt vs res = Inl Div_zero"
    by (auto simp: integer_type_def int_type_dispatch live_values_live i32.deviation_empty
        u32.deviation_empty i64.deviation_empty u64.deviation_empty)
  show "\<exists>r. CalculateItemValueAverage D dt vs res = Inr r \<and> int_view dt r = 0"
    using \<open>integer_type dt\<close> e
    by (auto simp: integer_type_def int_type_dispatch live_values_live i32.average_empty
        u32.average_empty i64.average_empty u64.average_empty, auto simp: signed_num_def unsigned_num_def)
next
  assume dt: "dt \<in> {DCI_DT_UINT, DCI_DT_UINT64, DCI_DT_COUNTER32, DCI_DT_COUNTER64}"
    and l: "live vs \<noteq> []" "length (live vs) < 2 ^ 32"
  have "CalculateMeanDeviation unsigned_num getUInt32 vs = Inr 0"
    "CalculateMeanDeviation unsigned_num v_uint64 vs = Inr 0"
    using l by (auto intro!: unsigned_deviation)
  with dt show "\<exists>r. CalculateItemValueMeanDeviation D dt vs res = Inr r \<and> int_view dt r = 0"
    by (auto simp: int_type_dispatch)
qed

theorem mean_deviation_faults_witness:
  "CalculateItemValueMeanDeviation whole_dbl DCI_DT_INT [int_sample 1 0] (new_value whole_dbl 0) = Inl Div_zero
   \<and> (\<exists>r. CalculateItemValueMeanDeviation whole_dbl DCI_DT_UINT [int_sample 5 10, int_sample 6 30]
        (new_value whole_dbl 0) = Inr r \<and> int_view DCI_DT_UINT r = 0)"
  using mean_deviation_faults [of DCI_DT_INT "[int_sample 1 0]" whole_dbl "new_value whole_dbl 0"]
    mean_deviation_faults [of DCI_DT_UINT "[int_sample 5 10, int_sample 6 30]" whole_dbl "new_value whole_dbl 0"]
  by (simp add: integer_type_def live_def)

section \<open>Differences and text\<close>

definition diff_fits :: "nat \<Rightarrow> int \<Rightarrow> bool" where
  "diff_fits dt d \<longleftrightarrow> (if dt = DCI_DT_INT then - (2 ^ 31) \<le> d \<and> d < 2 ^ 31
     else - (2 ^ 63) \<le> d \<and> d < 2 ^ 63)"

lemma sint_int_of_word: "sint (word_of_int (uint a - uint b) :: u64) = uint a - uint b"
  if "- (2 ^ 63) \<le> uint a - uint b" "uint a - uint b < 2 ^ 63"
  using that sint_of_int_range [where 'a = 64, of "uint a - uint b"] by simp

lemma diff_uint64_word: "diff_uint64 a b = word_of_int (uint a - uint b)"
  by (simp add: diff_uint64_def)

lemma diff_uint32_word: "diff_uint32 a b = word_of_int (uint a - uint b)"
proof (cases "b \<le> a")
  case True
  then have "uint (a - b) = uint a - uint b" by (simp add: uint_minus_simple_alt)
  with True show ?thesis by (simp only: diff_uint32_def ucast_eq if_True)
next
  case False
  then have "b - a \<le> b" "a \<le> b" by (simp_all add: word_sub_le)
  then have "uint (b - a) = uint b - uint a" by (simp add: uint_minus_simple_alt)
  with False show ?thesis
    by (simp only: diff_uint32_def ucast_eq if_False of_int_minus [symmetric] minus_diff_eq)
qed

lemmas diff_word = diff_uint64_word diff_uint32_word

lemma sint_sub_range:
  assumes "- (2 ^ (LENGTH('a) - 1)) \<le> sint a - sint b" "sint a - sint b < 2 ^ (LENGTH('a) - 1)"
  shows "sint (a - b :: 'a::len word) = sint a - sint b"
  using assms by (simp add: sint_word_ariths signed_take_bit_int_eq_self)

lemma clamp_in_range: "a \<le> v \<Longrightarrow> v \<le> b \<Longrightarrow> max a (min b v) = v" for v :: int
  by simp

lemma diff_of_u32: "0 \<le> a \<Longrightarrow> a < 2 ^ 32 \<Longrightarrow> 0 \<le> b \<Longrightarrow> b < 2 ^ 32 \<Longrightarrow>
    - (2 ^ 63) \<le> a - b \<and> a - b < 2 ^ 63" for a b :: int
  by simp

lemma diff32_range: "- (2 ^ 63) \<le> uint (x :: u32) - uint (y :: u32)" "uint x - uint y < 2 ^ 63"
  using diff_of_u32 [of "uint x" "uint y"] uint_lt2p [of x] uint_lt2p [of y] by auto

lemma sint_in_64: "- (2 ^ 63) \<le> sint (x :: u32)" "sint x < 2 ^ 63"
  using i32.val_range [of x] by simp_all

lemma sint_scast_u64: "sint (scast (x :: u32) :: u64) = sint x"
  unfolding scast_eq using sint_in_64 [of x] by (intro sint_of_int_range [where 'a = 64]) simp_all

lemma value_diff:
  assumes "integer_type dt" "diff_fits dt (int_view dt cur - int_view dt prev)"
  shows "sint (v_int64 (CalculateItemValueDiff D dt cur prev r)) = int_view dt cur - int_view dt prev \<and>
    v_string (CalculateItemValueDiff D dt cur prev r) =
      SignedIntegerToString (int_view dt cur - int_view dt prev) 10"
  using assms(1)
proof (cases rule: integer_type_cases)
  case i32
  then have "sint (getInt32 cur - getInt32 prev) = sint (getInt32 cur) - sint (getInt32 prev)"
    using assms(2) by (intro sint_sub_range) (simp_all add: diff_fits_def int_view_def dt_switch_def)
  with i32 show ?thesis
    by (simp add: CalculateItemValueDiff_def dt_switch_def int_view_def set_int32_def text_or_def
        sint_scast_u64)
next
  case u32
  have "sint (diff_uint32 (getUInt32 cur) (getUInt32 prev)) = uint (getUInt32 cur) - uint (getUInt32 prev)"
    unfolding diff_word using diff32_range [of "getUInt32 cur" "getUInt32 prev"]
    by (intro sint_of_int_range [where 'a = 64]) simp_all
  with u32 show ?thesis
    by (auto simp: CalculateItemValueDiff_def dt_switch_def int_view_def set_int64_def text_or_def)
next
  case i64
  then have "sint (v_int64 cur - v_int64 prev) = sint (v_int64 cur) - sint (v_int64 prev)"
    using assms(2) by (intro sint_sub_range) (simp_all add: diff_fits_def int_view_def dt_switch_def)
  with i64 show ?thesis
    by (simp add: CalculateItemValueDiff_def dt_switch_def int_view_def set_int64_def text_or_def)
next
  case u64
  have "sint (diff_uint64 (v_uint64 cur) (v_uint64 prev)) = uint (v_uint64 cur) - uint (v_uint64 prev)"
    unfolding diff_word using assms(2) u64
    by (intro sint_of_int_range [where 'a = 64]) (auto simp: diff_fits_def int_view_def dt_switch_def)
  with u64 show ?thesis
    by (auto simp: CalculateItemValueDiff_def dt_switch_def int_view_def set_int64_def text_or_def)
qed

lemma value_diff_int64:
  assumes "integer_type dt" "diff_fits dt (int_view dt cur - int_view dt prev)"
  shows "sint (v_int64 (CalculateItemValueDiff D dt cur prev r)) = int_view dt cur - int_view dt prev"
  using value_diff [OF assms] by simp

text \<open>
  C30. The difference of two values: for each integer data type, whenever the mathematical
  difference fits the signed result, the difference the code stores is exact, a decrease of
  an unsigned value or a counter included, and its text is the decimal numeral.
\<close>

theorem value_diff_exact:
  assumes "integer_type dt" "diff_fits dt (int_view dt cur - int_view dt prev)"
  shows "sint (v_int64 (CalculateItemValueDiff D dt cur prev r)) = int_view dt cur - int_view dt prev \<and>
    v_string (CalculateItemValueDiff D dt cur prev r) =
      SignedIntegerToString (int_view dt cur - int_view dt prev) 10"
  using assms by (rule value_diff)

theorem value_diff_exact_witness:
  "sint (v_int64 (CalculateItemValueDiff whole_dbl DCI_DT_COUNTER32 (int_sample 9 3) (int_sample 5 10)
     (new_value whole_dbl 0))) = - 7"
  using value_diff_exact [of DCI_DT_COUNTER32 "int_sample 9 3" "int_sample 5 10" whole_dbl
      "new_value whole_dbl 0"]
  by (simp add: integer_type_def diff_fits_def int_view_def dt_switch_def getUInt32_def)

lemma wcstoull_signed: "wcstoull (SignedIntegerToString (sint (w :: u64)) 10) = w"
  using sint_ge [of w] sint_lt [of w]
  by (auto simp: wcstoull_def scan_signed Let_def)

lemma wcstoll_unsigned:
  "wcstoll (UnsignedIntegerToString (uint (w :: u64)) 10) =
     (if uint w < 2 ^ 63 then w else word_of_int (2 ^ 63 - 1))"
proof (cases "uint w < 2 ^ 63")
  case True
  then have "max (- (2 ^ 63)) (min (2 ^ 63 - 1) (uint w)) = uint w"
    by (intro clamp_in_range) (auto intro: order_trans [of _ 0])
  then show ?thesis
    by (simp only: wcstoll_def scan_unsigned [OF uint_ge_0] Let_def prod.case if_False True if_True
        word_of_int_uint)
next
  case False
  then have "max (- (2 ^ 63)) (min (2 ^ 63 - 1) (uint w)) = 2 ^ 63 - 1" by simp
  then show ?thesis
    by (simp only: wcstoll_def scan_unsigned [OF uint_ge_0] Let_def prod.case if_False False)
qed

lemma unsigned_length: "length (UnsignedIntegerToString (uint (w :: u64)) 10) \<le> 65"
proof -
  have "length (digits_rev (uint w div 10) 10) \<le> 64"
    using uint_lt2p [of w] by (intro digits_rev_length) (auto simp: pos_imp_zdiv_nonneg_iff)
  then show ?thesis by (simp add: UnsignedIntegerToString_def)
qed

lemma set_text:
  "v_string (set_int64 D x None v) = SignedIntegerToString (sint x) 10"
  "v_string (set_uint64 D x None v) = UnsignedIntegerToString (uint x) 10"
  by (simp_all add: set_int64_def set_uint64_def text_or_def)

lemma set_uint64_int64: "v_int64 (set_uint64 D x s v) = x"
  by (simp add: set_uint64_def)

lemma set_string_ints:
  assumes "length t \<le> 65"
  shows "v_int64 (set_string D (Some t) False u) = wcstoll t"
    "v_uint64 (set_string D (Some t) False u) = wcstoull t"
  using assms by (simp_all add: set_string_def parseStringValue_def wcslcpy_def split_beta)

text \<open>
  C36. A value written to the database as text and read back: a signed 64-bit value keeps
  both of its integer forms; an unsigned one keeps its unsigned form, and its signed form
  only below \<open>2 ^ 63\<close>, beyond which the signed form saturates instead of wrapping.
\<close>

theorem value_text_round_trip:
  "v_int64 (set_string D (Some (v_string (set_int64 D x None v))) False u) = x \<and>
   v_uint64 (set_string D (Some (v_string (set_int64 D x None v))) False u) = x \<and>
   v_uint64 (set_string D (Some (v_string (set_uint64 D x None v))) False u) = x \<and>
   v_int64 (set_string D (Some (v_string (set_uint64 D x None v))) False u) =
     (if uint x < 2 ^ 63 then v_int64 (set_uint64 D x None v) else word_of_int (2 ^ 63 - 1))"
  by (simp only: set_text set_string_ints [OF signed_length] set_string_ints [OF unsigned_length]
      wcstoll_signed wcstoull_signed wcstoull_unsigned wcstoll_unsigned set_uint64_int64 simp_thms)

end
