(* ===== verification/Nx_Threshold.thy ===== *)
theory Nx_Threshold
  imports Nx_Value Nx_Match
begin

text \<open>
  Thresholds: \<^verbatim>\<open>class Threshold\<close> (\<^verbatim>\<open>src/src/server/include/nms_dcoll.h\<close>) and
  \<^verbatim>\<open>src/src/server/core/dcithreshold.cpp\<close>. The record \<open>threshold\<close> has the members of the
  class; \<open>check\<close> and \<open>checkError\<close> return the result, the new state and the requests they
  queue. What a check takes from outside the class is the record \<open>dc_env\<close>: floating point,
  the clocks, macro expansion, the anomaly flag and the compiled scripts, whose type is the
  variable \<open>'s\<close>. Match counters are integers; they stay below \<open>2 ^ 31\<close> unless a threshold
  matches on \<open>2 ^ 31\<close> consecutive polls.
\<close>

section \<open>State\<close>

datatype ThresholdCheckResult = ACTIVATED | DEACTIVATED | ALREADY_ACTIVE | ALREADY_INACTIVE | VALUE_CHANGED

abbreviation (input) "F_LAST \<equiv> (0 :: nat)"
abbreviation (input) "F_AVERAGE \<equiv> (1 :: nat)"
abbreviation (input) "F_MEAN_DEVIATION \<equiv> (2 :: nat)"
abbreviation (input) "F_DIFF \<equiv> (3 :: nat)"
abbreviation (input) "F_ERROR \<equiv> (4 :: nat)"
abbreviation (input) "F_SUM \<equiv> (5 :: nat)"
abbreviation (input) "F_SCRIPT \<equiv> (6 :: nat)"
abbreviation (input) "F_ABS_DEVIATION \<equiv> (7 :: nat)"
abbreviation (input) "F_ANOMALY \<equiv> (8 :: nat)"

abbreviation (input) "OP_LE \<equiv> (0 :: nat)"
abbreviation (input) "OP_LE_EQ \<equiv> (1 :: nat)"
abbreviation (input) "OP_EQ \<equiv> (2 :: nat)"
abbreviation (input) "OP_GT_EQ \<equiv> (3 :: nat)"
abbreviation (input) "OP_GT \<equiv> (4 :: nat)"
abbreviation (input) "OP_NE \<equiv> (5 :: nat)"
abbreviation (input) "OP_LIKE \<equiv> (6 :: nat)"
abbreviation (input) "OP_NOTLIKE \<equiv> (7 :: nat)"
abbreviation (input) "OP_ILIKE \<equiv> (8 :: nat)"
abbreviation (input) "OP_INOTLIKE \<equiv> (9 :: nat)"

abbreviation (input) "EVENT_THRESHOLD_REACHED \<equiv> (17 :: u32)"
abbreviation (input) "EVENT_THRESHOLD_REARMED \<equiv> (18 :: u32)"
abbreviation (input) "SEVERITY_NORMAL \<equiv> (0 :: nat)"

record ('d, 's) threshold =
  t_id :: u32
  t_itemId :: u32
  t_targetId :: u32
  t_eventCode :: u32
  t_rearmEventCode :: u32
  t_value :: "'d item_value"
  t_expandValue :: bool
  t_lastCheckValue :: "'d item_value"
  t_function :: nat
  t_operation :: nat
  t_dataType :: nat
  t_currentSeverity :: nat
  t_sampleCount :: int
  t_deactivationSampleCount :: int
  t_scriptSource :: "wstr option"
  t_script :: "'s option"
  t_lastScriptErrorReport :: int
  t_isReached :: bool
  t_wasReachedBeforeMaint :: bool
  t_disabled :: bool
  t_regenerateOnValueChange :: bool
  t_numMatches :: int
  t_numClearMatches :: int
  t_repeatInterval :: int
  t_lastEventTimestamp :: int
  t_lastEventMessage :: "wstr option"
  t_activationSequence :: u64

text \<open>
  What running a threshold script can give: no virtual machine, a failed run, a hash map with
  its optional members (a member's text may be a null pointer), or another value.
\<close>

datatype script_outcome =
    No_vm
  | Run_failed
  | Result_map "bool option" "wstr option option" "wstr option option"
  | Result_value bool

record ('d, 's) dc_env =
  e_dbl :: "'d dbl"
  e_towupper :: "wchar \<Rightarrow> wchar"
  e_now_ms :: int
  e_time :: int
  e_err_interval :: int
  e_expand :: "wstr \<Rightarrow> wstr"
  e_anomaly :: bool
  e_compile :: "wstr \<Rightarrow> 's option"
  e_script_empty :: "'s \<Rightarrow> bool"
  e_run_script :: "'s \<Rightarrow> wstr \<Rightarrow> wstr \<Rightarrow> script_outcome"

datatype t_effect = Sql_state u32 bool | Script_error u32

section \<open>Construction\<close>

definition new_threshold :: "('d, 's) dc_env \<Rightarrow> u32 \<Rightarrow> u32 \<Rightarrow> nat \<Rightarrow> ('d, 's) threshold" where
  "new_threshold E itemId ownerId dataType = \<lparr>
     t_id = 0, t_itemId = itemId, t_targetId = ownerId,
     t_eventCode = EVENT_THRESHOLD_REACHED, t_rearmEventCode = EVENT_THRESHOLD_REARMED,
     t_value = new_value (e_dbl E) (e_now_ms E), t_expandValue = False,
     t_lastCheckValue = new_value (e_dbl E) (e_now_ms E),
     t_function = F_LAST, t_operation = OP_EQ, t_dataType = dataType,
     t_currentSeverity = SEVERITY_NORMAL, t_sampleCount = 1, t_deactivationSampleCount = 1,
     t_scriptSource = None, t_script = None, t_lastScriptErrorReport = 0,
     t_isReached = False, t_wasReachedBeforeMaint = False, t_disabled = False,
     t_regenerateOnValueChange = False, t_numMatches = 0, t_numClearMatches = 0,
     t_repeatInterval = - 1, t_lastEventTimestamp = 0, t_lastEventMessage = None,
     t_activationSequence = 0 \<rparr>"

definition TrimW :: "wstr \<Rightarrow> wstr" where
  "TrimW s = rev (dropWhile is_space (rev (dropWhile is_space s)))"

definition NumCharsW :: "wstr \<Rightarrow> wchar \<Rightarrow> nat" where
  "NumCharsW s c = length (filter (\<lambda>x. x = c) s)"

definition setScript :: "('d, 's) dc_env \<Rightarrow> wstr option \<Rightarrow> ('d, 's) threshold \<Rightarrow> ('d, 's) threshold" where
  "setScript E script th =
     (case script of
        Some s \<Rightarrow>
          (let src = TrimW s
           in th\<lparr> t_scriptSource := Some src,
                 t_script := (if src \<noteq> [] then e_compile E src else None),
                 t_lastScriptErrorReport := 0 \<rparr>)
      | None \<Rightarrow> th\<lparr> t_scriptSource := None, t_script := None, t_lastScriptErrorReport := 0 \<rparr>)"

text \<open>
  The copy constructor; \<open>newId\<close> is what \<^verbatim>\<open>CreateUniqueId\<close> returns. The initialiser
  list names \<^verbatim>\<open>m_value\<close> only, so \<^verbatim>\<open>m_lastCheckValue\<close> is default constructed.
\<close>

definition copy_threshold ::
  "('d, 's) dc_env \<Rightarrow> u32 \<Rightarrow> ('d, 's) threshold \<Rightarrow> bool \<Rightarrow> ('d, 's) threshold" where
  "copy_threshold E newId src shadowCopy =
     (setScript E (t_scriptSource src) (src\<lparr>
        t_id := (if shadowCopy then t_id src else newId),
        t_lastCheckValue := new_value (e_dbl E) (e_now_ms E) \<rparr>))\<lparr>
        t_lastScriptErrorReport := (if shadowCopy then t_lastScriptErrorReport src else 0),
        t_isReached := (if shadowCopy then t_isReached src else False),
        t_wasReachedBeforeMaint := (if shadowCopy then t_wasReachedBeforeMaint src else False),
        t_currentSeverity := (if shadowCopy then t_currentSeverity src else SEVERITY_NORMAL),
        t_lastEventTimestamp := (if shadowCopy then t_lastEventTimestamp src else 0),
        t_lastEventMessage := None,
        t_numMatches := (if shadowCopy then t_numMatches src else 0),
        t_numClearMatches := (if shadowCopy then t_numClearMatches src else 0),
        t_activationSequence := (if shadowCopy then t_activationSequence src else 0) \<rparr>"

definition reconcile :: "('d, 's) threshold \<Rightarrow> ('d, 's) threshold \<Rightarrow> ('d, 's) threshold" where
  "reconcile th src = th\<lparr>
     t_numMatches := t_numMatches src, t_numClearMatches := t_numClearMatches src,
     t_deactivationSampleCount := t_deactivationSampleCount src,
     t_isReached := t_isReached src, t_wasReachedBeforeMaint := t_wasReachedBeforeMaint src,
     t_disabled := t_disabled src, t_currentSeverity := t_currentSeverity src,
     t_lastScriptErrorReport := t_lastScriptErrorReport src,
     t_lastCheckValue := t_lastCheckValue src,
     t_activationSequence := t_activationSequence src \<rparr>"

definition markLastEvent ::
  "int \<Rightarrow> nat \<Rightarrow> wstr option \<Rightarrow> ('d, 's) threshold \<Rightarrow> ('d, 's) threshold" where
  "markLastEvent now severity message th = th\<lparr>
     t_lastEventTimestamp := now, t_currentSeverity := severity mod 256,
     t_lastEventMessage := message \<rparr>"

text \<open>The fields of an NXCP message, by identifier, as its typed getters return them.\<close>

record nxcp_fields =
  m_u16 :: "nat \<Rightarrow> u16"
  m_u32 :: "nat \<Rightarrow> u32"
  m_i32 :: "nat \<Rightarrow> int"
  m_str :: "nat \<Rightarrow> wstr option"
  m_bool :: "nat \<Rightarrow> bool"

abbreviation (input) "MAX_DCI_STRING_VALUE \<equiv> (256 :: nat)"

definition updateFromMessage ::
  "('d, 's) dc_env \<Rightarrow> nxcp_fields \<Rightarrow> nat \<Rightarrow> ('d, 's) threshold \<Rightarrow> ('d, 's) threshold" where
  "updateFromMessage E msg baseId th =
     (let th1 = th\<lparr>
            t_eventCode := m_u32 msg (baseId + 1),
            t_rearmEventCode := m_u32 msg (baseId + 2),
            t_function := unat (m_u16 msg (baseId + 3)) mod 256,
            t_operation := unat (m_u16 msg (baseId + 4)) mod 256,
            t_sampleCount := m_i32 msg (baseId + 5) \<rparr>;
          th2 = setScript E (m_str msg (baseId + 6)) th1;
          value = set_string (e_dbl E)
                    (map_option (\<lambda>s. wcslcpy s MAX_DCI_STRING_VALUE) (m_str msg (baseId + 8))) True (t_value th2);
          deactivation = m_i32 msg (baseId + 10)
      in th2\<lparr>
           t_repeatInterval := m_i32 msg (baseId + 7),
           t_value := value,
           t_expandValue := NumCharsW (v_string value) 37 > 0,
           t_disabled := m_bool msg (baseId + 9),
           t_deactivationSampleCount := (if deactivation < 1 then 1 else deactivation),
           t_regenerateOnValueChange := m_bool msg (baseId + 11) \<rparr>)"

section \<open>Storage\<close>

text \<open>A row of the table \<^verbatim>\<open>thresholds\<close>.\<close>

record threshold_row =
  r_threshold_id :: u32
  r_item_id :: u32
  r_fire_value :: wstr
  r_rearm_value :: wstr
  r_check_function :: nat
  r_check_operation :: nat
  r_sample_count :: int
  r_script :: "wstr option"
  r_event_code :: u32
  r_sequence_number :: u32
  r_current_state :: int
  r_state_before_maint :: int
  r_rearm_event_code :: u32
  r_repeat_interval :: int
  r_current_severity :: nat
  r_last_event_timestamp :: u32
  r_match_count :: int
  r_last_checked_value :: wstr
  r_last_event_message :: "wstr option"
  r_is_disabled :: int
  r_deactivation_sample_count :: int
  r_clear_match_count :: int
  r_regenerate_on_value_change :: int

definition saveToDB :: "('d, 's) threshold \<Rightarrow> u32 \<Rightarrow> threshold_row" where
  "saveToDB th index = \<lparr>
     r_threshold_id = t_id th, r_item_id = t_itemId th,
     r_fire_value = v_string (t_value th), r_rearm_value = [],
     r_check_function = t_function th, r_check_operation = t_operation th,
     r_sample_count = t_sampleCount th, r_script = t_scriptSource th,
     r_event_code = t_eventCode th, r_sequence_number = index,
     r_current_state = (if t_isReached th then 1 else 0),
     r_state_before_maint = (if t_wasReachedBeforeMaint th then 1 else 0),
     r_rearm_event_code = t_rearmEventCode th, r_repeat_interval = t_repeatInterval th,
     r_current_severity = t_currentSeverity th,
     r_last_event_timestamp = word_of_int (t_lastEventTimestamp th),
     r_match_count = t_numMatches th, r_last_checked_value = v_string (t_lastCheckValue th),
     r_last_event_message = t_lastEventMessage th,
     r_is_disabled = (if t_disabled th then 1 else 0),
     r_deactivation_sample_count = t_deactivationSampleCount th,
     r_clear_match_count = t_numClearMatches th,
     r_regenerate_on_value_change = (if t_regenerateOnValueChange th then 1 else 0) \<rparr>"

abbreviation (input) "MAX_EVENT_MSG_LENGTH \<equiv> (2000 :: nat)"

definition load_threshold ::
  "('d, 's) dc_env \<Rightarrow> threshold_row \<Rightarrow> u32 \<Rightarrow> u32 \<Rightarrow> nat \<Rightarrow> ('d, 's) threshold" where
  "load_threshold E row itemId ownerId dataType =
     (let value = value_of_string (e_dbl E) (e_now_ms E) (r_fire_value row) 0 True;
          message = (case r_last_event_message row of None \<Rightarrow> []
                     | Some m \<Rightarrow> wcslcpy m MAX_EVENT_MSG_LENGTH);
          th = (setScript E (r_script row) (new_threshold E itemId ownerId dataType))\<lparr>
            t_id := r_threshold_id row,
            t_value := value,
            t_function := r_check_function row mod 256,
            t_operation := r_check_operation row mod 256,
            t_sampleCount := r_sample_count row,
            t_eventCode := r_event_code row,
            t_isReached := (r_current_state row \<noteq> 0),
            t_rearmEventCode := r_rearm_event_code row,
            t_repeatInterval := r_repeat_interval row,
            t_currentSeverity := r_current_severity row mod 256,
            t_lastEventTimestamp := uint (r_last_event_timestamp row),
            t_numMatches := r_match_count row,
            t_wasReachedBeforeMaint := (r_state_before_maint row \<noteq> 0),
            t_lastCheckValue := set_string (e_dbl E) (Some (wcslcpy (r_last_checked_value row) MAX_DB_STRING))
              False (new_value (e_dbl E) (e_now_ms E)),
            t_lastEventMessage := (if message \<noteq> [] then Some message else None),
            t_disabled := (r_is_disabled row \<noteq> 0),
            t_deactivationSampleCount := r_deactivation_sample_count row,
            t_numClearMatches := r_clear_match_count row,
            t_regenerateOnValueChange := (r_regenerate_on_value_change row \<noteq> 0),
            t_lastScriptErrorReport := 0,
            t_expandValue := NumCharsW (v_string value) 37 > 0,
            t_activationSequence := 0 \<rparr>
      in th\<lparr>
        t_sampleCount := (if t_function th = F_LAST \<and> t_sampleCount th < 1 then 1 else t_sampleCount th),
        t_deactivationSampleCount :=
          (if t_deactivationSampleCount th < 1 then 1 else t_deactivationSampleCount th) \<rparr>)"

section \<open>Functions over the cached values\<close>

text \<open>
  The loop \<^verbatim>\<open>for(i = 1; i < sampleCount; i++)\<close> reads \<^verbatim>\<open>prevValues[i - 1]\<close>; the list is the
  value cache.
\<close>

definition prev_samples :: "'d item_value list \<Rightarrow> int \<Rightarrow> fault + 'd item_value list" where
  "prev_samples prev n =
     (if nat (n - 1) \<le> length prev then Inr (take (nat (n - 1)) prev) else Inl Bad_access)"

definition CalculateSum_t ::
  "'t cnum \<Rightarrow> ('d item_value \<Rightarrow> 't) \<Rightarrow> 'd item_value \<Rightarrow> 'd item_value list \<Rightarrow> int \<Rightarrow> fault + 't" where
  "CalculateSum_t N cast lastValue prev n =
     sum_bind (prev_samples prev n) (\<lambda>ps.
       Inr (foldl (\<lambda>sum v. c_add N sum (cast v)) (cast lastValue) ps))"

definition CalculateAverage_t ::
  "'t cnum \<Rightarrow> ('d item_value \<Rightarrow> 't) \<Rightarrow> 'd item_value \<Rightarrow> 'd item_value list \<Rightarrow> int \<Rightarrow> fault + 't" where
  "CalculateAverage_t N cast lastValue prev n =
     sum_bind (CalculateSum_t N cast lastValue prev n) (\<lambda>sum. c_div N sum (c_of_int N n))"

definition CalculateMeanDeviation_t ::
  "'t cnum \<Rightarrow> ('d item_value \<Rightarrow> 't) \<Rightarrow> 'd item_value \<Rightarrow> 'd item_value list \<Rightarrow> int \<Rightarrow> fault + 't" where
  "CalculateMeanDeviation_t N cast lastValue prev n =
     sum_bind (CalculateAverage_t N cast lastValue prev n) (\<lambda>mean.
       sum_bind (prev_samples prev n) (\<lambda>ps.
         c_div N (foldl (\<lambda>dev v. c_add N dev (c_abs N (c_sub N (cast v) mean)))
                    (c_abs N (c_sub N (cast lastValue) mean)) ps)
           (c_of_int N n)))"

definition CalculateAbsoluteDeviation_t ::
  "'t cnum \<Rightarrow> ('d item_value \<Rightarrow> 't) \<Rightarrow> 'd item_value \<Rightarrow> 'd item_value list \<Rightarrow> int \<Rightarrow> fault + 't" where
  "CalculateAbsoluteDeviation_t N cast lastValue prev n =
     sum_bind (CalculateAverage_t N cast lastValue prev n) (\<lambda>mean.
       Inr (c_abs N (c_sub N (cast lastValue) mean)))"

text \<open>Storing the result of the template instance that the data type selects.\<close>

definition store_by_type ::
  "'d dbl \<Rightarrow> nat \<Rightarrow> fault + u32 \<Rightarrow> fault + u32 \<Rightarrow> fault + u64 \<Rightarrow> fault + u64 \<Rightarrow> fault + 'd \<Rightarrow>
   'd item_value \<Rightarrow> fault + 'd item_value" where
  "store_by_type D dt ri32 ru32 ri64 ru64 rd result =
     dt_switch dt
       (sum_bind ri32 (\<lambda>x. Inr (set_int32 D x None result)))
       (sum_bind ru32 (\<lambda>x. Inr (set_uint32 D x None result)))
       (sum_bind ri64 (\<lambda>x. Inr (set_int64 D x None result)))
       (sum_bind ru64 (\<lambda>x. Inr (set_uint64 D x None result)))
       (sum_bind rd (\<lambda>x. Inr (set_double D x None result)))
       (Inr (set_string D (Some []) False result))
       (Inr result)"

definition calculateAverage ::
  "'d dbl \<Rightarrow> ('d, 's) threshold \<Rightarrow> 'd item_value \<Rightarrow> 'd item_value list \<Rightarrow> 'd item_value \<Rightarrow> fault + 'd item_value" where
  "calculateAverage D th lastValue prev result =
     (let n = t_sampleCount th in
      store_by_type D (t_dataType th)
        (CalculateAverage_t signed_num getInt32 lastValue prev n)
        (CalculateAverage_t unsigned_num getUInt32 lastValue prev n)
        (CalculateAverage_t signed_num v_int64 lastValue prev n)
        (CalculateAverage_t unsigned_num v_uint64 lastValue prev n)
        (CalculateAverage_t (d_num D) v_double lastValue prev n) result)"

definition calculateTotal ::
  "'d dbl \<Rightarrow> ('d, 's) threshold \<Rightarrow> 'd item_value \<Rightarrow> 'd item_value list \<Rightarrow> 'd item_value \<Rightarrow> fault + 'd item_value" where
  "calculateTotal D th lastValue prev result =
     (let n = t_sampleCount th in
      store_by_type D (t_dataType th)
        (CalculateSum_t signed_num getInt32 lastValue prev n)
        (CalculateSum_t unsigned_num getUInt32 lastValue prev n)
        (CalculateSum_t signed_num v_int64 lastValue prev n)
        (CalculateSum_t unsigned_num v_uint64 lastValue prev n)
        (CalculateSum_t (d_num D) v_double lastValue prev n) result)"

definition calculateMeanDeviation ::
  "'d dbl \<Rightarrow> ('d, 's) threshold \<Rightarrow> 'd item_value \<Rightarrow> 'd item_value list \<Rightarrow> 'd item_value \<Rightarrow> fault + 'd item_value" where
  "calculateMeanDeviation D th lastValue prev result =
     (let n = t_sampleCount th in
      store_by_type D (t_dataType th)
        (CalculateMeanDeviation_t signed_num getInt32 lastValue prev n)
        (CalculateMeanDeviation_t unsigned_num getUInt32 lastValue prev n)
        (CalculateMeanDeviation_t signed_num v_int64 lastValue prev n)
        (CalculateMeanDeviation_t unsigned_num v_uint64 lastValue prev n)
        (CalculateMeanDeviation_t (d_num D) v_double lastValue prev n) result)"

definition calculateAbsoluteDeviation ::
  "'d dbl \<Rightarrow> ('d, 's) threshold \<Rightarrow> 'd item_value \<Rightarrow> 'd item_value list \<Rightarrow> 'd item_value \<Rightarrow> fault + 'd item_value" where
  "calculateAbsoluteDeviation D th lastValue prev result =
     (let n = t_sampleCount th in
      store_by_type D (t_dataType th)
        (CalculateAbsoluteDeviation_t signed_num getInt32 lastValue prev n)
        (CalculateAbsoluteDeviation_t unsigned_num getUInt32 lastValue prev n)
        (CalculateAbsoluteDeviation_t signed_num v_int64 lastValue prev n)
        (CalculateAbsoluteDeviation_t unsigned_num v_uint64 lastValue prev n)
        (CalculateAbsoluteDeviation_t (d_num D) v_double lastValue prev n) result)"

definition getRequiredCacheSize :: "('d, 's) threshold \<Rightarrow> nat" where
  "getRequiredCacheSize th =
     (if t_function th = F_LAST \<or> t_function th = F_ERROR then 0
      else unat (word_of_int (t_sampleCount th) :: u32))"

section \<open>Check\<close>

text \<open>The scan for a placeholder among the first \<open>n\<close> cached values.\<close>

fun placeholder_in :: "nat \<Rightarrow> 'd item_value list \<Rightarrow> fault + bool" where
  "placeholder_in 0 prev = Inr False"
| "placeholder_in (Suc n) [] = Inl Bad_access"
| "placeholder_in (Suc n) (v # vs) = (if v_timestamp v = 1 then Inr True else placeholder_in n vs)"

definition not_enough_data :: "('d, 's) threshold \<Rightarrow> 'd item_value list \<Rightarrow> fault + bool" where
  "not_enough_data th prev =
     (if t_function th = F_DIFF then placeholder_in 1 prev
      else if t_function th \<in> {F_AVERAGE, F_SUM, F_MEAN_DEVIATION} then
        placeholder_in (nat (t_sampleCount th - 1)) prev
      else Inr False)"

definition eval_function ::
  "('d, 's) dc_env \<Rightarrow> ('d, 's) threshold \<Rightarrow> 'd item_value \<Rightarrow> 'd item_value list \<Rightarrow> 'd item_value \<Rightarrow>
   fault + 'd item_value" where
  "eval_function E th val prev fvalue =
     (let D = e_dbl E; f = t_function th in
      if f = F_LAST \<or> f = F_SCRIPT then Inr val
      else if f = F_AVERAGE then calculateAverage D th val prev fvalue
      else if f = F_SUM then calculateTotal D th val prev fvalue
      else if f = F_MEAN_DEVIATION then calculateMeanDeviation D th val prev fvalue
      else if f = F_ABS_DEVIATION then calculateAbsoluteDeviation D th val prev fvalue
      else if f = F_DIFF then
        (case prev of [] \<Rightarrow> Inl Bad_access
         | p # _ \<Rightarrow> Inr (CalculateItemValueDiff D (t_dataType th) val p fvalue))
      else if f = F_ANOMALY then Inr (set_uint32 D (if e_anomaly E then 1 else 0) None fvalue)
      else if f = F_ERROR then Inr (set_uint32 D 0 None fvalue)
      else Inr fvalue)"

text \<open>The data type of the comparison, which the difference changes.\<close>

definition compare_type :: "('d, 's) threshold \<Rightarrow> nat" where
  "compare_type th =
     (if t_function th = F_DIFF then
        (if t_dataType th = DCI_DT_STRING then DCI_DT_INT
         else if t_dataType th \<in> {DCI_DT_UINT, DCI_DT_UINT64, DCI_DT_COUNTER64} then DCI_DT_INT64
         else t_dataType th)
      else t_dataType th)"

definition threshold_value :: "('d, 's) dc_env \<Rightarrow> ('d, 's) threshold \<Rightarrow> 'd item_value" where
  "threshold_value E th =
     (if t_expandValue th then
        value_of_string (e_dbl E) (e_now_ms E) (e_expand E (v_string (t_value th)))
          (v_timestamp (t_value th)) True
      else t_value th)"

definition compare_values ::
  "('d, 's) dc_env \<Rightarrow> nat \<Rightarrow> nat \<Rightarrow> nat \<Rightarrow> 'd item_value \<Rightarrow> 'd item_value \<Rightarrow> bool" where
  "compare_values E operation dataType itemType f t =
     (let D = e_dbl E in
      if operation = OP_LE then
        dt_switch dataType (sint (getInt32 f) < sint (getInt32 t)) (getUInt32 f < getUInt32 t)
          (sint (v_int64 f) < sint (v_int64 t)) (v_uint64 f < v_uint64 t)
          (c_lt (d_num D) (v_double f) (v_double t)) False False
      else if operation = OP_LE_EQ then
        dt_switch dataType (sint (getInt32 f) \<le> sint (getInt32 t)) (getUInt32 f \<le> getUInt32 t)
          (sint (v_int64 f) \<le> sint (v_int64 t)) (v_uint64 f \<le> v_uint64 t)
          (d_le D (v_double f) (v_double t)) False False
      else if operation = OP_EQ then
        dt_switch dataType (getInt32 f = getInt32 t) (getUInt32 f = getUInt32 t)
          (v_int64 f = v_int64 t) (v_uint64 f = v_uint64 t)
          (c_lt (d_num D) (c_abs (d_num D) (c_sub (d_num D) (v_double f) (v_double t))) (d_eps D))
          (v_string f = v_string t) False
      else if operation = OP_GT_EQ then
        dt_switch dataType (sint (getInt32 f) \<ge> sint (getInt32 t)) (getUInt32 f \<ge> getUInt32 t)
          (sint (v_int64 f) \<ge> sint (v_int64 t)) (v_uint64 f \<ge> v_uint64 t)
          (d_le D (v_double t) (v_double f)) False False
      else if operation = OP_GT then
        dt_switch dataType (sint (getInt32 f) > sint (getInt32 t)) (getUInt32 f > getUInt32 t)
          (sint (v_int64 f) > sint (v_int64 t)) (v_uint64 f > v_uint64 t)
          (c_lt (d_num D) (v_double t) (v_double f)) False False
      else if operation = OP_NE then
        dt_switch dataType (getInt32 f \<noteq> getInt32 t) (getUInt32 f \<noteq> getUInt32 t)
          (v_int64 f \<noteq> v_int64 t) (v_uint64 f \<noteq> v_uint64 t)
          (\<not> d_eq D (v_double f) (v_double t)) (v_string f \<noteq> v_string t) False
      else if operation = OP_LIKE then
        itemType = DCI_DT_STRING \<and> MatchStringW (e_towupper E) (v_string t) (v_string f) True
      else if operation = OP_NOTLIKE then
        itemType = DCI_DT_STRING \<and> \<not> MatchStringW (e_towupper E) (v_string t) (v_string f) True
      else if operation = OP_ILIKE then
        itemType = DCI_DT_STRING \<and> MatchStringW (e_towupper E) (v_string t) (v_string f) False
      else if operation = OP_INOTLIKE then
        itemType = DCI_DT_STRING \<and> \<not> MatchStringW (e_towupper E) (v_string t) (v_string f) False
      else False)"

definition report_error ::
  "('d, 's) dc_env \<Rightarrow> ('d, 's) threshold \<Rightarrow> ('d, 's) threshold \<times> t_effect list" where
  "report_error E th =
     (if t_lastScriptErrorReport th + e_err_interval E < e_time E
      then (th\<lparr> t_lastScriptErrorReport := e_time E \<rparr>, [Script_error (t_id th)])
      else (th, []))"

definition run_script ::
  "('d, 's) dc_env \<Rightarrow> ('d, 's) threshold \<Rightarrow> 'd item_value \<Rightarrow> 'd item_value \<Rightarrow> 'd item_value \<Rightarrow>
   bool \<times> ('d, 's) threshold \<times> 'd item_value \<times> 'd item_value \<times> t_effect list" where
  "run_script E th val fvalue tvalue =
     (case t_script th of
        Some sc \<Rightarrow>
          if e_script_empty E sc then (False, th, fvalue, tvalue, [])
          else (case e_run_script E sc (v_string val) (v_string tvalue) of
              Result_map m cv tv \<Rightarrow>
                (m = Some True, th,
                 (case cv of Some s \<Rightarrow> set_string (e_dbl E) s False fvalue | None \<Rightarrow> fvalue),
                 (case tv of Some s \<Rightarrow> set_string (e_dbl E) s False tvalue | None \<Rightarrow> tvalue), [])
            | Result_value b \<Rightarrow> (b, th, fvalue, tvalue, [])
            | Run_failed \<Rightarrow> (let (th', eff) = report_error E th in (False, th', fvalue, tvalue, eff))
            | No_vm \<Rightarrow> (let (th', eff) = report_error E th in (False, th', fvalue, tvalue, eff)))
      | None \<Rightarrow> (False, th, fvalue, tvalue, []))"

text \<open>The condition itself, before the counting of consecutive polls.\<close>

definition eval_condition ::
  "('d, 's) dc_env \<Rightarrow> ('d, 's) threshold \<Rightarrow> 'd item_value \<Rightarrow> 'd item_value \<Rightarrow> 'd item_value \<Rightarrow>
   bool \<times> ('d, 's) threshold \<times> 'd item_value \<times> 'd item_value \<times> t_effect list" where
  "eval_condition E th val fvalue tvalue =
     (if t_function th = F_ERROR then (False, th, fvalue, tvalue, [])
      else if t_function th = F_ANOMALY then (e_anomaly E, th, fvalue, tvalue, [])
      else if t_function th = F_SCRIPT then run_script E th val fvalue (threshold_value E th)
      else (compare_values E (t_operation th) (compare_type th) (t_dataType th) fvalue (threshold_value E th),
            th, fvalue, threshold_value E th, []))"

definition count_matches :: "bool \<Rightarrow> ('d, 's) threshold \<Rightarrow> bool \<times> ('d, 's) threshold" where
  "count_matches mat th =
     (if t_function th \<in> {F_LAST, F_DIFF, F_SCRIPT, F_ANOMALY} then
        (if mat then
           (\<not> t_numMatches th + 1 < t_sampleCount th, th\<lparr> t_numMatches := t_numMatches th + 1 \<rparr>)
         else (False, th\<lparr> t_numMatches := 0 \<rparr>))
      else (mat, th))"

definition count_clears :: "bool \<Rightarrow> ('d, 's) threshold \<Rightarrow> bool \<times> ('d, 's) threshold" where
  "count_clears mat th =
     (if mat then (True, th\<lparr> t_numClearMatches := 0 \<rparr>)
      else if t_isReached th \<and> t_deactivationSampleCount th > 1 then
        (t_numClearMatches th + 1 < t_deactivationSampleCount th,
         th\<lparr> t_numClearMatches := t_numClearMatches th + 1 \<rparr>)
      else (False, th))"

definition transition_result :: "bool \<Rightarrow> bool \<Rightarrow> ThresholdCheckResult" where
  "transition_result mat reached =
     (if mat \<and> \<not> reached then ACTIVATED
      else if \<not> mat \<and> reached then DEACTIVATED
      else if reached then ALREADY_ACTIVE else ALREADY_INACTIVE)"

definition state_update :: "ThresholdCheckResult \<Rightarrow> ('d, 's) threshold \<Rightarrow> t_effect list" where
  "state_update res th =
     (if res = ACTIVATED \<or> res = DEACTIVATED then [Sql_state (t_id th) (t_isReached th)] else [])"

type_synonym ('d, 's) check_out =
  "ThresholdCheckResult \<times> ('d, 's) threshold \<times> 'd item_value \<times> 'd item_value \<times> t_effect list"

definition finish_check ::
  "bool \<Rightarrow> ('d, 's) threshold \<Rightarrow> 'd item_value \<Rightarrow> 'd item_value \<Rightarrow> t_effect list \<Rightarrow> ('d, 's) check_out" where
  "finish_check mat th fvalue tvalue eff =
     (let (mat1, th1) = count_matches mat th;
          (mat2, th2) = count_clears mat1 th1;
          res0 = transition_result mat2 (t_isReached th2);
          res = (if res0 = ALREADY_ACTIVE \<and> t_regenerateOnValueChange th2 \<and>
                   v_string fvalue \<noteq> v_string (t_lastCheckValue th2) then VALUE_CHANGED else res0);
          th3 = th2\<lparr> t_isReached := mat2 \<rparr>
      in (res, th3, fvalue, tvalue, eff @ state_update res th3))"

definition unchanged_result :: "('d, 's) threshold \<Rightarrow> ThresholdCheckResult" where
  "unchanged_result th = (if t_isReached th then ALREADY_ACTIVE else ALREADY_INACTIVE)"

definition check ::
  "('d, 's) dc_env \<Rightarrow> ('d, 's) threshold \<Rightarrow> 'd item_value \<Rightarrow> 'd item_value list \<Rightarrow>
   'd item_value \<Rightarrow> 'd item_value \<Rightarrow> fault + ('d, 's) check_out" where
  "check E th val prev fvalue tvalue =
     (if t_disabled th then
        (if \<not> t_isReached th then Inr (ALREADY_INACTIVE, th, fvalue, tvalue, [])
         else (let th' = th\<lparr> t_isReached := False \<rparr>
               in Inr (DEACTIVATED, th', fvalue, tvalue, [Sql_state (t_id th) False])))
      else
        sum_bind (not_enough_data th prev) (\<lambda>missing.
          if missing then Inr (unchanged_result th, th, fvalue, tvalue, [])
          else
            sum_bind (eval_function E th val prev fvalue) (\<lambda>fvalue1.
              let (mat, th1, fvalue2, tvalue2, eff) = eval_condition E th val fvalue1 tvalue
              in Inr (finish_check mat th1 fvalue2 tvalue2 eff))))"

definition checkError :: "u32 \<Rightarrow> ('d, 's) threshold \<Rightarrow> ThresholdCheckResult \<times> ('d, 's) threshold \<times> t_effect list" where
  "checkError errorCount th =
     (if t_function th \<noteq> F_ERROR then (unchanged_result th, th, [])
      else
        (let mat = (if t_disabled th then False else word_of_int (t_sampleCount th) \<le> errorCount);
             (mat1, th1) = count_clears mat th;
             res = transition_result mat1 (t_isReached th1);
             th2 = th1\<lparr> t_isReached := mat1 \<rparr>
         in (res, th2, state_update res th2)))"

definition equals :: "'d dbl \<Rightarrow> ('d, 's) threshold \<Rightarrow> ('d, 's) threshold \<Rightarrow> bool" where
  "equals D th t =
     ((if t_function th = F_SCRIPT \<or> t_expandValue t \<or> t_expandValue th then
         v_string (t_value t) = v_string (t_value th)
       else
         dt_switch (t_dataType th)
           (getInt32 (t_value t) = getInt32 (t_value th))
           (getUInt32 (t_value t) = getUInt32 (t_value th))
           (v_int64 (t_value t) = v_int64 (t_value th))
           (v_uint64 (t_value t) = v_uint64 (t_value th))
           (d_eq D (v_double (t_value t)) (v_double (t_value th)))
           (v_string (t_value t) = v_string (t_value th))
           True) \<and>
      t_eventCode t = t_eventCode th \<and> t_rearmEventCode t = t_rearmEventCode th \<and>
      t_dataType t = t_dataType th \<and> t_function t = t_function th \<and>
      t_operation t = t_operation th \<and> t_sampleCount t = t_sampleCount th \<and>
      t_deactivationSampleCount t = t_deactivationSampleCount th \<and>
      t_repeatInterval t = t_repeatInterval th \<and>
      t_regenerateOnValueChange t = t_regenerateOnValueChange th \<and>
      (case t_scriptSource t of None \<Rightarrow> [] | Some s \<Rightarrow> s) =
        (case t_scriptSource th of None \<Rightarrow> [] | Some s \<Rightarrow> s))"

section \<open>What a check does to the state\<close>

text \<open>The members a check leaves alone.\<close>

definition config_of :: "('d, 's) threshold \<Rightarrow> ('d, 's) threshold" where
  "config_of th = th\<lparr> t_isReached := False, t_numMatches := 0, t_numClearMatches := 0,
     t_lastScriptErrorReport := 0 \<rparr>"

definition is_state_update :: "t_effect \<Rightarrow> bool" where
  "is_state_update e = (case e of Sql_state _ _ \<Rightarrow> True | _ \<Rightarrow> False)"

lemma is_state_update_simps [simp]: "is_state_update (Sql_state i b)" "\<not> is_state_update (Script_error i)"
  by (simp_all add: is_state_update_def)

lemma config_of_update [simp]:
  "config_of (th\<lparr> t_isReached := b \<rparr>) = config_of th"
  "config_of (th\<lparr> t_numMatches := n \<rparr>) = config_of th"
  "config_of (th\<lparr> t_numClearMatches := n \<rparr>) = config_of th"
  "config_of (th\<lparr> t_lastScriptErrorReport := n \<rparr>) = config_of th"
  by (simp_all add: config_of_def)

lemma config_ofD:
  assumes "config_of a = config_of b"
  shows "t_id a = t_id b" "t_function a = t_function b" "t_operation a = t_operation b"
    "t_dataType a = t_dataType b" "t_sampleCount a = t_sampleCount b"
    "t_deactivationSampleCount a = t_deactivationSampleCount b" "t_disabled a = t_disabled b"
    "t_value a = t_value b" "t_expandValue a = t_expandValue b" "t_script a = t_script b"
    "t_regenerateOnValueChange a = t_regenerateOnValueChange b"
    "t_lastCheckValue a = t_lastCheckValue b"
  using assms by (cases a; cases b; simp add: config_of_def)+

lemma count_matches_frame [nx_frame]:
  "config_of (snd (count_matches mat th)) = config_of th"
  "t_isReached (snd (count_matches mat th)) = t_isReached th"
  by (simp_all add: count_matches_def)

lemma count_clears_frame [nx_frame]:
  "config_of (snd (count_clears mat th)) = config_of th"
  "t_isReached (snd (count_clears mat th)) = t_isReached th"
  by (simp_all add: count_clears_def)

lemma eval_condition_frame:
  assumes "eval_condition E th val f t = (mat, th1, f1, t1, eff)"
  shows "config_of th1 = config_of th" "t_isReached th1 = t_isReached th"
    "t_numMatches th1 = t_numMatches th" "t_numClearMatches th1 = t_numClearMatches th"
    "filter is_state_update eff = []"
  using assms
  by (auto simp: eval_condition_def run_script_def report_error_def
      split: if_splits option.splits script_outcome.splits)

lemma finish_check_frame:
  assumes "finish_check mat th f t eff = (res, th', f', t', eff')"
  shows "config_of th' = config_of th"
    "res = ACTIVATED \<longleftrightarrow> \<not> t_isReached th \<and> t_isReached th'"
    "res = DEACTIVATED \<longleftrightarrow> t_isReached th \<and> \<not> t_isReached th'"
    "res = ALREADY_INACTIVE \<longleftrightarrow> \<not> t_isReached th \<and> \<not> t_isReached th'"
    "eff' = eff @ (if t_isReached th = t_isReached th' then [] else [Sql_state (t_id th) (t_isReached th')])"
proof -
  obtain m1 th1 where c1: "count_matches mat th = (m1, th1)" by (metis surj_pair)
  obtain m2 th2 where c2: "count_clears m1 th1 = (m2, th2)" by (metis surj_pair)
  have fr: "config_of th2 = config_of th" "t_isReached th2 = t_isReached th"
    using count_matches_frame [of mat th] count_clears_frame [of m1 th1] c1 c2 by simp_all
  note id = config_ofD(1) [OF fr(1)]
  have th': "th' = th2\<lparr> t_isReached := m2 \<rparr>"
    using assms by (simp add: finish_check_def c1 c2 Let_def)
  show "config_of th' = config_of th" using fr th' by simp
  show "res = ACTIVATED \<longleftrightarrow> \<not> t_isReached th \<and> t_isReached th'"
    "res = DEACTIVATED \<longleftrightarrow> t_isReached th \<and> \<not> t_isReached th'"
    "res = ALREADY_INACTIVE \<longleftrightarrow> \<not> t_isReached th \<and> \<not> t_isReached th'"
    "eff' = eff @ (if t_isReached th = t_isReached th' then [] else [Sql_state (t_id th) (t_isReached th')])"
    using assms fr id
    by (auto simp: finish_check_def c1 c2 Let_def transition_result_def state_update_def th' split: if_splits)
qed

lemma check_cases:
  assumes "check E th val prev f t = Inr (res, th', f', t', eff)"
  obtains (disabled) "t_disabled th" "th' = th\<lparr> t_isReached := False \<rparr>"
      "res = (if t_isReached th then DEACTIVATED else ALREADY_INACTIVE)"
      "eff = (if t_isReached th then [Sql_state (t_id th) False] else [])"
    | (missing) "\<not> t_disabled th" "th' = th" "res = unchanged_result th" "eff = []"
    | (evaluated) f1 mat th1 f2 t2 eff1 where "\<not> t_disabled th"
      "not_enough_data th prev = Inr False" "eval_function E th val prev f = Inr f1"
      "eval_condition E th val f1 t = (mat, th1, f2, t2, eff1)"
      "finish_check mat th1 f2 t2 eff1 = (res, th', f', t', eff)"
proof (cases "t_disabled th")
  case True
  then show ?thesis
    using assms by (intro disabled) (auto simp: check_def Let_def split: if_splits)
next
  case False
  with assms obtain miss where m: "not_enough_data th prev = Inr miss"
    by (auto simp: check_def sum_bind_Inr_iff)
  show ?thesis
  proof (cases miss)
    case True
    with assms False m show ?thesis by (intro missing) (auto simp: check_def)
  next
    case no: False
    with assms False m obtain f1 where f1: "eval_function E th val prev f = Inr f1"
      by (auto simp: check_def sum_bind_Inr_iff)
    obtain mat th1 f2 t2 eff1 where c: "eval_condition E th val f1 t = (mat, th1, f2, t2, eff1)"
      by (metis surj_pair)
    from assms False m no f1 c show ?thesis by (intro evaluated) (auto simp: check_def)
  qed
qed

lemma check_frame:
  assumes "check E th val prev f t = Inr (res, th', f', t', eff)"
  shows "config_of th' = config_of th"
  using assms
proof (cases rule: check_cases)
  case (evaluated f1 mat th1 f2 t2 eff1)
  then show ?thesis using eval_condition_frame(1) finish_check_frame(1) by metis
qed simp_all

lemma check_facts:
  assumes "check E th val prev f t = Inr (res, th', f', t', eff)"
  shows "(res = ACTIVATED \<longleftrightarrow> \<not> t_isReached th \<and> t_isReached th') \<and>
    (res = DEACTIVATED \<longleftrightarrow> t_isReached th \<and> \<not> t_isReached th') \<and>
    (res = ALREADY_INACTIVE \<longleftrightarrow> \<not> t_isReached th \<and> \<not> t_isReached th') \<and>
    filter is_state_update eff =
      (if t_isReached th = t_isReached th' then [] else [Sql_state (t_id th) (t_isReached th')]) \<and>
    (t_disabled th \<longrightarrow> \<not> t_isReached th') \<and> config_of th' = config_of th"
  using assms
proof (cases rule: check_cases)
  case (evaluated f1 mat th1 f2 t2 eff1)
  note e = eval_condition_frame [OF evaluated(4)]
  note f = finish_check_frame [OF evaluated(5)]
  from e f evaluated(1) config_ofD(1) [OF e(1)] show ?thesis by simp
qed (auto simp: unchanged_result_def)

lemma check_active:
  assumes "check E th val prev f t = Inr (res, th', f', t', eff)"
  shows "res \<in> {ALREADY_ACTIVE, VALUE_CHANGED} \<longleftrightarrow> t_isReached th \<and> t_isReached th'"
  using check_facts [OF assms] by (cases res) auto

text \<open>
  C9. The result of a threshold check and the state agree: the check reports an activation
  exactly when the state goes from inactive to active, a deactivation exactly when it goes
  from active to inactive, and the inactive result exactly when it stays inactive; the
  database gets the new state exactly once when the state changes and never otherwise; a
  disabled threshold ends up inactive; and the configuration is not touched.
\<close>

theorem check_transition:
  assumes "check E th val prev f t = Inr (res, th', f', t', eff)"
  shows "(res = ACTIVATED \<longleftrightarrow> \<not> t_isReached th \<and> t_isReached th') \<and>
    (res = DEACTIVATED \<longleftrightarrow> t_isReached th \<and> \<not> t_isReached th') \<and>
    (res = ALREADY_INACTIVE \<longleftrightarrow> \<not> t_isReached th \<and> \<not> t_isReached th') \<and>
    filter is_state_update eff =
      (if t_isReached th = t_isReached th' then [] else [Sql_state (t_id th) (t_isReached th')]) \<and>
    (t_disabled th \<longrightarrow> \<not> t_isReached th') \<and> config_of th' = config_of th"
  using assms by (rule check_facts)

text \<open>An environment and a threshold on the last value, for concrete runs.\<close>

definition plain_env :: "(int, unit) dc_env" where
  "plain_env = \<lparr> e_dbl = whole_dbl, e_towupper = (\<lambda>c. c), e_now_ms = 0, e_time = 0, e_err_interval = 0,
     e_expand = (\<lambda>s. s), e_anomaly = False, e_compile = (\<lambda>_. None), e_script_empty = (\<lambda>_. True),
     e_run_script = (\<lambda>_ _ _. No_vm) \<rparr>"

definition above :: "int \<Rightarrow> int \<Rightarrow> int \<Rightarrow> (int, unit) threshold" where
  "above limit n d = (new_threshold plain_env 1 2 DCI_DT_INT64)\<lparr>
     t_id := 7, t_operation := OP_GT, t_value := int_sample 0 limit,
     t_sampleCount := n, t_deactivationSampleCount := d \<rparr>"

lemmas concrete_check = check_def not_enough_data_def eval_function_def eval_condition_def
  threshold_value_def compare_values_def compare_type_def finish_check_def count_matches_def
  count_clears_def transition_result_def state_update_def above_def new_threshold_def dt_switch_def

theorem check_transition_witness:
  "\<exists>th' f' t'. check plain_env (above 5 1 1) (int_sample 9 8) [] (int_sample 0 0) (int_sample 0 0) =
     Inr (ACTIVATED, th', f', t', [Sql_state 7 True]) \<and> t_isReached th'"
proof -
  obtain th' f' t' where c: "check plain_env (above 5 1 1) (int_sample 9 8) [] (int_sample 0 0) (int_sample 0 0) =
     Inr (ACTIVATED, th', f', t', [Sql_state 7 True])"
    by (simp add: concrete_check)
  from c check_transition [OF c] show ?thesis by auto
qed

section \<open>Counting consecutive polls\<close>

text \<open>
  A poll is what the check is given. \<open>poll_match\<close> is the condition of a poll, when the cache
  has enough data and the function does not fault.
\<close>

type_synonym ('d, 's) poll = "('d, 's) dc_env \<times> 'd item_value \<times> 'd item_value list \<times> 'd item_value \<times> 'd item_value"

definition poll_match :: "('d, 's) threshold \<Rightarrow> ('d, 's) poll \<Rightarrow> bool option" where
  "poll_match th = (\<lambda>(E, val, prev, f, t).
     if not_enough_data th prev = Inr False then
       (case eval_function E th val prev f of
          Inl _ \<Rightarrow> None
        | Inr f1 \<Rightarrow> Some (fst (eval_condition E th val f1 t)))
     else None)"

fun run_checks :: "('d, 's) poll list \<Rightarrow> ('d, 's) threshold \<Rightarrow> fault + (ThresholdCheckResult list \<times> ('d, 's) threshold)" where
  "run_checks [] th = Inr ([], th)"
| "run_checks ((E, val, prev, f, t) # ps) th =
     sum_bind (check E th val prev f t) (\<lambda>(res, th', _, _, _).
       sum_bind (run_checks ps th') (\<lambda>(rs, th''). Inr (res # rs, th'')))"

text \<open>
  The counters as an automaton on the outcome of the condition: the state is whether the
  threshold is active, and the two counters.
\<close>

definition count_step :: "int \<Rightarrow> int \<Rightarrow> bool \<times> int \<times> int \<Rightarrow> bool \<Rightarrow> bool \<times> int \<times> int" where
  "count_step n d = (\<lambda>(reached, m, c) mat.
     let m' = (if mat then m + 1 else 0) in
     if mat \<and> \<not> m' < n then (True, m', 0)
     else if reached \<and> d > 1 then (c + 1 < d, m', c + 1)
     else (False, m', c))"

definition counters :: "('d, 's) threshold \<Rightarrow> bool \<times> int \<times> int" where
  "counters th = (t_isReached th, t_numMatches th, t_numClearMatches th)"

definition counts_polls :: "('d, 's) threshold \<Rightarrow> bool" where
  "counts_polls th \<longleftrightarrow> \<not> t_disabled th \<and> t_function th \<in> {F_LAST, F_DIFF, F_SCRIPT, F_ANOMALY}"

lemma counts_polls_cong: "config_of a = config_of b \<Longrightarrow> counts_polls a = counts_polls b"
  by (simp only: counts_polls_def config_ofD [of a b])

lemma poll_match_cong:
  assumes "config_of a = config_of b"
  shows "poll_match a = poll_match b"
proof -
  note c = config_ofD [OF assms]
  have "not_enough_data a prev = not_enough_data b prev" for prev
    by (simp add: not_enough_data_def c)
  moreover have "eval_function E a val prev f = eval_function E b val prev f" for E val prev f
    by (simp only: eval_function_def calculateAverage_def calculateTotal_def calculateMeanDeviation_def
        calculateAbsoluteDeviation_def c)
  moreover have "fst (eval_condition E a val f t) = fst (eval_condition E b val f t)" for E val f t
    by (auto simp: eval_condition_def run_script_def threshold_value_def compare_type_def c
        split: option.splits script_outcome.splits prod.splits)
  ultimately show ?thesis by (simp add: poll_match_def fun_eq_iff split: sum.splits)
qed

lemma finish_check_counters:
  assumes "counts_polls th" "finish_check mat th f t eff = (res, th', f', t', eff')"
  shows "counters th' = count_step (t_sampleCount th) (t_deactivationSampleCount th) (counters th) mat"
  using assms
  by (auto simp: finish_check_def counts_polls_def counters_def count_step_def count_matches_def
      count_clears_def Let_def split: if_splits)

lemma check_counters:
  assumes "counts_polls th" "poll_match th (E, val, prev, f, t) = Some mat"
  shows "\<exists>res th' f' t' eff. check E th val prev f t = Inr (res, th', f', t', eff) \<and>
     counters th' = count_step (t_sampleCount th) (t_deactivationSampleCount th) (counters th) mat \<and>
     config_of th' = config_of th"
proof -
  from assms(2) obtain f1 where f1: "not_enough_data th prev = Inr False"
      "eval_function E th val prev f = Inr f1" "mat = fst (eval_condition E th val f1 t)"
    by (auto simp: poll_match_def split: if_splits sum.splits)
  obtain th1 f2 t2 eff1 where c: "eval_condition E th val f1 t = (mat, th1, f2, t2, eff1)"
    using f1(3) by (cases "eval_condition E th val f1 t") auto
  obtain res th' f' t' eff where fc: "finish_check mat th1 f2 t2 eff1 = (res, th', f', t', eff)"
    by (metis surj_pair)
  note e = eval_condition_frame [OF c]
  have "counters th1 = counters th" using e by (simp add: counters_def)
  moreover have "counts_polls th1" using assms(1) counts_polls_cong [OF e(1)] by simp
  ultimately have "counters th' = count_step (t_sampleCount th) (t_deactivationSampleCount th) (counters th) mat"
    using finish_check_counters [OF _ fc] config_ofD [OF e(1)] by simp
  moreover have "check E th val prev f t = Inr (res, th', f', t', eff)"
    using assms(1) f1(1,2) c fc by (simp add: check_def counts_polls_def)
  ultimately show ?thesis using finish_check_frame(1) [OF fc] e(1) by auto
qed

lemma run_checks_counters:
  assumes "counts_polls th" "map (poll_match th) ps = map Some ms"
  shows "\<exists>rs th'. run_checks ps th = Inr (rs, th') \<and> length rs = length ps \<and>
    counters th' = foldl (count_step (t_sampleCount th) (t_deactivationSampleCount th)) (counters th) ms"
  using assms
proof (induction ps arbitrary: th ms)
  case (Cons p ps)
  obtain E val prev f t where p: "p = (E, val, prev, f, t)" by (metis surj_pair)
  obtain m ms' where ms: "ms = m # ms'" using Cons.prems(2) by (cases ms) auto
  obtain res th1 f' t' eff where c: "check E th val prev f t = Inr (res, th1, f', t', eff)"
      "counters th1 = count_step (t_sampleCount th) (t_deactivationSampleCount th) (counters th) m"
      "config_of th1 = config_of th"
    using check_counters [OF Cons.prems(1), of E val prev f t m] Cons.prems(2) by (auto simp: p ms)
  have "map (poll_match th1) ps = map Some ms'"
    using Cons.prems(2) poll_match_cong [OF c(3)] by (simp add: ms)
  with Cons.IH [of th1 ms'] Cons.prems(1) counts_polls_cong [OF c(3)] config_ofD [OF c(3)] c
  show ?case by (auto simp: p ms)
qed simp

lemma run_checks_fresh:
  assumes "counts_polls th" "counters th = (False, 0, 0)" "map (poll_match th) ps = map Some ms"
    and "foldl (count_step (t_sampleCount th) (t_deactivationSampleCount th)) (False, 0, 0) ms = (r, m, c)"
  shows "\<exists>rs th'. run_checks ps th = Inr (rs, th') \<and> t_isReached th' = r \<and> t_numMatches th' = m"
  using run_checks_counters [OF assms(1,3)] assms(4) unfolding assms(2) by (auto simp: counters_def)

text \<open>The number of elements at the end of a history that satisfy a condition.\<close>

definition trailing :: "('a \<Rightarrow> bool) \<Rightarrow> 'a list \<Rightarrow> nat" where
  "trailing P xs = length (takeWhile P (rev xs))"

lemma trailing_simps [simp]:
  "trailing P [] = 0"
  "trailing P (xs @ [x]) = (if P x then Suc (trailing P xs) else 0)"
  by (simp_all add: trailing_def)

lemma count_step_eq:
  "count_step n d (r, m, c) mat =
     (let m' = (if mat then m + 1 else 0) in
      if mat \<and> \<not> m' < n then (True, m', 0)
      else if r \<and> d > 1 then (c + 1 < d, m', c + 1)
      else (False, m', c))"
  by (simp add: count_step_def)

lemma count_run:
  assumes "foldl (count_step n d) (False, 0, 0) ms = (r, m, c)"
  shows "m = int (trailing (\<lambda>x. x) ms)"
    "d \<le> 1 \<Longrightarrow> r \<longleftrightarrow> max n 1 \<le> int (trailing (\<lambda>x. x) ms)"
    "n \<le> 1 \<Longrightarrow> (r \<longleftrightarrow> True \<in> set ms \<and> int (trailing Not ms) < max d 1) \<and>
       (r \<and> d > 1 \<longrightarrow> c = int (trailing Not ms))"
  using assms
proof (induction ms arbitrary: r m c rule: rev_induct)
  case (snoc x ms)
  obtain r0 m0 c0 where f: "foldl (count_step n d) (False, 0, 0) ms = (r0, m0, c0)" by (metis surj_pair)
  { case 1 with f snoc.IH(1) [OF f] show ?case by (auto simp: count_step_eq Let_def split: if_splits) }
  { case 2 with f snoc.IH(1) [OF f] snoc.IH(2) [OF _ f] show ?case by (auto simp: count_step_eq Let_def split: if_splits) }
  { case 3 with f snoc.IH(1) [OF f] snoc.IH(3) [OF _ f] show ?case by (auto simp: count_step_eq Let_def split: if_splits) }
qed auto


definition sample_poll :: "int \<Rightarrow> (int, unit) poll" where
  "sample_poll x = (plain_env, int_sample 9 x, [], int_sample 0 0, int_sample 0 0)"

lemma poll_match_above:
  "- (2 ^ 63) \<le> x \<Longrightarrow> x < 2 ^ 63 \<Longrightarrow> - (2 ^ 63) \<le> k \<Longrightarrow> k < 2 ^ 63 \<Longrightarrow>
     poll_match (above k n d) (sample_poll x) = Some (k < x)"
  using sint_of_int_range [where 'a = 64, of x] sint_of_int_range [where 'a = 64, of k]
  by (simp add: poll_match_def sample_poll_def concrete_check)

lemma above_simps [simp]:
  "counts_polls (above k n d)" "counters (above k n d) = (False, 0, 0)"
  "t_sampleCount (above k n d) = n" "t_deactivationSampleCount (above k n d) = d"
  by (simp_all add: counts_polls_def counters_def above_def new_threshold_def)


lemma count_up:
  "0 \<le> m \<Longrightarrow> m + int k < n \<Longrightarrow>
     foldl (count_step n d) (False, m, 0) (replicate k True) = (False, m + int k, 0)"
  by (induction k arbitrary: m) (auto simp: count_step_eq Let_def)

lemma count_clear_by_matches:
  "0 \<le> m \<Longrightarrow> m + int k < n \<Longrightarrow> 1 < d \<Longrightarrow> c + int k < d \<Longrightarrow>
     foldl (count_step n d) (True, m, c) (replicate k True) = (True, m + int k, c + int k)"
  by (induction k arbitrary: m c) (auto simp: count_step_eq Let_def)

lemma count_premature:
  assumes "2 \<le> d" "d \<le> n"
  shows "foldl (count_step n d) (False, 0, 0) (replicate (nat n) True @ [False] @ replicate (nat d - 2) True)
      = (True, d - 2, d - 1)"
    "foldl (count_step n d) (False, 0, 0) (replicate (nat n) True @ [False] @ replicate (nat d - 1) True)
      = (False, d - 1, d)"
proof -
  obtain b where b: "d = int b + 2" using assms zle_iff_zadd [of 2 d] by auto
  obtain a where a: "n = int a + 1" using assms zle_iff_zadd [of 1 n] by auto
  have n: "replicate (nat n) True = replicate a True @ [True]"
    by (simp add: a nat_add_distrib replicate_append_same)
  have d: "replicate (nat d - 1) True = replicate b True @ [True]" "nat d - 2 = b"
    by (simp_all add: b nat_add_distrib replicate_append_same)
  have ab: "int b + 1 \<le> int a" using assms by (simp add: a b)
  show "foldl (count_step n d) (False, 0, 0) (replicate (nat n) True @ [False] @ replicate (nat d - 2) True)
      = (True, d - 2, d - 1)"
    "foldl (count_step n d) (False, 0, 0) (replicate (nat n) True @ [False] @ replicate (nat d - 1) True)
      = (False, d - 1, d)"
    unfolding n d using ab by (simp_all add: a b count_up count_clear_by_matches count_step_eq Let_def)
qed

text \<open>
  With a sample count and a deactivation count together, polls that match count as
  non-matching: after \<open>n\<close> matching polls have activated the threshold, a single poll that
  does not match followed by \<open>d - 1\<close> matching ones deactivates it, for every \<open>d\<close> from 2 to
  \<open>n\<close>, although no two consecutive polls failed to match.
\<close>

theorem threshold_premature_deactivation:
  assumes "counts_polls th" "counters th = (False, 0, 0)"
    and "2 \<le> t_deactivationSampleCount th" "t_deactivationSampleCount th \<le> t_sampleCount th"
    and "map (poll_match th) ps = map Some (replicate (nat (t_sampleCount th)) True @ [False] @
           replicate (nat (t_deactivationSampleCount th) - 1) True)"
  shows "\<exists>rs th' rs1 th1. run_checks ps th = Inr (rs, th') \<and> \<not> t_isReached th' \<and>
    run_checks (butlast ps) th = Inr (rs1, th1) \<and> t_isReached th1"
proof -
  let ?n = "t_sampleCount th" and ?d = "t_deactivationSampleCount th"
  let ?pre = "replicate (nat ?n) True @ [False] @ replicate (nat ?d - 2) True"
  have "nat ?d - 1 = Suc (nat ?d - 2)" using assms(3) by linarith
  then have k: "replicate (nat ?d - 1) True = replicate (nat ?d - 2) True @ [True]"
    by (simp only: replicate_append_same replicate_Suc)
  have "map (poll_match th) (butlast ps) = map Some (butlast (replicate (nat ?n) True @ [False] @
           replicate (nat ?d - 1) True))"
    using assms(5) by (simp add: map_butlast)
  also have "butlast (replicate (nat ?n) True @ [False] @ replicate (nat ?d - 1) True) = ?pre"
    unfolding k by (simp add: butlast_append)
  finally have "\<exists>rs1 th1. run_checks (butlast ps) th = Inr (rs1, th1) \<and> t_isReached th1"
    using run_checks_fresh [OF assms(1,2) _ count_premature(1) [OF assms(3,4)]] by blast
  moreover have "\<exists>rs th'. run_checks ps th = Inr (rs, th') \<and> \<not> t_isReached th'"
    using run_checks_fresh [OF assms(1,2,5) count_premature(2) [OF assms(3,4)]] by blast
  ultimately show ?thesis by blast
qed

theorem threshold_premature_deactivation_witness:
  "\<exists>rs th' rs1 th1. run_checks (map sample_poll [8, 8, 8, 3, 8, 8]) (above 5 3 3) = Inr (rs, th') \<and>
     \<not> t_isReached th' \<and>
     run_checks (butlast (map sample_poll [8, 8, 8, 3, 8, 8])) (above 5 3 3) = Inr (rs1, th1) \<and> t_isReached th1"
  by (rule threshold_premature_deactivation) (simp_all add: poll_match_above numeral_3_eq_3)

section \<open>Faults\<close>

text \<open>
  Every integer type divides by a positive sample count; the parameter law is that floating
  point division does not trap.
\<close>

definition dbl_total :: "'d dbl \<Rightarrow> bool" where
  "dbl_total D \<longleftrightarrow> (\<forall>a b. \<exists>q. c_div (d_num D) a b = Inr q)"

definition ok :: "'e + 'a \<Rightarrow> bool" where
  "ok r \<longleftrightarrow> (\<exists>x. r = Inr x)"

lemma ok_simps [simp]: "ok (Inr x)" "\<not> ok (Inl e)"
  by (simp_all add: ok_def)

lemma ok_bind: "ok r \<Longrightarrow> (\<And>x. r = Inr x \<Longrightarrow> ok (f x)) \<Longrightarrow> ok (sum_bind r f)"
  by (auto simp: ok_def)

definition div_ok :: "'t cnum \<Rightarrow> int \<Rightarrow> bool" where
  "div_ok N n \<longleftrightarrow> (\<forall>a. ok (c_div N a (c_of_int N n)))"

context int_type
begin

lemma div_positive: "1 \<le> n \<Longrightarrow> n \<le> hi \<Longrightarrow> div_ok N n"
  unfolding div_ok_def using val_div [of "c_of_int N n"] val_of_int [of n] zero_range
  by (fastforce simp: ok_def)

end

lemma div_ok_int:
  assumes "1 \<le> n" "n < 2 ^ 31"
  shows "div_ok (signed_num :: u32 cnum) n" "div_ok (unsigned_num :: u32 cnum) n"
    "div_ok (signed_num :: u64 cnum) n" "div_ok (unsigned_num :: u64 cnum) n"
  using assms by (intro i32.div_positive u32.div_positive i64.div_positive u64.div_positive; simp)+

lemma ok_templates:
  assumes "nat (n - 1) \<le> length prev"
  shows "ok (CalculateSum_t N cast lastValue prev n)"
    "div_ok N n \<Longrightarrow> ok (CalculateAverage_t N cast lastValue prev n)"
    "div_ok N n \<Longrightarrow> ok (CalculateMeanDeviation_t N cast lastValue prev n)"
    "div_ok N n \<Longrightarrow> ok (CalculateAbsoluteDeviation_t N cast lastValue prev n)"
  using assms
  by (auto simp: CalculateSum_t_def CalculateAverage_t_def CalculateMeanDeviation_t_def
      CalculateAbsoluteDeviation_t_def prev_samples_def div_ok_def intro!: ok_bind)

lemma ok_store:
  assumes "ok a" "ok b" "ok c" "ok d" "ok e"
  shows "ok (store_by_type D dt a b c d e r)"
  using assms by (auto simp: store_by_type_def dt_switch_def intro!: ok_bind)

lemma ok_placeholder: "n \<le> length prev \<Longrightarrow> ok (placeholder_in n prev)"
  by (induction n prev rule: placeholder_in.induct) auto

lemma required_size_int:
  assumes "1 \<le> t_sampleCount th" "t_sampleCount th < 2 ^ 31" "t_function th \<notin> {F_LAST, F_ERROR}"
  shows "int (getRequiredCacheSize th) = t_sampleCount th"
  using assms by (simp add: getRequiredCacheSize_def uint_word_of_int)

lemma ok_eval_function:
  assumes "1 \<le> t_sampleCount th" "t_sampleCount th < 2 ^ 31" "getRequiredCacheSize th \<le> length prev"
    "dbl_total (e_dbl E)"
  shows "ok (eval_function E th val prev f)"
proof (cases "t_function th \<in> {F_LAST, F_ERROR}")
  case True
  then show ?thesis by (auto simp: eval_function_def Let_def)
next
  case False
  with assms required_size_int have s: "t_sampleCount th \<le> int (length prev)" by fastforce
  have n: "nat (t_sampleCount th - 1) \<le> length prev" using s by linarith
  have d: "div_ok (d_num (e_dbl E)) (t_sampleCount th)"
    using assms(4) by (simp add: dbl_total_def div_ok_def ok_def)
  note t = ok_templates [OF n] div_ok_int [OF assms(1,2)] d
  have "ok (calculateAverage (e_dbl E) th val prev f)" "ok (calculateTotal (e_dbl E) th val prev f)"
    "ok (calculateMeanDeviation (e_dbl E) th val prev f)"
    "ok (calculateAbsoluteDeviation (e_dbl E) th val prev f)"
    unfolding calculateAverage_def calculateTotal_def calculateMeanDeviation_def
      calculateAbsoluteDeviation_def Let_def by (intro ok_store t)+
  moreover have "ok (case prev of [] \<Rightarrow> Inl Bad_access
      | p # _ \<Rightarrow> Inr (CalculateItemValueDiff (e_dbl E) (t_dataType th) val p f))"
    using assms(1) s by (cases prev) auto
  ultimately show ?thesis by (simp add: eval_function_def Let_def)
qed

lemma check_ok:
  assumes "1 \<le> t_sampleCount th" "t_sampleCount th < 2 ^ 31" "getRequiredCacheSize th \<le> length prev"
    "dbl_total (e_dbl E)"
  shows "ok (check E th val prev f t)"
proof -
  have "ok (not_enough_data th prev)"
  proof (cases "t_function th \<in> {F_LAST, F_ERROR}")
    case False
    with assms required_size_int have s: "t_sampleCount th \<le> int (length prev)" by fastforce
    have "ok (placeholder_in 1 prev)" "ok (placeholder_in (nat (t_sampleCount th - 1)) prev)"
      using assms(1) s by (auto intro!: ok_placeholder)
    then show ?thesis by (auto simp: not_enough_data_def)
  qed (auto simp: not_enough_data_def)
  then show ?thesis
    using ok_eval_function [OF assms, of val f]
    by (auto simp: check_def Let_def split: prod.splits intro!: ok_bind)
qed

text \<open>
  C16. Safety of a check: when the sample count is positive and the cache holds as many
  values as \<^verbatim>\<open>getRequiredCacheSize\<close> asks for, the check returns a result: it reads no
  value past the cache and divides by no zero, whatever the function and the data type are.
\<close>

theorem check_returns:
  assumes "1 \<le> t_sampleCount th" "t_sampleCount th < 2 ^ 31" "getRequiredCacheSize th \<le> length prev"
    "dbl_total (e_dbl E)"
  shows "\<exists>out. check E th val prev f t = Inr out"
  using check_ok [OF assms] by (simp add: ok_def)

theorem check_returns_witness:
  "\<exists>out. check plain_env ((above 5 2 1)\<lparr> t_function := F_AVERAGE \<rparr>) (int_sample 9 8)
     [int_sample 8 7, int_sample 7 7] (int_sample 0 0) (int_sample 0 0) = Inr out"
  by (rule check_returns)
    (simp_all add: above_def plain_env_def whole_dbl_def dbl_total_def getRequiredCacheSize_def)

lemma zero_templates:
  assumes "\<And>a. c_div N a (c_of_int N 0) = Inl Div_zero"
  shows "CalculateAverage_t N cast lastValue prev 0 = Inl Div_zero"
    "CalculateMeanDeviation_t N cast lastValue prev 0 = Inl Div_zero"
    "CalculateAbsoluteDeviation_t N cast lastValue prev 0 = Inl Div_zero"
  using assms by (simp_all add: CalculateSum_t_def CalculateAverage_t_def CalculateMeanDeviation_t_def
      CalculateAbsoluteDeviation_t_def prev_samples_def)

lemma store_fault:
  "integer_type dt \<Longrightarrow> store_by_type D dt (Inl e) (Inl e) (Inl e) (Inl e) r x = Inl e"
  by (auto simp: store_by_type_def integer_type_def dt_switch_def)

lemmas zero_division = i32.div_zero u32.div_zero i64.div_zero u64.div_zero

lemma updateFromMessage_simps:
  "t_sampleCount (updateFromMessage E msg baseId th) = m_i32 msg (baseId + 5)"
  "t_function (updateFromMessage E msg baseId th) = unat (m_u16 msg (baseId + 3)) mod 256"
  "t_disabled (updateFromMessage E msg baseId th) = m_bool msg (baseId + 9)"
  "t_dataType (updateFromMessage E msg baseId th) = t_dataType th"
  by (simp_all add: updateFromMessage_def setScript_def Let_def split: option.splits)

text \<open>
  C38. A client message is not checked for the sample count: with a count of zero and the
  average, mean deviation or absolute deviation function, the next check of a value of an
  integer type divides by zero.
\<close>

theorem zero_sample_count_traps:
  assumes "integer_type (t_dataType th)" "m_i32 msg (baseId + 5) = 0" "\<not> m_bool msg (baseId + 9)"
    and "unat (m_u16 msg (baseId + 3)) \<in> {F_AVERAGE, F_MEAN_DEVIATION, F_ABS_DEVIATION}"
  shows "check E (updateFromMessage E msg baseId th) val prev f t = Inl Div_zero"
proof -
  let ?th = "updateFromMessage E msg baseId th"
  have f: "t_function ?th \<in> {F_AVERAGE, F_MEAN_DEVIATION, F_ABS_DEVIATION}"
    using assms(4) by (auto simp: updateFromMessage_simps)
  have c: "t_sampleCount ?th = 0" "\<not> t_disabled ?th" "integer_type (t_dataType ?th)"
    using assms by (simp_all add: updateFromMessage_simps)
  have n: "not_enough_data ?th prev = Inr False" using f c by (auto simp: not_enough_data_def)
  have "calculateAverage D ?th val prev f = Inl Div_zero"
    "calculateMeanDeviation D ?th val prev f = Inl Div_zero"
    "calculateAbsoluteDeviation D ?th val prev f = Inl Div_zero" for D
    using c by (simp_all add: calculateAverage_def calculateMeanDeviation_def
        calculateAbsoluteDeviation_def store_fault zero_templates zero_division)
  then have "eval_function E ?th val prev f = Inl Div_zero"
    using f by (auto simp: eval_function_def Let_def)
  then show ?thesis using n c by (simp add: check_def)
qed

definition zero_count_message :: nxcp_fields where
  "zero_count_message = \<lparr> m_u16 = (\<lambda>i. if i = 103 then 1 else 0), m_u32 = (\<lambda>_. 0), m_i32 = (\<lambda>_. 0),
     m_str = (\<lambda>_. None), m_bool = (\<lambda>_. False) \<rparr>"

theorem zero_sample_count_traps_witness:
  "check plain_env (updateFromMessage plain_env zero_count_message 100 (above 5 1 1)) (int_sample 9 8)
     [] (int_sample 0 0) (int_sample 0 0) = Inl Div_zero"
  by (rule zero_sample_count_traps)
    (simp_all add: zero_count_message_def above_def new_threshold_def integer_type_def)

section \<open>Shadow copies\<close>

text \<open>The compiled script is that of the stored source, as every constructor leaves it.\<close>

definition script_loaded :: "('d, 's) dc_env \<Rightarrow> ('d, 's) threshold \<Rightarrow> bool" where
  "script_loaded E th = (case t_scriptSource th of
      None \<Rightarrow> t_script th = None
    | Some s \<Rightarrow> TrimW s = s \<and> t_script th = (if s \<noteq> [] then e_compile E s else None))"

lemma copy_threshold_frame:
  assumes "script_loaded E th"
  shows "copy_threshold E i th True =
    th\<lparr> t_lastCheckValue := new_value (e_dbl E) (e_now_ms E), t_lastEventMessage := None \<rparr>"
proof (cases "t_scriptSource th")
  case None
  with assms show ?thesis by (cases th) (simp add: copy_threshold_def setScript_def script_loaded_def)
next
  case (Some sc)
  with assms show ?thesis by (cases th) (simp add: copy_threshold_def setScript_def script_loaded_def Let_def)
qed

lemma check_last:
  assumes "\<not> t_disabled th" "t_function th = F_LAST"
  shows "check E th val prev f t =
    Inr (finish_check (compare_values E (t_operation th) (t_dataType th) (t_dataType th) val (threshold_value E th))
      th val (threshold_value E th) [])"
  using assms by (simp add: check_def not_enough_data_def eval_function_def eval_condition_def compare_type_def)

text \<open>
  A shadow copy that is reconciled back without any check between restores every member
  but the last checked value, which it clears; and a check on the copy of an active
  threshold with regeneration on value change reports a changed value although the same
  check on the threshold itself reports none.
\<close>

theorem shadow_copy_loses_last_value:
  assumes "script_loaded E th"
    and "t_function th = F_LAST" "t_regenerateOnValueChange th" "v_string val \<noteq> []"
    and "check E th val prev f t = Inr (ALREADY_ACTIVE, th', f', t', eff)"
  shows "reconcile th (copy_threshold E i th True) = th\<lparr> t_lastCheckValue := new_value (e_dbl E) (e_now_ms E) \<rparr> \<and>
    (\<exists>th''. check E (copy_threshold E i th True) val prev f t = Inr (VALUE_CHANGED, th'', f', t', eff))"
proof -
  note cp = copy_threshold_frame [OF assms(1)]
  have d: "\<not> t_disabled th" using assms(5) by (auto simp: check_def Let_def split: if_splits)
  let ?tv = "threshold_value E th"
  let ?mat = "compare_values E (t_operation th) (t_dataType th) (t_dataType th) val ?tv"
  have "finish_check ?mat th val ?tv [] = (ALREADY_ACTIVE, th', f', t', eff)"
    using assms(5) check_last [OF d assms(2), of E val prev f t] by simp
  then have "\<exists>th''. finish_check ?mat (copy_threshold E i th True) val ?tv [] = (VALUE_CHANGED, th'', f', t', eff)"
    using assms(2-4) by (simp add: cp finish_check_def count_matches_def count_clears_def
        transition_result_def state_update_def new_value_def Let_def split: if_splits)
  moreover have "threshold_value E (copy_threshold E i th True) = ?tv" by (simp add: cp threshold_value_def)
  ultimately have "\<exists>th''. check E (copy_threshold E i th True) val prev f t = Inr (VALUE_CHANGED, th'', f', t', eff)"
    using assms(2) d by (subst check_last) (simp_all add: cp)
  then show ?thesis unfolding cp by (cases th) (simp add: reconcile_def)
qed

theorem shadow_copy_loses_last_value_witness:
  "\<exists>th'' f' t' eff. check plain_env (copy_threshold plain_env 0 ((above 5 1 1)\<lparr> t_isReached := True,
       t_regenerateOnValueChange := True, t_lastCheckValue := int_sample 4 8 \<rparr>) True)
     (int_sample 9 8) [] (int_sample 0 0) (int_sample 0 0) = Inr (VALUE_CHANGED, th'', f', t', eff)"
proof -
  let ?th = "(above 5 1 1)\<lparr> t_isReached := True, t_regenerateOnValueChange := True,
    t_lastCheckValue := int_sample 4 8 \<rparr>"
  have s: "v_string (int_sample i x) = SignedIntegerToString (sint (word_of_int x :: u64)) 10" for i x
    by (simp add: int_sample_def set_text)
  have c: "\<exists>th' f' t' eff. check plain_env ?th (int_sample 9 8) [] (int_sample 0 0) (int_sample 0 0) =
      Inr (ALREADY_ACTIVE, th', f', t', eff)"
    by (simp add: concrete_check s)
  have h: "script_loaded plain_env ?th" "t_function ?th = F_LAST" "t_regenerateOnValueChange ?th"
      "v_string (int_sample 9 8) \<noteq> []"
    by (simp_all add: script_loaded_def above_def new_threshold_def s SignedIntegerToString_def digits_rev.simps)
  from c obtain th' f' t' eff where "check plain_env ?th (int_sample 9 8) [] (int_sample 0 0) (int_sample 0 0) =
      Inr (ALREADY_ACTIVE, th', f', t', eff)" by blast
  from shadow_copy_loses_last_value [OF h this, of 0] show ?thesis by blast
qed

end
