(* ===== verification/Nx_Threshold_Laws.thy ===== *)
theory Nx_Threshold_Laws
  imports Nx_Threshold
begin

text \<open>
  Laws of thresholds beyond one check: the condition of a difference threshold for each
  integer type, and what a threshold keeps over a restart of the server (\<^verbatim>\<open>saveToDB\<close> and
  the constructor from a database row in \<^verbatim>\<open>src/src/server/core/dcithreshold.cpp\<close>).
\<close>

section \<open>Difference thresholds\<close>

lemma poll_match_diff:
  assumes "t_function th = F_DIFF" "v_timestamp p \<noteq> 1"
  shows "poll_match th (E, cur, p # ps, f, t) =
    Some (compare_values E (t_operation th) (compare_type th) (t_dataType th)
      (CalculateItemValueDiff (e_dbl E) (t_dataType th) cur p f) (threshold_value E th))"
  using assms by (simp add: poll_match_def not_enough_data_def eval_function_def eval_condition_def)

lemma ucast_of_int_u32: "(ucast (word_of_int k :: u64) :: u32) = word_of_int k"
  by (rule bit_word_eqI) (simp add: bit_simps)

lemma diff_uint32_low:
  assumes "uint a < uint (b :: u32)"
  shows "uint (ucast (diff_uint32 a b) :: u32) = 2 ^ 32 - (uint b - uint a)"
proof -
  have "ucast (diff_uint32 a b) = (word_of_int (uint a - uint b) :: u32)"
    unfolding diff_uint32_word by (rule ucast_of_int_u32)
  also have "\<dots> = a - b" by (simp only: of_int_diff word_of_int_uint)
  finally show ?thesis using assms uint_sub_if' [of a b] by simp
qed



section \<open>Restart\<close>

definition storable :: "('d, 's) dc_env \<Rightarrow> ('d, 's) threshold \<Rightarrow> bool" where
  "storable E th \<longleftrightarrow>
     length (v_string (t_value th)) < MAX_DB_STRING \<and>
     length (v_string (t_lastCheckValue th)) < MAX_DB_STRING \<and>
     t_expandValue th = (NumCharsW (v_string (t_value th)) 37 > 0) \<and>
     t_function th < 256 \<and> t_operation th < 256 \<and> t_currentSeverity th < 256 \<and>
     t_sampleCount th \<ge> 1 \<and> t_deactivationSampleCount th \<ge> 1 \<and> script_loaded E th \<and>
     0 \<le> t_lastEventTimestamp th \<and> t_lastEventTimestamp th < 2 ^ 32 \<and>
     (case t_lastEventMessage th of None \<Rightarrow> True | Some m \<Rightarrow> m \<noteq> [] \<and> length m < MAX_EVENT_MSG_LENGTH)"

lemma wcslcpy_short [simp]: "length s < n \<Longrightarrow> wcslcpy s n = s"
  by (simp add: wcslcpy_def)

lemma value_of_string_text: "length s < MAX_DB_STRING \<Longrightarrow> v_string (value_of_string D now s ts b) = s"
  by (simp add: value_of_string_def parseStringValue_def wcslcpy_def Let_def split: prod.splits)

lemma setScript_loaded:
  assumes "script_loaded E th"
  shows "setScript E (t_scriptSource th) u =
    u\<lparr> t_scriptSource := t_scriptSource th, t_script := t_script th, t_lastScriptErrorReport := 0 \<rparr>"
  using assms by (cases "t_scriptSource th") (simp_all add: setScript_def script_loaded_def Let_def)

text \<open>
  C31. A threshold survives a restart: reading back the row that \<^verbatim>\<open>saveToDB\<close> wrote restores
  the configuration, the state, both counters, the severity and the last event; only the
  number forms of the two values are read again from their text, the script error report is
  allowed at once and the activation sequence starts from zero.
\<close>

theorem threshold_restart:
  assumes "storable E th"
  shows "load_threshold E (saveToDB th index) (t_itemId th) (t_targetId th) (t_dataType th) =
    th\<lparr> t_value := value_of_string (e_dbl E) (e_now_ms E) (v_string (t_value th)) 0 True,
      t_lastCheckValue := set_string (e_dbl E) (Some (v_string (t_lastCheckValue th))) False
        (new_value (e_dbl E) (e_now_ms E)),
      t_lastScriptErrorReport := 0, t_activationSequence := 0 \<rparr>"
proof -
  have s: "script_loaded E th" using assms by (simp add: storable_def)
  have t: "uint (word_of_int (t_lastEventTimestamp th) :: u32) = t_lastEventTimestamp th"
    using assms by (simp add: storable_def uint_word_of_int)
  have m: "(case t_lastEventMessage th of None \<Rightarrow> [] | Some m \<Rightarrow> wcslcpy m MAX_EVENT_MSG_LENGTH) \<noteq> []
      \<longleftrightarrow> t_lastEventMessage th \<noteq> None"
    "t_lastEventMessage th \<noteq> None \<Longrightarrow>
      Some (case t_lastEventMessage th of None \<Rightarrow> [] | Some m \<Rightarrow> wcslcpy m MAX_EVENT_MSG_LENGTH) =
      t_lastEventMessage th"
    using assms by (auto simp: storable_def split: option.splits)
  show ?thesis
    using assms m t
    by (simp add: load_threshold_def saveToDB_def Let_def setScript_loaded [OF s] value_of_string_text
        storable_def new_threshold_def)
qed

theorem threshold_restart_witness:
  "t_isReached (load_threshold plain_env (saveToDB ((above 5 1 1)\<lparr> t_isReached := True \<rparr>) 3) 1 2 DCI_DT_INT64)"
proof -
  have "storable plain_env ((above 5 1 1)\<lparr> t_isReached := True \<rparr>)"
    by (simp add: storable_def above_def new_threshold_def script_loaded_def int_sample_def set_text
        new_value_def NumCharsW_def SignedIntegerToString_def digits_rev.simps digit_char_def)
  from threshold_restart [OF this, of 3] show ?thesis by (simp add: above_def new_threshold_def)
qed

end
