(* ===== verification/Nx_DCItem.thy ===== *)
theory Nx_DCItem
  imports Nx_Threshold
begin

text \<open>
  Data collection items: the parts of \<^verbatim>\<open>class DCItem\<close>
  (\<^verbatim>\<open>src/src/server/core/dcitem.cpp\<close>) that turn collected values into threshold events.
  The record \<open>dcitem\<close> has the members these methods use; a null threshold array is the empty
  list. Events, scheduled repeats, client notifications and queued database requests are the
  list of effects a method returns, in order. The name, description and instance parameters
  of an event are constants of the item and left out. What the item takes from its owner and
  from the server configuration is the record \<open>item_env\<close>.
\<close>

section \<open>State\<close>

abbreviation (input) "DCF_DETECT_ANOMALIES_IFOREST \<equiv> (0x1 :: u32)"
abbreviation (input) "DCF_ALL_THRESHOLDS \<equiv> (0x2 :: u32)"
abbreviation (input) "DCF_TRANSFORM_AGGREGATED \<equiv> (0x100 :: u32)"
abbreviation (input) "DCF_DETECT_ANOMALIES_AI \<equiv> (0x200 :: u32)"
abbreviation (input) "DCF_CALCULATE_NODE_STATUS \<equiv> (0x400 :: u32)"
abbreviation (input) "DCF_STORE_CHANGES_ONLY \<equiv> (0x40000 :: u32)"

abbreviation (input) "SEVERITY_CRITICAL \<equiv> (4 :: nat)"

definition flag_set :: "u32 \<Rightarrow> u32 \<Rightarrow> bool" where
  "flag_set flags f \<longleftrightarrow> flags AND f \<noteq> 0"

record ('d, 's) dcitem =
  i_id :: u32
  i_ownerId :: u32
  i_hasOwner :: bool
  i_flags :: u32
  i_disabled :: bool
  i_dataType :: nat
  i_transformedDataType :: nat
  i_deltaCalculation :: nat
  i_thresholds :: "('d, 's) threshold list"
  i_cache :: "'d item_value list"
  i_cacheLoaded :: bool
  i_requiredCacheSize :: nat
  i_errorCount :: u32
  i_lastValueTimestamp :: int
  i_prevValueTimeStamp :: int
  i_prevRawValue :: "'d item_value"
  i_prevDeltaValue :: u64
  i_allThresholdsRearmEvent :: u32
  i_thresholdDisableEndTime :: int
  i_sampleSaveInterval :: int
  i_sampleSaveCounter :: int
  i_scriptSource :: "wstr option"
  i_script :: "'s option"
  i_lastScriptErrorReport :: int
  i_anomalyDetected :: bool
  i_anomalyDetectedAI :: bool
  i_retentionNone :: bool
  i_watermark :: int
  i_relatedObject :: u32
  i_systemTag :: wstr

text \<open>
  The result of a transformation script: the forms in which the item may read its value, or
  no value, and whether it is a special code for an error.
\<close>

record 'd nxsl_value =
  n_i32 :: u32
  n_u32 :: u32
  n_i64 :: u64
  n_u64 :: u64
  n_real :: 'd
  n_str :: "wstr option"

datatype 'd transform_outcome =
    Tr_no_vm
  | Tr_empty
  | Tr_aborted
  | Tr_failed
  | Tr_result bool "'d nxsl_value option"

record ('d, 's) item_env =
  x_dc :: "('d, 's) dc_env"
  x_repeat_interval :: u32
  x_is_target :: bool
  x_is_cluster :: bool
  x_aggregate_on_cluster :: bool
  x_prototype :: bool
  x_condition_sizes :: "nat list"
  x_offline_relevance :: int
  x_iforest :: bool
  x_ai :: bool
  x_transform :: "'s \<Rightarrow> 'd item_value \<Rightarrow> 'd transform_outcome"
  x_storage_driver :: bool
  x_aggregation_active :: bool
  x_polling_interval :: nat
  x_load_always :: bool
  x_iface_speed :: "u32 \<Rightarrow> u64 option"

text \<open>What the callback of a posted event stores in the threshold.\<close>

datatype mark = Mark_event | Mark_normal | No_mark

datatype i_effect =
    Post_event u32 "u32 option" wstr wstr wstr "bool option" mark
  | Schedule_repeat u32 u64 u32
  | Notify_clients u32 ThresholdCheckResult
  | From_threshold t_effect
  | Script_report
  | Raw_update int wstr wstr int bool
  | Data_insert int wstr wstr
  | Watermark_update int
  | Driver_request int wstr
  | Set_utilization u32 bool u32

section \<open>Threshold evaluation\<close>

definition repeat_interval :: "('d, 's) item_env \<Rightarrow> ('d, 's) threshold \<Rightarrow> u32" where
  "repeat_interval X t =
     (if t_repeatInterval t = - 1 then x_repeat_interval X else word_of_int (t_repeatInterval t))"

definition schedule_repeat ::
  "('d, 's) item_env \<Rightarrow> ('d, 's) threshold \<Rightarrow> ('d, 's) threshold \<times> i_effect list" where
  "schedule_repeat X t =
     (if repeat_interval X t > 0 then
        (let t' = t\<lparr> t_activationSequence := t_activationSequence t + 1 \<rparr>
         in (t', [Schedule_repeat (t_id t) (t_activationSequence t') (repeat_interval X t)]))
      else (t, []))"

definition all_thresholds :: "('d, 's) dcitem \<Rightarrow> bool" where
  "all_thresholds it = flag_set (i_flags it) DCF_ALL_THRESHOLDS"

text \<open>
  The three local flags of the loop: an active threshold was seen, one was deactivated, and
  the activation event of the next active one has to be sent again. \<open>react\<close> is the switch on
  the result of one check; its first component tells whether the loop goes on.
\<close>

record loop_flags =
  l_hasActive :: bool
  l_deactivated :: bool
  l_resend :: bool

definition react ::
  "('d, 's) item_env \<Rightarrow> ('d, 's) dcitem \<Rightarrow> wstr \<Rightarrow> ThresholdCheckResult \<Rightarrow> ('d, 's) threshold \<Rightarrow> wstr \<Rightarrow> wstr \<Rightarrow>
   loop_flags \<Rightarrow> bool \<times> ('d, 's) threshold \<times> loop_flags \<times> i_effect list" where
  "react X it dciValue res t thresholdValue currentValue l =
     (case res of
        DEACTIVATED \<Rightarrow>
          (True, t,
           l\<lparr> l_deactivated := True, l_resend := l_resend l \<or> \<not> all_thresholds it \<rparr>,
           [Post_event (t_rearmEventCode t) (Some (t_id t)) thresholdValue currentValue dciValue None Mark_normal,
            Notify_clients (t_id t) res])
      | ALREADY_ACTIVE \<Rightarrow>
          (all_thresholds it, t, l\<lparr> l_hasActive := True, l_resend := False \<rparr>,
           if l_resend l then
             [Post_event (t_eventCode t) (Some (t_id t)) thresholdValue currentValue dciValue (Some True) Mark_event]
           else [])
      | ALREADY_INACTIVE \<Rightarrow> (True, t, l, [])
      | _ \<Rightarrow>
          (let (t', sched) = schedule_repeat X t
           in (all_thresholds it, t', l\<lparr> l_hasActive := True \<rparr>,
               Post_event (t_eventCode t) (Some (t_id t)) thresholdValue currentValue dciValue (Some False) Mark_event #
               sched @ [Notify_clients (t_id t) res])))"

text \<open>The values a check writes are default constructed for each threshold.\<close>

definition item_check ::
  "('d, 's) item_env \<Rightarrow> ('d, 's) dcitem \<Rightarrow> 'd item_value \<Rightarrow> ('d, 's) threshold \<Rightarrow> fault + ('d, 's) check_out" where
  "item_check X it val t =
     (let E = (x_dc X)\<lparr> e_anomaly := i_anomalyDetected it \<rparr>; v0 = new_value (e_dbl E) (e_now_ms E)
      in check E t val (i_cache it) v0 v0)"

fun check_loop ::
  "('d, 's) item_env \<Rightarrow> ('d, 's) dcitem \<Rightarrow> 'd item_value \<Rightarrow> loop_flags \<Rightarrow> ('d, 's) threshold list \<Rightarrow>
   fault + (('d, 's) threshold list \<times> loop_flags \<times> i_effect list)" where
  "check_loop X it val l [] = Inr ([], l, [])"
| "check_loop X it val l (t # ts) =
     sum_bind (item_check X it val t) (\<lambda>(res, t1, cv, tv, eff).
       let t2 = t1\<lparr> t_lastCheckValue := cv \<rparr>;
           (goes_on, t3, l', eff') = react X it (v_string val) res t2 (v_string tv) (v_string cv) l;
           now = map From_threshold eff @ eff'
       in if goes_on then
            sum_bind (check_loop X it val l' ts) (\<lambda>(ts', l'', eff''). Inr (t3 # ts', l'', now @ eff''))
          else Inr (t3 # ts, l', now))"

definition new_flags :: loop_flags where
  "new_flags = \<lparr> l_hasActive = False, l_deactivated = False, l_resend = False \<rparr>"

definition rearm_event :: "('d, 's) dcitem \<Rightarrow> wstr \<Rightarrow> loop_flags \<Rightarrow> i_effect list" where
  "rearm_event it dciValue l =
     (if l_deactivated l \<and> \<not> l_hasActive l \<and> i_allThresholdsRearmEvent it \<noteq> 0
      then [Post_event (i_allThresholdsRearmEvent it) None [] [] dciValue None No_mark] else [])"

definition checkThresholds ::
  "('d, 's) item_env \<Rightarrow> 'd item_value \<Rightarrow> ('d, 's) dcitem \<Rightarrow> fault + (('d, 's) dcitem \<times> i_effect list)" where
  "checkThresholds X val it =
     sum_bind (check_loop X it val new_flags (i_thresholds it)) (\<lambda>(ts, l, eff).
       Inr (it\<lparr> i_thresholds := ts \<rparr>, eff @ rearm_event it (v_string val) l))"

section \<open>Collection errors\<close>

definition react_error ::
  "('d, 's) item_env \<Rightarrow> ('d, 's) dcitem \<Rightarrow> ThresholdCheckResult \<Rightarrow> ('d, 's) threshold \<Rightarrow>
   loop_flags \<Rightarrow> bool \<times> ('d, 's) threshold \<times> loop_flags \<times> i_effect list" where
  "react_error X it res t l =
     (case res of
        ACTIVATED \<Rightarrow>
          (let (t', sched) = schedule_repeat X t
           in (all_thresholds it, t', l\<lparr> l_hasActive := True \<rparr>,
               Post_event (t_eventCode t) None [] [] [] (Some False) Mark_event #
               sched @ [Notify_clients (t_id t) res]))
      | DEACTIVATED \<Rightarrow>
          (True, t, l\<lparr> l_deactivated := True \<rparr>,
           [Post_event (t_rearmEventCode t) None [] [] [] None Mark_normal, Notify_clients (t_id t) res])
      | ALREADY_ACTIVE \<Rightarrow> (all_thresholds it, t, l\<lparr> l_hasActive := True \<rparr>, [])
      | _ \<Rightarrow> (True, t, l, []))"

fun error_loop ::
  "('d, 's) item_env \<Rightarrow> ('d, 's) dcitem \<Rightarrow> loop_flags \<Rightarrow> ('d, 's) threshold list \<Rightarrow>
   ('d, 's) threshold list \<times> loop_flags \<times> i_effect list" where
  "error_loop X it l [] = ([], l, [])"
| "error_loop X it l (t # ts) =
     (let (res, t1, eff) = checkError (i_errorCount it) t;
          (goes_on, t2, l', eff') = react_error X it res t1 l;
          now = map From_threshold eff @ eff'
      in if goes_on then
           (let (ts', l'', eff'') = error_loop X it l' ts in (t2 # ts', l'', now @ eff''))
         else (t2 # ts, l', now))"

definition processNewError :: "('d, 's) item_env \<Rightarrow> ('d, 's) dcitem \<Rightarrow> ('d, 's) dcitem \<times> i_effect list" where
  "processNewError X it =
     (let it1 = it\<lparr> i_errorCount := i_errorCount it + 1 \<rparr>;
          (ts, l, eff) = error_loop X it1 new_flags (i_thresholds it1)
      in (it1\<lparr> i_thresholds := ts \<rparr>, eff @ rearm_event it1 [] l))"

section \<open>Maintenance mode\<close>

definition saveStateBeforeMaintenance :: "('d, 's) dcitem \<Rightarrow> ('d, 's) dcitem" where
  "saveStateBeforeMaintenance it =
     it\<lparr> i_thresholds := map (\<lambda>t. t\<lparr> t_wasReachedBeforeMaint := t_isReached t \<rparr>) (i_thresholds it) \<rparr>"

definition last_value_text :: "('d, 's) dcitem \<Rightarrow> wstr" where
  "last_value_text it =
     (if i_cacheLoaded it \<and> i_cache it \<noteq> [] then v_string (hd (i_cache it)) else [])"

definition maintenance_event :: "('d, 's) dcitem \<Rightarrow> ('d, 's) threshold \<Rightarrow> i_effect list" where
  "maintenance_event it t =
     (if t_isReached t \<noteq> t_wasReachedBeforeMaint t then
        (if t_isReached t then
           [Post_event (t_eventCode t) None (v_string (t_value t)) (v_string (t_lastCheckValue t))
              (last_value_text it) (Some False) Mark_event]
         else
           [Post_event (t_rearmEventCode t) None (v_string (t_value t)) (v_string (t_lastCheckValue t))
              (last_value_text it) None Mark_normal])
      else [])"

definition generateEventsAfterMaintenance :: "('d, 's) dcitem \<Rightarrow> i_effect list" where
  "generateEventsAfterMaintenance it = concat (map (maintenance_event it) (rev (i_thresholds it)))"

section \<open>Queries and repeats\<close>

definition getThresholdById :: "('d, 's) dcitem \<Rightarrow> u32 \<Rightarrow> ('d, 's) threshold option" where
  "getThresholdById it tid = find (\<lambda>t. t_id t = tid) (i_thresholds it)"

definition hasScriptThresholds :: "('d, 's) dcitem \<Rightarrow> bool" where
  "hasScriptThresholds it = list_ex (\<lambda>t. t_function t = F_SCRIPT \<or> t_expandValue t) (i_thresholds it)"

definition hasActiveThreshold :: "('d, 's) dcitem \<Rightarrow> bool" where
  "hasActiveThreshold it = list_ex t_isReached (i_thresholds it)"

fun severity_loop :: "bool \<Rightarrow> nat \<Rightarrow> ('d, 's) threshold list \<Rightarrow> nat" where
  "severity_loop every result [] = result"
| "severity_loop every result (t # ts) =
     (if t_isReached t then
        (let r = max result (t_currentSeverity t)
         in if \<not> every \<or> r = SEVERITY_CRITICAL then r else severity_loop every r ts)
      else severity_loop every result ts)"

definition getThresholdSeverity :: "('d, 's) dcitem \<Rightarrow> nat" where
  "getThresholdSeverity it = severity_loop (all_thresholds it) SEVERITY_NORMAL (i_thresholds it)"

definition postThresholdRepeatEvent ::
  "('d, 's) item_env \<Rightarrow> u32 \<Rightarrow> u64 \<Rightarrow> ('d, 's) dcitem \<Rightarrow> u32 \<times> i_effect list" where
  "postThresholdRepeatEvent X tid sequence it =
     (case getThresholdById it tid of
        None \<Rightarrow> (0, [])
      | Some t \<Rightarrow>
          if \<not> t_isReached t \<or> t_activationSequence t \<noteq> sequence then (0, [])
          else if repeat_interval X t = 0 then (0, [])
          else if t_disabled t \<or> i_disabled it then (repeat_interval X t, [])
          else if i_thresholdDisableEndTime it < 0 \<or>
              i_thresholdDisableEndTime it > 0 \<and> i_thresholdDisableEndTime it \<ge> e_time (x_dc X)
          then (repeat_interval X t, [])
          else (repeat_interval X t,
            [Post_event (t_eventCode t) (Some tid) (v_string (t_value t)) (v_string (t_lastCheckValue t))
               (if i_cache it \<noteq> [] then v_string (hd (i_cache it)) else []) (Some True) Mark_event]))"

text \<open>The threshold object of the given identifier, replaced in the list.\<close>

definition update_threshold ::
  "u32 \<Rightarrow> (('d, 's) threshold \<Rightarrow> ('d, 's) threshold) \<Rightarrow> ('d, 's) threshold list \<Rightarrow> ('d, 's) threshold list" where
  "update_threshold tid f ts =
     (case dropWhile (\<lambda>t. t_id t \<noteq> tid) ts of
        [] \<Rightarrow> ts
      | t # rest \<Rightarrow> takeWhile (\<lambda>t. t_id t \<noteq> tid) ts @ f t # rest)"

fun schedule_loop :: "('d, 's) item_env \<Rightarrow> ('d, 's) threshold list \<Rightarrow> ('d, 's) threshold list \<times> i_effect list" where
  "schedule_loop X [] = ([], [])"
| "schedule_loop X (t # ts) =
     (let (ts', eff) = schedule_loop X ts
      in if \<not> t_isReached t \<or> repeat_interval X t = 0 then (t # ts', eff)
         else
           (let elapsed = e_time (x_dc X) - t_lastEventTimestamp t;
                delay = (if elapsed \<ge> uint (repeat_interval X t) then 1
                         else word_of_int (uint (repeat_interval X t) - elapsed));
                t' = t\<lparr> t_activationSequence := t_activationSequence t + 1 \<rparr>
            in (t' # ts', Schedule_repeat (t_id t) (t_activationSequence t') delay # eff)))"

definition scheduleThresholdRepeatEvents ::
  "('d, 's) item_env \<Rightarrow> ('d, 's) dcitem \<Rightarrow> ('d, 's) dcitem \<times> i_effect list" where
  "scheduleThresholdRepeatEvents X it =
     (let (ts, eff) = schedule_loop X (i_thresholds it) in (it\<lparr> i_thresholds := ts \<rparr>, eff))"

definition deleteThresholdById :: "u32 \<Rightarrow> ('d, 's) dcitem \<Rightarrow> bool \<times> ('d, 's) dcitem" where
  "deleteThresholdById tid it =
     (case dropWhile (\<lambda>t. t_id t \<noteq> tid) (i_thresholds it) of
        [] \<Rightarrow> (False, it)
      | t # rest \<Rightarrow> (True, it\<lparr> i_thresholds := takeWhile (\<lambda>t. t_id t \<noteq> tid) (i_thresholds it) @ rest \<rparr>))"

text \<open>A server environment and an item with the given thresholds, for concrete runs.\<close>

definition plain_item_env :: "(int, unit) item_env" where
  "plain_item_env = \<lparr> x_dc = plain_env, x_repeat_interval = 60, x_is_target = True, x_is_cluster = False,
     x_aggregate_on_cluster = False, x_prototype = False, x_condition_sizes = [], x_offline_relevance = 0,
     x_iforest = False, x_ai = False, x_transform = (\<lambda>_ _. Tr_no_vm), x_storage_driver = False,
     x_aggregation_active = False, x_polling_interval = 60, x_load_always = False,
     x_iface_speed = (\<lambda>_. None) \<rparr>"

definition plain_item :: "(int, unit) threshold list \<Rightarrow> (int, unit) dcitem" where
  "plain_item ts = \<lparr> i_id = 1, i_ownerId = 2, i_hasOwner = True, i_flags = 0, i_disabled = False,
     i_dataType = DCI_DT_INT64, i_transformedDataType = DCI_DT_NULL, i_deltaCalculation = 0,
     i_thresholds = ts, i_cache = [int_sample 1 0], i_cacheLoaded = True, i_requiredCacheSize = 1,
     i_errorCount = 0, i_lastValueTimestamp = 0, i_prevValueTimeStamp = 0, i_prevRawValue = int_sample 0 0,
     i_prevDeltaValue = 0, i_allThresholdsRearmEvent = 30, i_thresholdDisableEndTime = 0,
     i_sampleSaveInterval = 1, i_sampleSaveCounter = 0, i_scriptSource = None, i_script = None,
     i_lastScriptErrorReport = 0, i_anomalyDetected = False, i_anomalyDetectedAI = False,
     i_retentionNone = False, i_watermark = 0, i_relatedObject = 0, i_systemTag = [] \<rparr>"

lemmas concrete_item = checkThresholds_def item_check_def react_def schedule_repeat_def repeat_interval_def
  rearm_event_def new_flags_def plain_item_def plain_item_env_def all_thresholds_def flag_set_def
  hasActiveThreshold_def Let_def

section \<open>What a pass over the thresholds does\<close>

definition is_rearm_all :: "i_effect \<Rightarrow> bool" where
  "is_rearm_all e = (case e of Post_event _ _ _ _ _ _ m \<Rightarrow> m = No_mark | _ \<Rightarrow> False)"

definition is_activation :: "i_effect \<Rightarrow> bool" where
  "is_activation e = (case e of Post_event _ _ _ _ _ _ m \<Rightarrow> m = Mark_event | _ \<Rightarrow> False)"

definition active_result :: "ThresholdCheckResult \<Rightarrow> bool" where
  "active_result res \<longleftrightarrow> res \<in> {ACTIVATED, VALUE_CHANGED, ALREADY_ACTIVE}"

lemma schedule_repeat_frame:
  assumes "schedule_repeat X t = (t', eff)"
  shows "t_isReached t' = t_isReached t" "t_id t' = t_id t"
    "filter is_rearm_all eff = []" "filter is_activation eff = []"
  using assms by (auto simp: schedule_repeat_def Let_def is_rearm_all_def is_activation_def split: if_splits)

lemma react_frame:
  assumes "react X it v res t tv cv l = (goes_on, t', l', eff)"
  shows "t_isReached t' = t_isReached t" "t_id t' = t_id t" "filter is_rearm_all eff = []"
    "l_hasActive l' = (l_hasActive l \<or> active_result res)"
    "l_deactivated l' = (l_deactivated l \<or> res = DEACTIVATED)"
    "goes_on = (all_thresholds it \<or> \<not> active_result res)"
    "length (filter is_activation eff) \<le> (if active_result res then 1 else 0)"
proof -
  obtain t1 sched where s: "schedule_repeat X t = (t1, sched)" by (metis surj_pair)
  from assms schedule_repeat_frame [OF s]
  show "t_isReached t' = t_isReached t" "t_id t' = t_id t" "filter is_rearm_all eff = []"
    "l_hasActive l' = (l_hasActive l \<or> active_result res)"
    "l_deactivated l' = (l_deactivated l \<or> res = DEACTIVATED)"
    "goes_on = (all_thresholds it \<or> \<not> active_result res)"
    "length (filter is_activation eff) \<le> (if active_result res then 1 else 0)"
    by (cases res; auto simp: react_def s active_result_def is_rearm_all_def is_activation_def)+
qed

text \<open>A repeat is scheduled under the new activation sequence of an active threshold.\<close>

definition scheduled_for :: "('d, 's) item_env \<Rightarrow> ('d, 's) threshold \<Rightarrow> i_effect list \<Rightarrow> bool" where
  "scheduled_for X t eff \<longleftrightarrow> (\<forall>tid sq iv. Schedule_repeat tid sq iv \<in> set eff \<longrightarrow>
     tid = t_id t \<and> sq = t_activationSequence t \<and> iv = repeat_interval X t \<and> iv > 0 \<and> t_isReached t)"

lemma react_scheduled:
  assumes "react X it v res t tv cv l = (goes_on, t', l', eff)" "active_result res \<longleftrightarrow> t_isReached t"
  shows "scheduled_for X t' (map From_threshold eff0 @ eff)"
  using assms
  by (cases res) (auto simp: react_def scheduled_for_def schedule_repeat_def repeat_interval_def Let_def
      active_result_def split: if_splits)

lemma threshold_effects_plain:
  "filter is_rearm_all (map From_threshold eff) = []" "filter is_activation (map From_threshold eff) = []"
  by (induction eff) (simp_all add: is_rearm_all_def is_activation_def)

lemma item_check_facts:
  assumes "item_check X it val t = Inr (res, t', cv, tv, eff)"
  shows "active_result res \<longleftrightarrow> t_isReached t'" "res = DEACTIVATED \<longleftrightarrow> t_isReached t \<and> \<not> t_isReached t'"
    "t_id t' = t_id t" "res = ACTIVATED \<longleftrightarrow> \<not> t_isReached t \<and> t_isReached t'"
proof -
  from assms have c: "check ((x_dc X)\<lparr> e_anomaly := i_anomalyDetected it \<rparr>) t val (i_cache it)
      (new_value (e_dbl (x_dc X)) (e_now_ms (x_dc X))) (new_value (e_dbl (x_dc X)) (e_now_ms (x_dc X)))
      = Inr (res, t', cv, tv, eff)"
    by (simp add: item_check_def Let_def)
  note f = check_facts [OF c] check_active [OF c]
  show "active_result res \<longleftrightarrow> t_isReached t'" using f by (auto simp: active_result_def)
  show "res = DEACTIVATED \<longleftrightarrow> t_isReached t \<and> \<not> t_isReached t'"
    "res = ACTIVATED \<longleftrightarrow> \<not> t_isReached t \<and> t_isReached t'" using f by auto
  show "t_id t' = t_id t" using f config_ofD(1) by blast
qed

text \<open>One round of the loop, with the facts every induction over it needs.\<close>

lemma check_loop_Cons:
  assumes "check_loop X it val l (t # ts) = Inr (ts', l', eff)"
  obtains res t3 eff1 l1 where
    "t_id t3 = t_id t" "active_result res \<longleftrightarrow> t_isReached t3"
    "res = DEACTIVATED \<longleftrightarrow> t_isReached t \<and> \<not> t_isReached t3"
    "filter is_rearm_all eff1 = []" "length (filter is_activation eff1) \<le> (if t_isReached t3 then 1 else 0)"
    "l_hasActive l1 = (l_hasActive l \<or> t_isReached t3)"
    "l_deactivated l1 = (l_deactivated l \<or> t_isReached t \<and> \<not> t_isReached t3)"
    "scheduled_for X t3 eff1"
    "if all_thresholds it \<or> \<not> t_isReached t3
     then (\<exists>ts1 eff2. check_loop X it val l1 ts = Inr (ts1, l', eff2) \<and> ts' = t3 # ts1 \<and> eff = eff1 @ eff2)
     else ts' = t3 # ts \<and> l' = l1 \<and> eff = eff1"
proof -
  obtain res t1 cv tv e0 where c: "item_check X it val t = Inr (res, t1, cv, tv, e0)"
    using assms by (auto simp: sum_bind_Inr_iff)
  obtain goes_on t3 l1 e1 where r: "react X it (v_string val) res (t1\<lparr> t_lastCheckValue := cv \<rparr>)
      (v_string tv) (v_string cv) l = (goes_on, t3, l1, e1)" by (metis surj_pair)
  note cf = item_check_facts [OF c] and rf = react_frame [OF r]
  have act: "active_result res \<longleftrightarrow> t_isReached t3" using cf(1) rf(1) by simp
  show ?thesis
  proof (rule that [of t3 res "map From_threshold e0 @ e1" l1])
    show "t_id t3 = t_id t" using cf(3) rf(2) by simp
    show "active_result res \<longleftrightarrow> t_isReached t3" by (rule act)
    show "res = DEACTIVATED \<longleftrightarrow> t_isReached t \<and> \<not> t_isReached t3" using cf(2) rf(1) by simp
    show "filter is_rearm_all (map From_threshold e0 @ e1) = []"
      "length (filter is_activation (map From_threshold e0 @ e1)) \<le> (if t_isReached t3 then 1 else 0)"
      using rf(3,7) act by (simp_all add: threshold_effects_plain)
    show "l_hasActive l1 = (l_hasActive l \<or> t_isReached t3)"
      "l_deactivated l1 = (l_deactivated l \<or> t_isReached t \<and> \<not> t_isReached t3)"
      using rf(1,4,5) act cf(2) by simp_all
    show "scheduled_for X t3 (map From_threshold e0 @ e1)"
      using cf(1) by (intro react_scheduled [OF r]) simp
    show "if all_thresholds it \<or> \<not> t_isReached t3
     then (\<exists>ts1 eff2. check_loop X it val l1 ts = Inr (ts1, l', eff2) \<and> ts' = t3 # ts1 \<and>
            eff = (map From_threshold e0 @ e1) @ eff2)
     else ts' = t3 # ts \<and> l' = l1 \<and> eff = map From_threshold e0 @ e1"
      using assms act rf(6) by (auto simp: c r sum_bind_Inr_iff Let_def split: if_splits prod.splits)
  qed
qed

lemma check_loop_flags:
  "check_loop X it val l ts = Inr (ts', l', eff) \<Longrightarrow>
     map t_id ts' = map t_id ts \<and> filter is_rearm_all eff = [] \<and>
     (l_hasActive l' \<longleftrightarrow> l_hasActive l \<or> list_ex t_isReached ts') \<and>
     (\<not> list_ex t_isReached ts' \<longrightarrow> (l_deactivated l' \<longleftrightarrow> l_deactivated l \<or> list_ex t_isReached ts))"
proof (induction ts arbitrary: l ts' eff)
  case (Cons t ts)
  from Cons.prems obtain res t3 eff1 l1 where r: "t_id t3 = t_id t" "filter is_rearm_all eff1 = []"
    "l_hasActive l1 = (l_hasActive l \<or> t_isReached t3)"
    "l_deactivated l1 = (l_deactivated l \<or> t_isReached t \<and> \<not> t_isReached t3)"
    "if all_thresholds it \<or> \<not> t_isReached t3
     then (\<exists>ts1 eff2. check_loop X it val l1 ts = Inr (ts1, l', eff2) \<and> ts' = t3 # ts1 \<and> eff = eff1 @ eff2)
     else ts' = t3 # ts \<and> l' = l1 \<and> eff = eff1"
    by (rule check_loop_Cons)
  show ?case
  proof (cases "all_thresholds it \<or> \<not> t_isReached t3")
    case True
    with r(5) obtain ts1 eff2 where n: "check_loop X it val l1 ts = Inr (ts1, l', eff2)"
      "ts' = t3 # ts1" "eff = eff1 @ eff2" by auto
    from Cons.IH [OF n(1)] r(1-4) n(2,3) show ?thesis by auto
  next
    case False
    with r show ?thesis by auto
  qed
qed simp

text \<open>
  C24. The event for all thresholds rearmed: a pass over the thresholds of an item posts it
  exactly when it is configured, some threshold was active before the pass and none is
  active after it, in both evaluation modes.
\<close>

theorem all_rearmed_event_exact:
  assumes "checkThresholds X val it = Inr (it', eff)"
  shows "list_ex is_rearm_all eff \<longleftrightarrow>
    i_allThresholdsRearmEvent it \<noteq> 0 \<and> hasActiveThreshold it \<and> \<not> hasActiveThreshold it'"
proof -
  obtain ts l e where c: "check_loop X it val new_flags (i_thresholds it) = Inr (ts, l, e)"
      "it' = it\<lparr> i_thresholds := ts \<rparr>" "eff = e @ rearm_event it (v_string val) l"
    using assms by (auto simp: checkThresholds_def sum_bind_Inr_iff)
  note f = check_loop_flags [OF c(1)]
  have "list_ex is_rearm_all e \<longleftrightarrow> False" using f by (auto simp: list_ex_iff filter_empty_conv)
  then show ?thesis using f
    by (auto simp: c(2,3) rearm_event_def new_flags_def hasActiveThreshold_def is_rearm_all_def)
qed

theorem all_rearmed_event_exact_witness:
  "\<exists>it' eff. checkThresholds plain_item_env (int_sample 9 3) (plain_item [(above 5 1 1)\<lparr> t_isReached := True \<rparr>])
     = Inr (it', eff) \<and> list_ex is_rearm_all eff"
proof -
  obtain it' eff where c: "checkThresholds plain_item_env (int_sample 9 3)
      (plain_item [(above 5 1 1)\<lparr> t_isReached := True \<rparr>]) = Inr (it', eff)" "\<not> hasActiveThreshold it'"
    by (simp add: concrete_item concrete_check)
  moreover have "hasActiveThreshold (plain_item [(above 5 1 1)\<lparr> t_isReached := True \<rparr>])"
    "i_allThresholdsRearmEvent (plain_item [(above 5 1 1)\<lparr> t_isReached := True \<rparr>]) \<noteq> 0"
    by (simp_all add: concrete_item)
  ultimately show ?thesis using all_rearmed_event_exact [OF c(1)] by blast
qed

lemma check_loop_first_match:
  "\<not> all_thresholds it \<Longrightarrow> check_loop X it val l ts = Inr (ts', l', eff) \<Longrightarrow>
     length (filter is_activation eff) \<le> 1 \<and>
     (\<exists>n. (\<forall>t \<in> set (take n ts'). \<not> t_isReached t) \<and> drop (Suc n) ts' = drop (Suc n) ts \<and>
       (n < length ts' \<longrightarrow> t_isReached (ts' ! n)) \<and> (n \<ge> length ts' \<longrightarrow> filter is_activation eff = []))"
proof (induction ts arbitrary: l ts' eff)
  case (Cons t ts)
  from Cons.prems(2) obtain res t3 eff1 l1 where r:
    "length (filter is_activation eff1) \<le> (if t_isReached t3 then 1 else 0)"
    "if all_thresholds it \<or> \<not> t_isReached t3
     then (\<exists>ts1 eff2. check_loop X it val l1 ts = Inr (ts1, l', eff2) \<and> ts' = t3 # ts1 \<and> eff = eff1 @ eff2)
     else ts' = t3 # ts \<and> l' = l1 \<and> eff = eff1"
    by (rule check_loop_Cons)
  show ?case
  proof (cases "t_isReached t3")
    case True
    with r Cons.prems(1) show ?thesis by (auto intro!: exI [of _ 0])
  next
    case False
    with r(2) obtain ts1 eff2 where n: "check_loop X it val l1 ts = Inr (ts1, l', eff2)"
      "ts' = t3 # ts1" "eff = eff1 @ eff2" by auto
    from Cons.IH [OF Cons.prems(1) n(1)] obtain k where k: "length (filter is_activation eff2) \<le> 1"
      "\<forall>t \<in> set (take k ts1). \<not> t_isReached t" "drop (Suc k) ts1 = drop (Suc k) ts"
      "k < length ts1 \<longrightarrow> t_isReached (ts1 ! k)" "k \<ge> length ts1 \<longrightarrow> filter is_activation eff2 = []"
      by blast
    have "filter is_activation eff1 = []" using r(1) False by simp
    with k n(2,3) False show ?thesis by (intro conjI exI [of _ "Suc k"]) auto
  qed
qed (auto intro: exI [of _ 0])

text \<open>
  C26. First-match mode: when an item does not evaluate all thresholds, a pass sends at most
  one activation event; the thresholds before the active one are inactive, and those after
  it are not evaluated at all.
\<close>

theorem first_match_mode:
  assumes "\<not> all_thresholds it" "checkThresholds X val it = Inr (it', eff)"
  shows "length (filter is_activation eff) \<le> 1 \<and>
    (\<exists>n. (\<forall>t \<in> set (take n (i_thresholds it')). \<not> t_isReached t) \<and>
      (n < length (i_thresholds it') \<longrightarrow> t_isReached (i_thresholds it' ! n)) \<and>
      drop (Suc n) (i_thresholds it') = drop (Suc n) (i_thresholds it))"
proof -
  obtain ts l e where c: "check_loop X it val new_flags (i_thresholds it) = Inr (ts, l, e)"
      "it' = it\<lparr> i_thresholds := ts \<rparr>" "eff = e @ rearm_event it (v_string val) l"
    using assms(2) by (auto simp: checkThresholds_def sum_bind_Inr_iff)
  have "filter is_activation (rearm_event it (v_string val) l) = []"
    by (simp add: rearm_event_def is_activation_def)
  with check_loop_first_match [OF assms(1) c(1)] show ?thesis by (auto simp: c(2,3))
qed

theorem first_match_mode_witness:
  "\<exists>it' eff. checkThresholds plain_item_env (int_sample 9 8) (plain_item [above 5 1 1, above 3 1 1])
     = Inr (it', eff) \<and> length (filter is_activation eff) \<le> 1"
proof -
  obtain it' eff where c: "checkThresholds plain_item_env (int_sample 9 8)
      (plain_item [above 5 1 1, above 3 1 1]) = Inr (it', eff)"
    by (simp add: concrete_item concrete_check)
  have "\<not> all_thresholds (plain_item [above 5 1 1, above 3 1 1])" by (simp add: concrete_item)
  from first_match_mode [OF this c] c show ?thesis by blast
qed

lemma check_loop_scheduled:
  "check_loop X it val l ts = Inr (ts', l', eff) \<Longrightarrow> Schedule_repeat tid sq iv \<in> set eff \<Longrightarrow>
     \<exists>t \<in> set ts'. scheduled_for X t [Schedule_repeat tid sq iv]"
proof (induction ts arbitrary: l ts' eff)
  case (Cons t ts)
  from Cons.prems(1) obtain res t3 eff1 l1 where r: "scheduled_for X t3 eff1"
    "if all_thresholds it \<or> \<not> t_isReached t3
     then (\<exists>ts1 eff2. check_loop X it val l1 ts = Inr (ts1, l', eff2) \<and> ts' = t3 # ts1 \<and> eff = eff1 @ eff2)
     else ts' = t3 # ts \<and> l' = l1 \<and> eff = eff1"
    by (rule check_loop_Cons)
  have "scheduled_for X t3 [Schedule_repeat tid sq iv]" if "Schedule_repeat tid sq iv \<in> set eff1"
    using r(1) that unfolding scheduled_for_def by auto
  with Cons.IH Cons.prems(2) r(2) show ?case by (auto split: if_splits)
qed simp

lemma find_distinct:
  "distinct (map t_id ts) \<Longrightarrow> t \<in> set ts \<Longrightarrow> List.find (\<lambda>u. t_id u = t_id t) ts = Some t"
  by (induction ts) force+

text \<open>
  C27. Repeat timers: a pass schedules a repeat only for a threshold that is active after
  it, under that threshold's current activation sequence. A timer with that sequence is
  given the repeat interval back, and a timer left over from an earlier activation posts
  nothing and is not rescheduled.
\<close>

theorem repeat_timer_current:
  assumes "distinct (map t_id (i_thresholds it))" "checkThresholds X val it = Inr (it', eff)"
    and "Schedule_repeat tid sq iv \<in> set eff"
  shows "fst (postThresholdRepeatEvent X tid sq it') = iv \<and> iv > 0 \<and>
    (\<forall>old. old \<noteq> sq \<longrightarrow> postThresholdRepeatEvent X tid old it' = (0, []))"
proof -
  obtain ts l e where c: "check_loop X it val new_flags (i_thresholds it) = Inr (ts, l, e)"
      "it' = it\<lparr> i_thresholds := ts \<rparr>" "eff = e @ rearm_event it (v_string val) l"
    using assms(2) by (auto simp: checkThresholds_def sum_bind_Inr_iff)
  have "Schedule_repeat tid sq iv \<in> set e"
    using assms(3) by (auto simp: c(3) rearm_event_def split: if_splits)
  from check_loop_scheduled [OF c(1) this] obtain t where t: "t \<in> set ts" "t_id t = tid"
      "t_activationSequence t = sq" "repeat_interval X t = iv" "iv > 0" "t_isReached t"
    by (auto simp: scheduled_for_def)
  have "distinct (map t_id ts)" using check_loop_flags [OF c(1)] assms(1) by simp
  then have "getThresholdById it' tid = Some t"
    using find_distinct [OF _ t(1)] t(2) by (simp add: getThresholdById_def c(2))
  with t(3-6) show ?thesis by (auto simp: postThresholdRepeatEvent_def)
qed

theorem repeat_timer_current_witness:
  "\<exists>it' eff. checkThresholds plain_item_env (int_sample 9 8) (plain_item [above 5 1 1]) = Inr (it', eff) \<and>
     postThresholdRepeatEvent plain_item_env 7 0 it' = (0, [])"
proof -
  obtain it' eff where c: "checkThresholds plain_item_env (int_sample 9 8) (plain_item [above 5 1 1]) = Inr (it', eff)"
      "Schedule_repeat 7 1 60 \<in> set eff"
    by (simp add: concrete_item concrete_check)
  have "distinct (map t_id (i_thresholds (plain_item [above 5 1 1])))" by (simp add: plain_item_def)
  from repeat_timer_current [OF this c] c(1) show ?thesis by auto
qed

end
