(* ===== verification/Nx_DCItem_Value.thy ===== *)
theory Nx_DCItem_Value
  imports Nx_DCItem "HOL-Library.Sublist"
begin

text \<open>
  A new value of a data collection item (\<^verbatim>\<open>src/src/server/core/dcitem.cpp\<close>): delta
  calculation and transformation, storage, threshold evaluation on the item or on a shadow
  copy, and the value cache. The work on the shadow copy is done with the item unlocked; the
  model runs it without interference.
\<close>

section \<open>Delta calculation\<close>

abbreviation (input) "DCM_SIMPLE \<equiv> (1 :: nat)"
abbreviation (input) "DCM_AVERAGE_PER_SECOND \<equiv> (2 :: nat)"
abbreviation (input) "DCM_AVERAGE_PER_MINUTE \<equiv> (3 :: nat)"

definition getTransformedDataType :: "('d, 's) dcitem \<Rightarrow> nat" where
  "getTransformedDataType it =
     (if i_transformedDataType it \<noteq> DCI_DT_NULL then i_transformedDataType it else i_dataType it)"

text \<open>The delta of a counter: none when a decrease does not look like a wrap around.\<close>

definition counter_delta :: "'a::len word \<Rightarrow> 'a word \<Rightarrow> 'a word \<Rightarrow> 'a word option" where
  "counter_delta prevDelta cur prev =
     (if cur \<ge> prev then Some (cur - prev)
      else if cur - prev > prevDelta then None
      else Some (cur - prev))"

definition delta_simple :: "'d dbl \<Rightarrow> 'd item_value \<Rightarrow> ('d, 's) dcitem \<Rightarrow> bool \<times> 'd item_value \<times> ('d, 's) dcitem" where
  "delta_simple D v it =
     (let p = i_prevRawValue it; dt = i_dataType it in
      if dt = DCI_DT_INT then (True, set_int32 D (getInt32 v - getInt32 p) None v, it)
      else if dt = DCI_DT_UINT then (True, set_uint32 D (getUInt32 v - getUInt32 p) None v, it)
      else if dt = DCI_DT_COUNTER32 then
        (case counter_delta (ucast (i_prevDeltaValue it)) (getUInt32 v) (getUInt32 p) of
           Some d \<Rightarrow> (True, set_uint32 D d None v, it\<lparr> i_prevDeltaValue := ucast d \<rparr>)
         | None \<Rightarrow> (False, v, it\<lparr> i_prevRawValue := v \<rparr>))
      else if dt = DCI_DT_INT64 then (True, set_int64 D (v_int64 v - v_int64 p) None v, it)
      else if dt = DCI_DT_UINT64 then (True, set_uint64 D (v_uint64 v - v_uint64 p) None v, it)
      else if dt = DCI_DT_COUNTER64 then
        (case counter_delta (i_prevDeltaValue it) (v_uint64 v) (v_uint64 p) of
           Some d \<Rightarrow> (True, set_uint64 D d None v, it\<lparr> i_prevDeltaValue := d \<rparr>)
         | None \<Rightarrow> (False, v, it\<lparr> i_prevRawValue := v \<rparr>))
      else if dt = DCI_DT_FLOAT then
        (True, set_double D (c_sub (d_num D) (v_double v) (v_double p)) None v, it)
      else if dt = DCI_DT_STRING then
        (True, set_int32 D (if v_string v = v_string p then 0 else 1) None v, it)
      else (True, v, it))"

text \<open>The divisor of the average deltas, from the elapsed milliseconds.\<close>

definition elapsed_units :: "nat \<Rightarrow> int \<Rightarrow> int" where
  "elapsed_units method elapsed =
     (let e1 = (if method = DCM_AVERAGE_PER_MINUTE then cdiv elapsed 60 else elapsed);
          e2 = cdiv e1 1000
      in if e2 = 0 then 1 else e2)"

definition rate :: "'d dbl \<Rightarrow> 'd \<Rightarrow> int \<Rightarrow> fault + 'd" where
  "rate D n elapsed = c_div (d_num D) n (c_of_int (d_num D) elapsed)"

definition delta_average ::
  "'d dbl \<Rightarrow> int \<Rightarrow> 'd item_value \<Rightarrow> ('d, 's) dcitem \<Rightarrow> fault + (bool \<times> 'd item_value \<times> ('d, 's) dcitem)" where
  "delta_average D e v it =
     (let p = i_prevRawValue it; dt = i_dataType it; num = c_of_int (d_num D);
          store = (\<lambda>x it'. sum_bind (rate D x e) (\<lambda>r. Inr (True, set_double D r None v, it'))) in
      if dt = DCI_DT_INT then store (num (sint (getInt32 v - getInt32 p))) it
      else if dt = DCI_DT_UINT then store (num (uint (getUInt32 v - getUInt32 p))) it
      else if dt = DCI_DT_COUNTER32 then
        (case counter_delta (ucast (i_prevDeltaValue it)) (getUInt32 v) (getUInt32 p) of
           Some d \<Rightarrow> store (num (uint d)) (it\<lparr> i_prevDeltaValue := ucast d \<rparr>)
         | None \<Rightarrow> Inr (False, v, it\<lparr> i_prevRawValue := v \<rparr>))
      else if dt = DCI_DT_INT64 then store (num (sint (v_int64 v - v_int64 p))) it
      else if dt = DCI_DT_UINT64 then store (num (uint (v_uint64 v - v_uint64 p))) it
      else if dt = DCI_DT_COUNTER64 then
        (case counter_delta (i_prevDeltaValue it) (v_uint64 v) (v_uint64 p) of
           Some d \<Rightarrow> store (num (uint d)) (it\<lparr> i_prevDeltaValue := d \<rparr>)
         | None \<Rightarrow> Inr (False, v, it\<lparr> i_prevRawValue := v \<rparr>))
      else if dt = DCI_DT_FLOAT then store (c_sub (d_num D) (v_double v) (v_double p)) it
      else if dt = DCI_DT_STRING then
        Inr (True, set_int32 D (if v_string v = v_string p then 0 else 1) None v, it)
      else Inr (True, v, it))"

definition ConvertValue :: "'d dbl \<Rightarrow> nat \<Rightarrow> nat \<Rightarrow> 'd item_value \<Rightarrow> 'd item_value" where
  "ConvertValue D dest src v =
     dt_switch dest
       (set_int32 D (getInt32 v) None v)
       (set_uint32 D (getUInt32 v) None v)
       (if src = DCI_DT_STRING \<or> src = DCI_DT_FLOAT then set_int64 D (v_int64 v) None v else v)
       (set_uint64 D (v_uint64 v) None v)
       (if src = DCI_DT_STRING then set_double D (v_double v) None v else v)
       v v"

definition store_script_value :: "'d dbl \<Rightarrow> nat \<Rightarrow> 'd nxsl_value \<Rightarrow> 'd item_value \<Rightarrow> 'd item_value" where
  "store_script_value D dt n v =
     dt_switch dt (set_int32 D (n_i32 n) None v) (set_uint32 D (n_u32 n) None v)
       (set_int64 D (n_i64 n) None v) (set_uint64 D (n_u64 n) None v)
       (set_double D (n_real n) None v) (set_string D (n_str n) False v) v"

definition report_transform_error ::
  "('d, 's) item_env \<Rightarrow> ('d, 's) dcitem \<Rightarrow> ('d, 's) dcitem \<times> i_effect list" where
  "report_transform_error X it =
     (if i_lastScriptErrorReport it + e_err_interval (x_dc X) < e_time (x_dc X)
      then (it\<lparr> i_lastScriptErrorReport := e_time (x_dc X) \<rparr>, [Script_report]) else (it, []))"

definition transform_script ::
  "('d, 's) item_env \<Rightarrow> nat \<Rightarrow> 'd item_value \<Rightarrow> ('d, 's) dcitem \<Rightarrow>
   bool \<times> 'd item_value \<times> ('d, 's) dcitem \<times> i_effect list" where
  "transform_script X deltaType v it =
     (let D = e_dbl (x_dc X); dt = getTransformedDataType it in
      case i_script it of
        None \<Rightarrow> (True, (if dt \<noteq> deltaType then ConvertValue D dt deltaType v else v), it, [])
      | Some sc \<Rightarrow>
          (case x_transform X sc v of
             Tr_result failed n \<Rightarrow>
               (\<not> failed,
                (case n of Some nv \<Rightarrow> if failed then v else store_script_value D dt nv v | None \<Rightarrow> v), it, [])
           | Tr_aborted \<Rightarrow> (False, v, it, [])
           | Tr_failed \<Rightarrow> (let (it', eff) = report_transform_error X it in (False, v, it', eff))
           | Tr_empty \<Rightarrow>
               (True, (if dt \<noteq> i_dataType it then ConvertValue D dt (i_dataType it) v else v), it, [])
           | Tr_no_vm \<Rightarrow> (let (it', eff) = report_transform_error X it in (False, v, it', eff))))"

text \<open>
  \<^verbatim>\<open>IsBlankString\<close> advances its pointer in the loop condition, so the body looks at the next
  character, the terminating null included.
\<close>

definition iswblank :: "wchar \<Rightarrow> bool" where
  "iswblank c \<longleftrightarrow> c = 32 \<or> c = 9"

fun IsBlankString :: "wstr \<Rightarrow> bool" where
  "IsBlankString [] = True"
| "IsBlankString [c] = False"
| "IsBlankString (c # d # cs) = (if \<not> iswblank d then False else IsBlankString (d # cs))"

definition transform ::
  "('d, 's) item_env \<Rightarrow> 'd item_value \<Rightarrow> int \<Rightarrow> ('d, 's) dcitem \<Rightarrow>
   fault + (bool \<times> 'd item_value \<times> ('d, 's) dcitem \<times> i_effect list)" where
  "transform X v elapsed it =
     (let D = e_dbl (x_dc X); m = i_deltaCalculation it in
      if i_script it = None \<and> (case i_scriptSource it of None \<Rightarrow> False | Some s \<Rightarrow> \<not> IsBlankString s)
      then Inr (False, v, it, [])
      else
        sum_bind
          (if m = DCM_SIMPLE then Inr (delta_simple D v it)
           else if m = DCM_AVERAGE_PER_MINUTE \<or> m = DCM_AVERAGE_PER_SECOND
             then delta_average D (elapsed_units m elapsed) v it
           else Inr (True, v, it))
          (\<lambda>(success, v1, it1).
             if \<not> success then Inr (False, v1, it1, [])
             else Inr (transform_script X
               (if m = DCM_AVERAGE_PER_MINUTE \<or> m = DCM_AVERAGE_PER_SECOND then DCI_DT_FLOAT else i_dataType it)
               v1 it1)))"

section \<open>Processing of a new value\<close>

definition pushBackAggregationWatermark :: "int \<Rightarrow> ('d, 's) dcitem \<Rightarrow> ('d, 's) dcitem \<times> i_effect list" where
  "pushBackAggregationWatermark ts it =
     (if ts \<le> 0 \<or> (i_watermark it > 0 \<and> ts \<ge> i_watermark it) \<or> i_watermark it = 0 then (it, [])
      else (it\<lparr> i_watermark := ts \<rparr>, [Watermark_update ts]))"

definition tryAdvanceAggregationWatermark ::
  "int \<Rightarrow> int \<Rightarrow> ('d, 's) dcitem \<Rightarrow> bool \<times> int option \<times> ('d, 's) dcitem" where
  "tryAdvanceAggregationWatermark expectedStart newWatermark it =
     (if i_watermark it \<noteq> expectedStart then (False, Some (i_watermark it), it)
      else (True, None, it\<lparr> i_watermark := newWatermark \<rparr>))"

definition setInitialAggregationWatermark :: "int \<Rightarrow> ('d, 's) dcitem \<Rightarrow> bool \<times> ('d, 's) dcitem" where
  "setInitialAggregationWatermark ts it =
     (if ts \<le> 0 \<or> (i_watermark it > 0 \<and> i_watermark it \<le> ts) then (False, it)
      else (True, it\<lparr> i_watermark := ts \<rparr>))"

text \<open>The flags and the raw value update, for a value newer than the previous one.\<close>

definition accept_newer ::
  "('d, 's) item_env \<Rightarrow> int \<Rightarrow> wstr \<Rightarrow> 'd item_value \<Rightarrow> 'd item_value \<Rightarrow> ('d, 's) dcitem \<Rightarrow> ('d, 's) dcitem \<times> i_effect list" where
  "accept_newer X ts orig raw v it =
     (if ts > i_prevValueTimeStamp it then
        (let forest = flag_set (i_flags it) DCF_DETECT_ANOMALIES_IFOREST \<and> x_iforest X;
             ai = flag_set (i_flags it) DCF_DETECT_ANOMALIES_AI \<and> x_ai X;
             it' = it\<lparr> i_anomalyDetected := forest \<or> ai, i_anomalyDetectedAI := ai,
               i_prevRawValue := raw, i_prevValueTimeStamp := ts \<rparr>
         in (it', [Raw_update ts orig (v_string v)
              (if i_cacheLoaded it \<and> i_cache it \<noteq> [] then v_timestamp (last (i_cache it)) else 0)
              (forest \<or> ai)]))
      else (it, []))"

definition count_sample :: "('d, 's) dcitem \<Rightarrow> bool \<times> ('d, 's) dcitem" where
  "count_sample it =
     (if i_sampleSaveInterval it > 1 then
        (if i_sampleSaveCounter it + 1 < i_sampleSaveInterval it
         then (False, it\<lparr> i_sampleSaveCounter := i_sampleSaveCounter it + 1 \<rparr>)
         else (True, it\<lparr> i_sampleSaveCounter := 0 \<rparr>))
      else (True, it))"

definition save_value ::
  "('d, 's) item_env \<Rightarrow> int \<Rightarrow> wstr \<Rightarrow> 'd item_value \<Rightarrow> ('d, 's) dcitem \<Rightarrow> ('d, 's) dcitem \<times> i_effect list" where
  "save_value X ts orig v it =
     (let (shouldSave, it1) = count_sample it in
      if shouldSave \<and> (\<not> flag_set (i_flags it) DCF_STORE_CHANGES_ONLY \<or>
           (i_cacheLoaded it \<and> i_cache it \<noteq> [] \<and> v_string v \<noteq> v_string (hd (i_cache it)))) then
        (let (it2, ins) = (if i_retentionNone it then (it1, [])
               else (let (it', w) = (if x_aggregation_active X then pushBackAggregationWatermark ts it1 else (it1, []))
                     in (it', Data_insert ts orig (v_string v) # w)));
             drv = (if x_storage_driver X then [Driver_request ts (v_string v)] else [])
         in (it2, ins @ drv))
      else (it1, []))"

text \<open>The shadow copy of the item that scripts are run on, and the way back.\<close>

definition shadow_item :: "('d, 's) item_env \<Rightarrow> ('d, 's) dcitem \<Rightarrow> ('d, 's) dcitem" where
  "shadow_item X it =
     it\<lparr> i_thresholds := map (\<lambda>t. copy_threshold (x_dc X) 0 t True) (i_thresholds it) \<rparr>"

definition reconcile_all :: "('d, 's) threshold list \<Rightarrow> ('d, 's) threshold list \<Rightarrow> ('d, 's) threshold list" where
  "reconcile_all src dst =
     foldl (\<lambda>ts s. update_threshold (t_id s) (\<lambda>d. reconcile d s) ts) dst src"

definition run_thresholds ::
  "('d, 's) item_env \<Rightarrow> 'd item_value \<Rightarrow> ('d, 's) dcitem \<Rightarrow> fault + (('d, 's) dcitem \<times> i_effect list)" where
  "run_thresholds X v it =
     (if hasScriptThresholds it then
        sum_bind (checkThresholds X v (shadow_item X it)) (\<lambda>(sh, eff).
          Inr (it\<lparr> i_thresholds := reconcile_all (i_thresholds sh) (i_thresholds it) \<rparr>, eff))
      else checkThresholds X v it)"

definition thresholds_enabled :: "('d, 's) item_env \<Rightarrow> int \<Rightarrow> ('d, 's) dcitem \<Rightarrow> bool" where
  "thresholds_enabled X ts it \<longleftrightarrow>
     i_cacheLoaded it \<and> ts \<ge> i_prevValueTimeStamp it \<and>
     (i_thresholdDisableEndTime it = 0 \<or>
      i_thresholdDisableEndTime it > 0 \<and> i_thresholdDisableEndTime it < cdiv ts 1000) \<and>
     (x_offline_relevance X \<le> 0 \<or> ts > e_now_ms (x_dc X) - x_offline_relevance X)"

definition evaluate_thresholds ::
  "('d, 's) item_env \<Rightarrow> int \<Rightarrow> 'd item_value \<Rightarrow> ('d, 's) dcitem \<Rightarrow> fault + (('d, 's) dcitem \<times> i_effect list)" where
  "evaluate_thresholds X ts v it =
     (if thresholds_enabled X ts it then
        sum_bind (run_thresholds X v it) (\<lambda>(it', eff).
          Inr (if i_thresholdDisableEndTime it' > 0 \<and> i_thresholdDisableEndTime it' < cdiv (e_now_ms (x_dc X)) 1000
               then it'\<lparr> i_thresholdDisableEndTime := 0 \<rparr> else it', eff))
      else Inr (it, []))"

definition update_cache :: "int \<Rightarrow> 'd item_value \<Rightarrow> ('d, 's) dcitem \<Rightarrow> ('d, 's) dcitem" where
  "update_cache ts v it =
     (if i_cache it \<noteq> [] \<and> ts \<ge> i_prevValueTimeStamp it then
        it\<lparr> i_cache := v # butlast (i_cache it), i_lastValueTimestamp := ts \<rparr>
      else if \<not> i_cacheLoaded it \<and> i_requiredCacheSize it = 1 then
        it\<lparr> i_cache := [v], i_cacheLoaded := True, i_lastValueTimestamp := ts \<rparr>
      else it)"

text \<open>
  The utilisation of an interface in tenths of a percent: the tag of the item says what the
  value counts. The arithmetic is that of the C types, so it wraps.
\<close>

abbreviation (input) "IFACE_INBOUND \<equiv> [105, 102, 97, 99, 101, 45, 105, 110, 98, 111, 117, 110, 100, 45] :: wstr"
abbreviation (input) "IFACE_OUTBOUND \<equiv> [105, 102, 97, 99, 101, 45, 111, 117, 116, 98, 111, 117, 110, 100, 45] :: wstr"
abbreviation (input) "SUFFIX_UTIL \<equiv> [45, 117, 116, 105, 108] :: wstr"
abbreviation (input) "SUFFIX_BYTES \<equiv> [45, 98, 121, 116, 101, 115] :: wstr"

definition iface_utilization :: "wstr \<Rightarrow> u64 \<Rightarrow> u64 \<Rightarrow> u32" where
  "iface_utilization tag value speed =
     (let u = (if suffix SUFFIX_UTIL tag then ucast value * 10
               else if speed > 0 then ucast ((if suffix SUFFIX_BYTES tag then value * 8 else value) * 1000 div speed)
               else 0) :: u32
      in if sint u > 1000 then 1000 else u)"

definition update_utilization :: "('d, 's) item_env \<Rightarrow> 'd item_value \<Rightarrow> ('d, 's) dcitem \<Rightarrow> i_effect list" where
  "update_utilization X v it =
     (let tag = i_systemTag it in
      if i_relatedObject it \<noteq> 0 \<and> tag \<noteq> [] \<and> (prefix IFACE_INBOUND tag \<or> prefix IFACE_OUTBOUND tag) \<and>
         sint (v_int64 v) \<ge> 0 then
        (case x_iface_speed X (i_relatedObject it) of
           Some speed \<Rightarrow>
             if speed > 0 then [Set_utilization (i_relatedObject it) (prefix IFACE_INBOUND tag)
                                  (iface_utilization tag (v_int64 v) speed)] else []
         | None \<Rightarrow> [])
      else [])"

definition processNewValue ::
  "('d, 's) item_env \<Rightarrow> int \<Rightarrow> wstr \<Rightarrow> bool \<Rightarrow> ('d, 's) dcitem \<Rightarrow>
   fault + (bool \<times> bool \<times> ('d, 's) dcitem \<times> i_effect list)" where
  "processNewValue X ts orig allowPast it =
     (if \<not> i_hasOwner it \<or> (\<not> allowPast \<and> ts < i_lastValueTimestamp it) then Inr (False, False, it, [])
      else
        (let raw = value_of_string (e_dbl (x_dc X)) (e_now_ms (x_dc X)) orig ts False;
             it1 = (if i_prevValueTimeStamp it = 0 then it\<lparr> i_prevRawValue := raw \<rparr> else it);
             elapsed = (if ts > i_prevValueTimeStamp it1 then ts - i_prevValueTimeStamp it1 else 0)
         in
         sum_bind
           (if \<not> x_is_cluster X \<or> flag_set (i_flags it1) DCF_TRANSFORM_AGGREGATED
            then transform X raw elapsed it1 else Inr (True, raw, it1, []))
           (\<lambda>(success, v, it2, eff1).
              if \<not> success then Inr (False, False, it2, eff1)
              else
                (let it3 = it2\<lparr> i_errorCount := 0 \<rparr>;
                     updateStatus = (flag_set (i_flags it3) DCF_CALCULATE_NODE_STATUS \<and>
                       ts > i_prevValueTimeStamp it3 \<and>
                       (i_cache it3 = [] \<or> \<not> i_cacheLoaded it3 \<or> getUInt32 v \<noteq> getUInt32 (hd (i_cache it3))));
                     (it4, eff2) = accept_newer X ts orig raw v it3;
                     (it5, eff3) = save_value X ts orig v it4
                 in
                 sum_bind (evaluate_thresholds X ts v it5) (\<lambda>(it6, eff4).
                   Inr (True, updateStatus, update_cache ts v it6,
                     eff1 @ eff2 @ eff3 @ eff4 @ update_utilization X v it6))))))"

section \<open>The value cache\<close>

definition placeholder :: "('d, 's) item_env \<Rightarrow> 'd item_value" where
  "placeholder X = value_of_string (e_dbl (x_dc X)) (e_now_ms (x_dc X)) [] 1 False"

definition required_size :: "('d, 's) item_env \<Rightarrow> ('d, 's) dcitem \<Rightarrow> nat" where
  "required_size X it =
     (if ((x_is_target X \<and> \<not> x_is_cluster X) \<or> (x_is_cluster X \<and> x_aggregate_on_cluster X)) \<and> \<not> x_prototype X
      then foldl max (foldl max 1 (map getRequiredCacheSize (i_thresholds it))) (x_condition_sizes X)
      else 0)"

definition updateCacheSizeInternal :: "('d, 's) item_env \<Rightarrow> bool \<Rightarrow> ('d, 's) dcitem \<Rightarrow> ('d, 's) dcitem" where
  "updateCacheSizeInternal X allowLoad it =
     (if \<not> i_hasOwner it then it
      else
        (let req = required_size X it; size = length (i_cache it); it1 = it\<lparr> i_requiredCacheSize := req \<rparr> in
         if req < size then it1\<lparr> i_cache := take req (i_cache it) \<rparr>
         else if req > size then
           (if allowLoad \<and> i_ownerId it \<noteq> 0 \<and>
               ((req - size) * x_polling_interval X mod 2 ^ 32 > 300 \<or> x_load_always X)
            then it1\<lparr> i_cacheLoaded := False \<rparr>
            else it1\<lparr> i_cache := i_cache it @ replicate (req - size) (placeholder X), i_cacheLoaded := True \<rparr>)
         else it1))"

text \<open>The rows of the query, newest first; \<open>None\<close> when it failed.\<close>

definition reloadCache ::
  "('d, 's) item_env \<Rightarrow> bool \<Rightarrow> (wstr \<times> int) list option \<Rightarrow> ('d, 's) dcitem \<Rightarrow> ('d, 's) dcitem" where
  "reloadCache X force rows it =
     (if \<not> force \<and> i_cacheLoaded it \<and> length (i_cache it) = i_requiredCacheSize it then it
      else
        (let req = i_requiredCacheSize it;
             found = (case rows of None \<Rightarrow> [] | Some rs \<Rightarrow>
               map (\<lambda>(s, ts). value_of_string (e_dbl (x_dc X)) (e_now_ms (x_dc X)) (wcslcpy s MAX_DB_STRING) ts False) (take req rs))
         in it\<lparr> i_cache := found @ replicate (req - length found) (placeholder X), i_cacheLoaded := True \<rparr>))"

definition clearCache :: "('d, 's) dcitem \<Rightarrow> ('d, 's) dcitem" where
  "clearCache it = it\<lparr> i_cache := [] \<rparr>"

section \<open>Cache invariant and safety\<close>

text \<open>
  A loaded cache has the required size, and that size covers what every threshold reads.
\<close>

definition thr_ok :: "nat \<Rightarrow> ('d, 's) threshold \<Rightarrow> bool" where
  "thr_ok n t \<longleftrightarrow> 1 \<le> t_sampleCount t \<and> t_sampleCount t < 2 ^ 31 \<and> getRequiredCacheSize t \<le> n"

definition item_ok :: "('d, 's) dcitem \<Rightarrow> bool" where
  "item_ok it \<longleftrightarrow>
     (i_cacheLoaded it \<longrightarrow> length (i_cache it) = i_requiredCacheSize it) \<and>
     list_all (thr_ok (i_requiredCacheSize it)) (i_thresholds it)"

text \<open>The members of a threshold that its cache size depends on.\<close>

lemma thr_ok_cong:
  "t_sampleCount a = t_sampleCount b \<Longrightarrow> t_function a = t_function b \<Longrightarrow> thr_ok n a = thr_ok n b"
  by (simp add: thr_ok_def getRequiredCacheSize_def)

lemma react_size:
  assumes "react X it v res t tv cv l = (goes_on, t', l', eff)"
  shows "thr_ok n t' = thr_ok n t"
  using assms
  by (cases res) (auto simp: react_def schedule_repeat_def Let_def split: if_splits intro!: thr_ok_cong)

lemma item_check_ok:
  assumes "thr_ok (length (i_cache it)) t" "dbl_total (e_dbl (x_dc X))"
  shows "ok (item_check X it val t)"
  using assms check_ok [of t "i_cache it" "(x_dc X)\<lparr> e_anomaly := i_anomalyDetected it \<rparr>"]
  by (simp add: item_check_def Let_def thr_ok_def)

lemma item_check_size:
  assumes "item_check X it val t = Inr (res, t', cv, tv, eff)"
  shows "thr_ok n t' = thr_ok n t"
  using assms config_ofD [OF check_frame] by (intro thr_ok_cong) (auto simp: item_check_def Let_def)

lemma check_loop_ok:
  assumes "list_all (thr_ok (length (i_cache it))) ts" "dbl_total (e_dbl (x_dc X))"
  shows "\<exists>ts' l' eff. check_loop X it val l ts = Inr (ts', l', eff) \<and>
    map (thr_ok n) ts' = map (thr_ok n) ts"
  using assms(1)
proof (induction ts arbitrary: l)
  case (Cons t ts)
  obtain res t1 cv tv e0 where c: "item_check X it val t = Inr (res, t1, cv, tv, e0)"
    using item_check_ok [of it t X val] Cons.prems assms(2) by (auto simp: ok_def)
  obtain goes_on t3 l1 e1 where r: "react X it (v_string val) res (t1\<lparr> t_lastCheckValue := cv \<rparr>)
      (v_string tv) (v_string cv) l = (goes_on, t3, l1, e1)" by (metis surj_pair)
  have t3: "thr_ok n t3 = thr_ok n t"
    using react_size [OF r] item_check_size [OF c]
      thr_ok_cong [of "t1\<lparr> t_lastCheckValue := cv \<rparr>" t1] by simp
  obtain ts1 l2 e2 where "check_loop X it val l1 ts = Inr (ts1, l2, e2)" "map (thr_ok n) ts1 = map (thr_ok n) ts"
    using Cons.IH [of l1] Cons.prems by auto
  with t3 show ?case by (cases goes_on) (auto simp: c r)
qed simp

lemma list_all_map_cong: "map P xs = map P ys \<Longrightarrow> list_all P xs = list_all P ys"
  by (metis list.pred_set list_all_iff list.map_cong list_all_length length_map nth_map)

lemma checkThresholds_ok:
  assumes "list_all (thr_ok (length (i_cache it))) (i_thresholds it)" "dbl_total (e_dbl (x_dc X))"
  shows "\<exists>ts eff. checkThresholds X val it = Inr (it\<lparr> i_thresholds := ts \<rparr>, eff) \<and>
    map (thr_ok n) ts = map (thr_ok n) (i_thresholds it)"
  using check_loop_ok [OF assms, of val new_flags n] by (auto simp: checkThresholds_def)

lemma update_threshold_size:
  assumes "\<And>t. thr_ok n (f t) = thr_ok n t"
  shows "map (thr_ok n) (update_threshold tid f ts) = map (thr_ok n) ts"
proof (cases "dropWhile (\<lambda>t. t_id t \<noteq> tid) ts")
  case (Cons t rest)
  then have "ts = takeWhile (\<lambda>t. t_id t \<noteq> tid) ts @ t # rest" by (metis takeWhile_dropWhile_id)
  then have "map (thr_ok n) ts = map (thr_ok n) (takeWhile (\<lambda>t. t_id t \<noteq> tid) ts @ t # rest)" by simp
  with Cons show ?thesis by (simp add: update_threshold_def assms)
next
  case Nil
  then show ?thesis by (simp add: update_threshold_def del: dropWhile_eq_Nil_conv)
qed

lemma reconcile_all_size: "map (thr_ok n) (reconcile_all src dst) = map (thr_ok n) dst"
proof (induction src arbitrary: dst)
  case (Cons s src)
  have "map (thr_ok n) (update_threshold (t_id s) (\<lambda>d. reconcile d s) dst) = map (thr_ok n) dst"
    by (intro update_threshold_size thr_ok_cong) (simp_all add: reconcile_def)
  with Cons show ?case by (simp add: reconcile_all_def)
qed (simp add: reconcile_all_def)

lemma copy_threshold_size: "thr_ok n (copy_threshold E i t b) = thr_ok n t"
  by (intro thr_ok_cong) (simp_all add: copy_threshold_def setScript_def Let_def split: option.split)

lemma run_thresholds_ok:
  assumes "list_all (thr_ok (length (i_cache it))) (i_thresholds it)" "dbl_total (e_dbl (x_dc X))"
  shows "\<exists>ts eff. run_thresholds X val it = Inr (it\<lparr> i_thresholds := ts \<rparr>, eff) \<and>
    map (thr_ok n) ts = map (thr_ok n) (i_thresholds it)"
proof (cases "hasScriptThresholds it")
  case True
  have "list_all (thr_ok (length (i_cache (shadow_item X it)))) (i_thresholds (shadow_item X it))"
    using assms(1) by (simp add: shadow_item_def list_all_iff copy_threshold_size)
  then obtain ts eff where "checkThresholds X val (shadow_item X it) = Inr ((shadow_item X it)\<lparr> i_thresholds := ts \<rparr>, eff)"
    using checkThresholds_ok assms(2) by blast
  with True show ?thesis by (auto simp: run_thresholds_def reconcile_all_size)
next
  case False
  with checkThresholds_ok [OF assms] show ?thesis by (simp add: run_thresholds_def)
qed

text \<open>What a step of the processing leaves of the thresholds and the cache.\<close>

definition same_cache :: "('d, 's) dcitem \<Rightarrow> ('d, 's) dcitem \<Rightarrow> bool" where
  "same_cache a b \<longleftrightarrow> i_thresholds a = i_thresholds b \<and> i_cache a = i_cache b \<and>
     i_cacheLoaded a = i_cacheLoaded b \<and> i_requiredCacheSize a = i_requiredCacheSize b"

lemma same_cache_ok: "same_cache a b \<Longrightarrow> item_ok a = item_ok b"
  by (simp add: same_cache_def item_ok_def)

lemma same_cache_trans: "same_cache a b \<Longrightarrow> same_cache b c \<Longrightarrow> same_cache a c"
  by (simp add: same_cache_def)

lemma accept_newer_frame: "same_cache (fst (accept_newer X ts orig raw v it)) it"
  by (simp add: accept_newer_def Let_def same_cache_def)

lemma save_value_frame: "same_cache (fst (save_value X ts orig v it)) it"
  by (auto simp: save_value_def count_sample_def pushBackAggregationWatermark_def Let_def same_cache_def
      split: prod.splits if_splits)

lemma delta_simple_frame: "same_cache (snd (snd (delta_simple D v it))) it"
  by (auto simp: delta_simple_def Let_def same_cache_def split: option.split)

lemma delta_average_ok:
  assumes "dbl_total D"
  shows "\<exists>b v' it'. delta_average D e v it = Inr (b, v', it') \<and> same_cache it' it"
proof -
  have "\<forall>x. \<exists>q. rate D x e = Inr q" using assms by (simp add: rate_def dbl_total_def)
  then obtain q where r: "rate D x e = Inr (q x)" for x by (auto simp: choice_iff)
  show ?thesis
    by (auto simp: delta_average_def Let_def same_cache_def r split: option.split)
qed

lemma transform_script_frame: "same_cache (fst (snd (snd (transform_script X dt v it)))) it"
  by (auto simp: transform_script_def Let_def same_cache_def report_transform_error_def
      split: option.split transform_outcome.split)

lemma delta_ok:
  assumes "dbl_total D"
  shows "\<exists>b v1 it1. (if m = DCM_SIMPLE then Inr (delta_simple D v it)
     else if m = DCM_AVERAGE_PER_MINUTE \<or> m = DCM_AVERAGE_PER_SECOND
       then delta_average D (elapsed_units m elapsed) v it else Inr (True, v, it)) = Inr (b, v1, it1) \<and>
     same_cache it1 it"
proof (cases "m = DCM_SIMPLE")
  case True
  with delta_simple_frame [of D v it] show ?thesis by (cases "delta_simple D v it") auto
next
  case False
  then show ?thesis using delta_average_ok [OF assms] by (auto simp: same_cache_def)
qed

lemma transform_ok:
  assumes "dbl_total (e_dbl (x_dc X))"
  shows "\<exists>b v' it' eff. transform X v elapsed it = Inr (b, v', it', eff) \<and> same_cache it' it"
proof -
  let ?m = "i_deltaCalculation it"
  let ?r = "if ?m = DCM_SIMPLE then Inr (delta_simple (e_dbl (x_dc X)) v it)
     else if ?m = DCM_AVERAGE_PER_MINUTE \<or> ?m = DCM_AVERAGE_PER_SECOND
       then delta_average (e_dbl (x_dc X)) (elapsed_units ?m elapsed) v it else Inr (True, v, it)"
  obtain b v1 it1 where d: "?r = Inr (b, v1, it1)" "same_cache it1 it"
    using delta_ok [OF assms] by blast
  have t: "transform X v elapsed it = (if i_script it = None \<and>
        (case i_scriptSource it of None \<Rightarrow> False | Some s \<Rightarrow> \<not> IsBlankString s) then Inr (False, v, it, [])
      else if \<not> b then Inr (False, v1, it1, [])
      else Inr (transform_script X (if ?m = DCM_AVERAGE_PER_MINUTE \<or> ?m = DCM_AVERAGE_PER_SECOND
        then DCI_DT_FLOAT else i_dataType it) v1 it1))"
    unfolding transform_def Let_def d(1) by simp
  have s: "same_cache (fst (snd (snd (transform_script X dt v1 it1)))) it" for dt
    using transform_script_frame same_cache_trans d(2) by blast
  show ?thesis
    unfolding t using s d(2) by (auto simp: same_cache_def split: prod.splits) (metis fst_conv snd_conv surj_pair)+
qed

lemma evaluate_thresholds_ok:
  assumes "item_ok it" "dbl_total (e_dbl (x_dc X))"
  shows "\<exists>it' eff. evaluate_thresholds X ts v it = Inr (it', eff) \<and> item_ok it' \<and>
    i_cache it' = i_cache it \<and> i_cacheLoaded it' = i_cacheLoaded it \<and>
    i_requiredCacheSize it' = i_requiredCacheSize it"
proof (cases "thresholds_enabled X ts it")
  case True
  then have l: "length (i_cache it) = i_requiredCacheSize it"
    using assms(1) by (simp add: thresholds_enabled_def item_ok_def)
  then have "list_all (thr_ok (length (i_cache it))) (i_thresholds it)"
    using assms(1) by (simp add: item_ok_def)
  from run_thresholds_ok [OF this assms(2), of v "i_requiredCacheSize it"]
  obtain ths eff where r: "run_thresholds X v it = Inr (it\<lparr> i_thresholds := ths \<rparr>, eff)"
    "map (thr_ok (i_requiredCacheSize it)) ths = map (thr_ok (i_requiredCacheSize it)) (i_thresholds it)"
    by auto
  have "list_all (thr_ok (i_requiredCacheSize it)) ths"
    using assms(1) list_all_map_cong [OF r(2)] by (simp add: item_ok_def)
  with True r(1) l show ?thesis by (simp add: evaluate_thresholds_def item_ok_def)
qed (use assms in \<open>simp add: evaluate_thresholds_def\<close>)

lemma update_cache_ok: "item_ok it \<Longrightarrow> item_ok (update_cache ts v it)"
  by (cases "i_cache it") (auto simp: update_cache_def item_ok_def)


lemma whole_dbl_total: "dbl_total whole_dbl"
  by (auto simp: dbl_total_def whole_dbl_def)


section \<open>Counters\<close>

text \<open>A counter that advanced by \<open>n\<close> since the previous value, modulo its width.\<close>

lemma counter_delta_advance:
  fixes prev pd :: "'a::len word"
  assumes "n < 2 ^ LENGTH('a)"
  shows "counter_delta pd (prev + of_nat n) prev =
    (if unat prev + n < 2 ^ LENGTH('a) \<or> n \<le> unat pd then Some (of_nat n) else None)"
proof -
  let ?k = "of_nat n :: 'a word"
  have n: "unat ?k = n" using assms by (simp add: unat_of_nat take_bit_nat_eq_self)
  have lt: "unat prev < 2 ^ LENGTH('a)" by (rule unsigned_less)
  have u: "unat (prev + ?k) = (unat prev + n) mod 2 ^ LENGTH('a)" by (simp only: unat_word_ariths n)
  have le: "prev \<le> prev + ?k \<longleftrightarrow> unat prev + n < 2 ^ LENGTH('a)"
  proof (cases "unat prev + n < 2 ^ LENGTH('a)")
    case True
    then have "unat (prev + ?k) = unat prev + n" by (simp only: u mod_less)
    then show ?thesis using True by (simp only: word_le_nat_alt le_add1)
  next
    case False
    then have "unat (prev + ?k) = unat prev + n - 2 ^ LENGTH('a)"
      unfolding u using assms lt by (subst le_mod_geq) (simp_all only: not_less mod_less less_diff_conv2 add_less_mono)
    then have "unat (prev + ?k) < unat prev" using False assms by linarith
    then show ?thesis using False by (simp only: word_le_nat_alt) simp
  qed
  have gt: "pd < ?k \<longleftrightarrow> \<not> n \<le> unat pd" by (simp only: word_less_nat_alt n not_le)
  have d: "prev + ?k - prev = ?k" by simp
  show ?thesis unfolding counter_delta_def d le gt by simp
qed

text \<open>
  C28. Delta of a 64 bit counter that advanced by \<open>n\<close>: the exact advance is stored, also
  across one wrap around of the counter, when the counter did not wrap or the advance is not
  more than the previous delta; any other wrap is taken for a reset, which rejects the value
  and makes it the base of the next delta.
\<close>

theorem counter_advance:
  assumes "i_dataType it = DCI_DT_COUNTER64" "n < 2 ^ 64"
    "v_uint64 v = v_uint64 (i_prevRawValue it) + of_nat n"
  shows "delta_simple D v it =
    (if unat (v_uint64 (i_prevRawValue it)) + n < 2 ^ 64 \<or> n \<le> unat (i_prevDeltaValue it)
     then (True, set_uint64 D (of_nat n) None v, it\<lparr> i_prevDeltaValue := of_nat n \<rparr>)
     else (False, v, it\<lparr> i_prevRawValue := v \<rparr>))"
  using assms(1,2) counter_delta_advance [where 'a = 64, of n "i_prevDeltaValue it" "v_uint64 (i_prevRawValue it)"]
  by (simp add: delta_simple_def Let_def assms(3))

theorem counter_advance_witness:
  "delta_simple whole_dbl (int_sample 5 3) ((plain_item [])\<lparr> i_dataType := DCI_DT_COUNTER64,
       i_prevRawValue := int_sample 4 18446744073709551614, i_prevDeltaValue := 4 \<rparr>) =
     (False, int_sample 5 3, (plain_item [])\<lparr> i_dataType := DCI_DT_COUNTER64,
       i_prevRawValue := int_sample 5 3, i_prevDeltaValue := 4 \<rparr>)"
  by (subst counter_advance [where n = 5]) simp_all

text \<open>
  C37. A rejected value of a rate: when a 64 bit counter was reset, the value is not stored and
  no threshold is evaluated, the new reading becomes the base of the next delta, and the time of
  the previous value stays what it was. The next rate therefore divides the advance since the
  reset by the time since the value before it.
\<close>

theorem reset_keeps_timestamp:
  assumes "i_hasOwner it" "i_lastValueTimestamp it \<le> ts" "i_prevValueTimeStamp it \<noteq> 0"
    "\<not> x_is_cluster X" "i_scriptSource it = None" "i_dataType it = DCI_DT_COUNTER64"
    "i_deltaCalculation it = DCM_AVERAGE_PER_SECOND"
    "raw = value_of_string (e_dbl (x_dc X)) (e_now_ms (x_dc X)) orig ts False"
    "v_uint64 raw < v_uint64 (i_prevRawValue it)"
    "i_prevDeltaValue it < v_uint64 raw - v_uint64 (i_prevRawValue it)"
  shows "\<exists>it'. processNewValue X ts orig allowPast it = Inr (False, False, it', []) \<and>
    i_prevRawValue it' = raw \<and> i_prevValueTimeStamp it' = i_prevValueTimeStamp it \<and>
    i_thresholds it' = i_thresholds it \<and> i_cache it' = i_cache it"
proof -
  have "counter_delta (i_prevDeltaValue it) (v_uint64 raw) (v_uint64 (i_prevRawValue it)) = None"
    using assms(9,10) by (simp add: counter_delta_def)
  then show ?thesis
    using assms(1-7) unfolding processNewValue_def Let_def assms(8) [symmetric]
    by (simp add: transform_def delta_average_def Let_def)
qed

theorem reset_keeps_timestamp_witness:
  "\<exists>it'. processNewValue plain_item_env 2000 [] False ((plain_item [])\<lparr> i_dataType := DCI_DT_COUNTER64,
       i_deltaCalculation := DCM_AVERAGE_PER_SECOND, i_prevRawValue := int_sample 1000 700,
       i_prevDeltaValue := 10, i_prevValueTimeStamp := 1000 \<rparr>) = Inr (False, False, it', []) \<and>
     i_prevValueTimeStamp it' = 1000"
proof -
  let ?it = "(plain_item [])\<lparr> i_dataType := DCI_DT_COUNTER64, i_deltaCalculation := DCM_AVERAGE_PER_SECOND,
    i_prevRawValue := int_sample 1000 700, i_prevDeltaValue := 10, i_prevValueTimeStamp := 1000 \<rparr>"
  have "v_uint64 (value_of_string whole_dbl 0 [] 2000 False) = 0"
    by (simp add: value_of_string_def parseStringValue_def whole_dbl_def wcstoull_def scan_int_def wcslcpy_def Let_def)
  then show ?thesis
    using reset_keeps_timestamp [of ?it 2000 plain_item_env
        "value_of_string whole_dbl 0 [] 2000 False" "[]" False]
    by (auto simp: plain_item_def plain_item_env_def plain_env_def)
qed

section \<open>Interface utilisation\<close>

definition traffic_scale :: "wstr \<Rightarrow> nat" where
  "traffic_scale tag = (if suffix SUFFIX_BYTES tag then 8000 else 1000)"

text \<open>
  Bounds of interface utilisation: for a value whose scaled product fits 64 bits, the stored
  utilisation is the ratio of traffic to speed in tenths of a percent, rounded down and limited
  to 1000, as long as that ratio fits 31 bits; it never exceeds 1000 in any case.
\<close>

theorem utilization_bounds:
  "sint (iface_utilization tag x speed) \<le> 1000 \<and>
    (\<not> suffix SUFFIX_UTIL tag \<and> speed > 0 \<and> unat x * traffic_scale tag < 2 ^ 64 \<and>
       unat x * traffic_scale tag div unat speed < 2 ^ 31 \<longrightarrow>
     unat (iface_utilization tag x speed) = min 1000 (unat x * traffic_scale tag div unat speed))"
proof
  show "sint (iface_utilization tag x speed) \<le> 1000"
    by (simp add: iface_utilization_def Let_def)
next
  let ?q = "unat x * traffic_scale tag div unat speed"
  show "\<not> suffix SUFFIX_UTIL tag \<and> speed > 0 \<and> unat x * traffic_scale tag < 2 ^ 64 \<and> ?q < 2 ^ 31 \<longrightarrow>
     unat (iface_utilization tag x speed) = min 1000 ?q"
  proof (intro impI, elim conjE)
    assume a: "\<not> suffix SUFFIX_UTIL tag" "speed > 0" and f: "unat x * traffic_scale tag < 2 ^ 64" and q: "?q < 2 ^ 31"
    let ?n = "(if suffix SUFFIX_BYTES tag then x * 8 else x) * 1000"
    have "?n = x * of_nat (traffic_scale tag)" by (simp add: traffic_scale_def)
    then have n: "unat ?n = unat x * traffic_scale tag" using f
      by (simp add: unat_word_ariths traffic_scale_def split: if_splits)
    have d: "unat (ucast (?n div speed) :: u32) = ?q"
      using q unfolding unsigned_ucast_eq unat_div n by (simp add: take_bit_nat_eq_self)
    have "sint (word_of_int (int ?q) :: u32) = int ?q"
      using q by (intro sint_of_int_range) simp_all
    then have "sint (ucast (?n div speed) :: u32) = int ?q"
      unfolding d [symmetric] by simp
    with a d show "unat (iface_utilization tag x speed) = min 1000 ?q"
      by (auto simp: iface_utilization_def Let_def)
  qed
qed

theorem utilization_bounds_witness:
  "unat (iface_utilization (IFACE_OUTBOUND @ tl SUFFIX_BYTES) 125000 4000000) = 250 \<and>
   sint (iface_utilization (IFACE_OUTBOUND @ tl SUFFIX_BYTES) 3000000000 8000) < 0"
  using utilization_bounds [of "IFACE_OUTBOUND @ tl SUFFIX_BYTES" 125000 4000000]
  by (simp add: traffic_scale_def suffix_to_prefix iface_utilization_def)

section \<open>The cache follows the thresholds\<close>

lemma foldl_max_ge: "n \<le> foldl max n xs \<and> (\<forall>x \<in> set xs. x \<le> foldl max n xs)" for n :: nat
  by (induction xs arbitrary: n) (auto intro: max.boundedE)

text \<open>
  C15. The cache size: after the size is recomputed from the thresholds, the item meets what
  value processing relies on, for any positive sample counts and whatever the cache held; a
  reload of the cache restores it from any number of stored rows.
\<close>

theorem cache_size_established:
  assumes "i_hasOwner it" "x_is_target X" "\<not> x_is_cluster X" "\<not> x_prototype X"
    "\<forall>t \<in> set (i_thresholds it). 1 \<le> t_sampleCount t \<and> t_sampleCount t < 2 ^ 31"
  shows "item_ok (updateCacheSizeInternal X allowLoad it) \<and>
    item_ok (reloadCache X force rows (updateCacheSizeInternal X allowLoad it))"
proof -
  let ?it = "updateCacheSizeInternal X allowLoad it"
  have "getRequiredCacheSize t \<le> required_size X it" if "t \<in> set (i_thresholds it)" for t
    using foldl_max_ge [of 1 "map getRequiredCacheSize (i_thresholds it)"] that
      foldl_max_ge [of "foldl max 1 (map getRequiredCacheSize (i_thresholds it))" "x_condition_sizes X"] assms(2-4)
    by (auto simp: required_size_def intro: le_trans)
  then have t: "list_all (thr_ok (required_size X it)) (i_thresholds it)"
    using assms(5) by (simp add: list_all_iff thr_ok_def)
  have m: "i_thresholds ?it = i_thresholds it" "i_requiredCacheSize ?it = required_size X it"
    using assms(1) by (simp_all add: updateCacheSizeInternal_def Let_def)
  have "item_ok ?it"
    using t m assms(1) by (auto simp: item_ok_def updateCacheSizeInternal_def Let_def split: if_splits)
  moreover have "item_ok (reloadCache X force rows ?it)"
    using calculation t m by (auto simp: item_ok_def reloadCache_def Let_def split: option.split)
  ultimately show ?thesis by blast
qed

theorem cache_size_established_witness:
  "item_ok (updateCacheSizeInternal plain_item_env False (plain_item [above 5 3 1]))"
  using cache_size_established [of "plain_item [above 5 3 1]" plain_item_env False]
  by (simp add: plain_item_def plain_item_env_def above_def new_threshold_def)

end
