(* ===== verification/Nx_StrMap.thy ===== *)
theory Nx_StrMap
  imports Nx_Prelude "HOL-Library.Multiset"
begin

text \<open>
  String maps (\<^verbatim>\<open>src/src/libnetxms/strmapbase.cpp\<close>): a hash table that keeps the order of
  insertion, with keys compared exactly or in upper case. The table is the list of its entries
  in that order; a value is a pointer, \<open>None\<close> the null pointer; whether a key was allocated by
  the caller does not matter for the model. \<open>U\<close> is the upper case mapping of characters.
\<close>

section \<open>Maps\<close>

record 'v sm_entry =
  e_key :: wstr
  e_value :: "'v option"
  e_originalKey :: "wstr option"

record 'v strmap =
  sm_data :: "'v sm_entry list"
  sm_objectOwner :: bool
  sm_ignoreCase :: bool
  sm_destroyed :: "'v list"

definition new_strmap :: "bool \<Rightarrow> 'v strmap" where
  "new_strmap own = \<lparr> sm_data = [], sm_objectOwner = own, sm_ignoreCase = True, sm_destroyed = [] \<rparr>"

definition destroyObject_sm :: "'v option \<Rightarrow> 'v strmap \<Rightarrow> 'v strmap" where
  "destroyObject_sm v m = (case v of None \<Rightarrow> m | Some x \<Rightarrow> m\<lparr> sm_destroyed := sm_destroyed m @ [x] \<rparr>)"

definition dispose :: "'v option \<Rightarrow> 'v strmap \<Rightarrow> 'v strmap" where
  "dispose v m = (if sm_objectOwner m then destroyObject_sm v m else m)"

definition fold_key :: "(wchar \<Rightarrow> wchar) \<Rightarrow> bool \<Rightarrow> wstr \<Rightarrow> wstr" where
  "fold_key U ignoreCase k = (if ignoreCase then map U k else k)"

definition find_sm :: "(wchar \<Rightarrow> wchar) \<Rightarrow> wstr option \<Rightarrow> 'v strmap \<Rightarrow> 'v sm_entry option" where
  "find_sm U key m =
     (case key of None \<Rightarrow> None
      | Some k \<Rightarrow> List.find (\<lambda>e. e_key e = fold_key U (sm_ignoreCase m) k) (sm_data m))"

text \<open>The update of the entry that was found, through its pointer.\<close>

fun update_entry :: "wstr \<Rightarrow> ('v sm_entry \<Rightarrow> 'v sm_entry) \<Rightarrow> 'v sm_entry list \<Rightarrow> 'v sm_entry list" where
  "update_entry k f [] = []"
| "update_entry k f (e # es) = (if e_key e = k then f e # es else e # update_entry k f es)"

fun delete_entry :: "wstr \<Rightarrow> 'v sm_entry list \<Rightarrow> 'v sm_entry list" where
  "delete_entry k [] = []"
| "delete_entry k (e # es) = (if e_key e = k then es else e # delete_entry k es)"

definition setObject :: "(wchar \<Rightarrow> wchar) \<Rightarrow> wstr option \<Rightarrow> 'v option \<Rightarrow> 'v strmap \<Rightarrow> 'v strmap" where
  "setObject U key v m =
     (case key of
        None \<Rightarrow> dispose v m
      | Some k \<Rightarrow>
          (case find_sm U key m of
             Some entry \<Rightarrow>
               (dispose (e_value entry) m)\<lparr> sm_data := update_entry (e_key entry)
                  (\<lambda>e. e\<lparr> e_value := v,
                          e_originalKey := (if sm_ignoreCase m then Some k else e_originalKey e) \<rparr>) (sm_data m) \<rparr>
           | None \<Rightarrow>
               m\<lparr> sm_data := sm_data m @
                  [\<lparr> e_key = fold_key U (sm_ignoreCase m) k, e_value = v,
                     e_originalKey = (if sm_ignoreCase m then Some k else None) \<rparr>] \<rparr>))"

definition getObject :: "(wchar \<Rightarrow> wchar) \<Rightarrow> wstr option \<Rightarrow> 'v strmap \<Rightarrow> 'v option" where
  "getObject U key m = (case find_sm U key m of Some e \<Rightarrow> e_value e | None \<Rightarrow> None)"

definition remove_sm :: "(wchar \<Rightarrow> wchar) \<Rightarrow> wstr option \<Rightarrow> 'v strmap \<Rightarrow> 'v strmap" where
  "remove_sm U key m =
     (case find_sm U key m of
        Some entry \<Rightarrow> dispose (e_value entry) (m\<lparr> sm_data := delete_entry (e_key entry) (sm_data m) \<rparr>)
      | None \<Rightarrow> m)"

definition unlink :: "(wchar \<Rightarrow> wchar) \<Rightarrow> wstr option \<Rightarrow> 'v strmap \<Rightarrow> 'v option \<times> 'v strmap" where
  "unlink U key m =
     (case find_sm U key m of
        Some entry \<Rightarrow> (e_value entry, m\<lparr> sm_data := delete_entry (e_key entry) (sm_data m) \<rparr>)
      | None \<Rightarrow> (None, m))"

definition clear_sm :: "'v strmap \<Rightarrow> 'v strmap" where
  "clear_sm m = (foldl (\<lambda>m' e. dispose (e_value e) m') m (sm_data m))\<lparr> sm_data := [] \<rparr>"

text \<open>The key an enumeration shows.\<close>

definition shown_key :: "'v strmap \<Rightarrow> 'v sm_entry \<Rightarrow> wstr option" where
  "shown_key m e = (if sm_ignoreCase m then e_originalKey e else Some (e_key e))"

fun forEach_sm_loop ::
  "'v strmap \<Rightarrow> (wstr option \<Rightarrow> 'v option \<Rightarrow> 's \<Rightarrow> bool \<times> 's) \<Rightarrow> 'v sm_entry list \<Rightarrow> 's \<Rightarrow> bool \<times> 's" where
  "forEach_sm_loop m cb [] s = (True, s)"
| "forEach_sm_loop m cb (e # es) s =
     (let (go, s') = cb (shown_key m e) (e_value e) s in if go then forEach_sm_loop m cb es s' else (False, s'))"

definition forEach_sm :: "(wstr option \<Rightarrow> 'v option \<Rightarrow> 's \<Rightarrow> bool \<times> 's) \<Rightarrow> 'v strmap \<Rightarrow> 's \<Rightarrow> bool \<times> 's" where
  "forEach_sm cb m s = forEach_sm_loop m cb (sm_data m) s"

definition findElement_sm :: "(wstr option \<Rightarrow> 'v option \<Rightarrow> bool) \<Rightarrow> 'v strmap \<Rightarrow> 'v option" where
  "findElement_sm p m =
     (case List.find (\<lambda>e. p (shown_key m e) (e_value e)) (sm_data m) of Some e \<Rightarrow> e_value e | None \<Rightarrow> None)"

definition filterElements :: "(wstr option \<Rightarrow> 'v option \<Rightarrow> bool) \<Rightarrow> 'v strmap \<Rightarrow> 'v strmap" where
  "filterElements p m =
     foldl (\<lambda>m' e. if p (shown_key m e) (e_value e) then m'
              else dispose (e_value e) (m'\<lparr> sm_data := delete_entry (e_key e) (sm_data m') \<rparr>)) m (sm_data m)"

definition toArray :: "(wstr option \<Rightarrow> 'v option \<Rightarrow> bool) \<Rightarrow> 'v strmap \<Rightarrow> (wstr option \<times> 'v option) list" where
  "toArray p m = map (\<lambda>e. (shown_key m e, e_value e))
     (filter (\<lambda>e. p (shown_key m e) (e_value e)) (sm_data m))"

definition keys_sm :: "'v strmap \<Rightarrow> wstr option list" where
  "keys_sm m = map (shown_key m) (sm_data m)"

definition fillValues :: "'v strmap \<Rightarrow> 'v option list" where
  "fillValues m = map e_value (sm_data m)"

definition size_sm :: "'v strmap \<Rightarrow> nat" where
  "size_sm m = length (sm_data m)"

definition setIgnoreCase :: "(wchar \<Rightarrow> wchar) \<Rightarrow> bool \<Rightarrow> 'v strmap \<Rightarrow> 'v strmap" where
  "setIgnoreCase U ignore m =
     (if sm_ignoreCase m = ignore then m
      else m\<lparr> sm_ignoreCase := ignore,
        sm_data := map (\<lambda>e. if ignore then e\<lparr> e_originalKey := Some (e_key e), e_key := map U (e_key e) \<rparr>
                            else e\<lparr> e_key := (case e_originalKey e of Some k \<Rightarrow> k | None \<Rightarrow> []), e_originalKey := None \<rparr>) (sm_data m) \<rparr>)"

section \<open>The contract of a store\<close>

text \<open>
  A store with a lookup, an insertion and a deletion, whose keys count as equal when they
  normalise to the same key.
\<close>

datatype ('k, 'v) store_op = Insert_op 'k 'v | Delete_op 'k

locale store =
  fixes inv :: "'m \<Rightarrow> bool" and norm :: "'k \<Rightarrow> 'n"
    and lookup :: "'k \<Rightarrow> 'm \<Rightarrow> 'v option"
    and ins :: "'k \<Rightarrow> 'v \<Rightarrow> 'm \<Rightarrow> 'm" and del :: "'k \<Rightarrow> 'm \<Rightarrow> 'm"
  assumes inv_ins: "inv m \<Longrightarrow> inv (ins k v m)"
    and inv_del: "inv m \<Longrightarrow> inv (del k m)"
    and lookup_ins: "inv m \<Longrightarrow> lookup k' (ins k v m) = (if norm k' = norm k then Some v else lookup k' m)"
    and lookup_del: "inv m \<Longrightarrow> lookup k' (del k m) = (if norm k' = norm k then None else lookup k' m)"
begin

primrec apply_op :: "('k, 'v) store_op \<Rightarrow> 'm \<Rightarrow> 'm" where
  "apply_op (Insert_op k v) m = ins k v m"
| "apply_op (Delete_op k) m = del k m"

primrec meaning :: "('k, 'v) store_op \<Rightarrow> ('n \<Rightarrow> 'v option) \<Rightarrow> 'n \<Rightarrow> 'v option" where
  "meaning (Insert_op k v) f = f(norm k := Some v)"
| "meaning (Delete_op k) f = f(norm k := None)"

lemma ops_refine:
  assumes "inv m" "\<forall>k. lookup k m = f (norm k)"
  shows "inv (fold apply_op ops m) \<and> (\<forall>k. lookup k (fold apply_op ops m) = fold meaning ops f (norm k))"
  using assms
proof (induction ops arbitrary: m f)
  case (Cons a ops)
  have "inv (apply_op a m)" using Cons.prems(1) by (cases a) (simp_all add: inv_ins inv_del)
  moreover have "\<forall>k. lookup k (apply_op a m) = meaning a f (norm k)"
    using Cons.prems by (cases a) (auto simp: lookup_ins lookup_del)
  ultimately show ?case using Cons.IH [of "apply_op a m" "meaning a f"] by simp
qed simp

end

section \<open>String maps are stores\<close>

text \<open>Entries have distinct keys; in the case insensitive mode a key is its original in upper case.\<close>

definition sm_ok :: "(wchar \<Rightarrow> wchar) \<Rightarrow> 'v strmap \<Rightarrow> bool" where
  [nx_inv]: "sm_ok U m \<longleftrightarrow> distinct (map e_key (sm_data m)) \<and>
     (\<forall>e \<in> set (sm_data m). if sm_ignoreCase m
        then \<exists>k. e_originalKey e = Some k \<and> e_key e = map U k else e_originalKey e = None)"

lemma dispose_frame [simp]:
  "sm_data (dispose v m) = sm_data m" "sm_ignoreCase (dispose v m) = sm_ignoreCase m"
  "sm_objectOwner (dispose v m) = sm_objectOwner m"
  by (simp_all add: dispose_def destroyObject_sm_def split: option.split)

lemma find_update_entry:
  assumes "\<And>e. e_key (f e) = e_key e"
  shows "List.find (\<lambda>e. e_key e = k') (update_entry k f es) =
    (if k' = k then map_option f (List.find (\<lambda>e. e_key e = k') es) else List.find (\<lambda>e. e_key e = k') es)"
  using assms by (induction es) auto

lemma keys_update_entry:
  "(\<And>e. e_key (f e) = e_key e) \<Longrightarrow> map e_key (update_entry k f es) = map e_key es"
  by (induction es) auto

lemma set_update_entry: "e \<in> set (update_entry k f es) \<Longrightarrow> e \<in> set es \<or> (\<exists>e' \<in> set es. e_key e' = k \<and> e = f e')"
  by (induction es) (auto split: if_splits)

lemma find_entry_None: "List.find (\<lambda>e. e_key e = k) es = None \<longleftrightarrow> k \<notin> e_key ` set es"
  by (auto simp: find_None_iff)

lemma find_entry_key: "List.find (\<lambda>e. e_key e = k) es = Some e \<Longrightarrow> e_key e = k \<and> e \<in> set es"
  by (metis (mono_tags, lifting) find_Some_iff nth_mem)

lemma find_append: "List.find P (xs @ ys) = (case List.find P xs of None \<Rightarrow> List.find P ys | Some x \<Rightarrow> Some x)"
  by (induction xs) auto

lemma set_delete_entry: "set (delete_entry k es) \<subseteq> set es"
  by (induction es) auto

lemma distinct_delete_entry: "distinct (map e_key es) \<Longrightarrow> distinct (map e_key (delete_entry k es))"
  by (induction es) (use set_delete_entry in \<open>fastforce\<close>)+

lemma find_delete_entry:
  "distinct (map e_key es) \<Longrightarrow> List.find (\<lambda>e. e_key e = k') (delete_entry k es) =
     (if k' = k then None else List.find (\<lambda>e. e_key e = k') es)"
  by (induction es) (auto simp: find_entry_None)

lemmas sm_defs = setObject_def remove_sm_def unlink_def getObject_def find_sm_def

lemma sm_find_cases:
  obtains (found) e where "find_sm U (Some k) m = Some e" "e_key e = fold_key U (sm_ignoreCase m) k" "e \<in> set (sm_data m)"
  | (missing) "find_sm U (Some k) m = None" "fold_key U (sm_ignoreCase m) k \<notin> e_key ` set (sm_data m)"
  by (cases "find_sm U (Some k) m") (auto simp: find_sm_def find_entry_None dest: find_entry_key)

lemma sm_ok_set: "sm_ok U m \<Longrightarrow> sm_ok U (setObject U (Some k) v m)"
proof (cases rule: sm_find_cases [where U = U and k = k and m = m])
  case (found e)
  assume "sm_ok U m"
  with found show ?thesis
    by (auto simp: sm_ok_def setObject_def fold_key_def keys_update_entry dest!: set_update_entry)
next
  case missing
  assume "sm_ok U m"
  with missing show ?thesis by (auto simp: sm_ok_def setObject_def fold_key_def)
qed

lemma sm_ok_remove: "sm_ok U m \<Longrightarrow> sm_ok U (remove_sm U key m)"
  using set_delete_entry
  by (fastforce simp: sm_ok_def remove_sm_def distinct_delete_entry split: option.split)

lemma get_set:
  "getObject U (Some k') (setObject U (Some k) (Some v) m) =
     (if fold_key U (sm_ignoreCase m) k' = fold_key U (sm_ignoreCase m) k then Some v else getObject U (Some k') m)"
proof (cases rule: sm_find_cases [where U = U and k = k and m = m])
  case (found e)
  let ?K = "\<lambda>k. fold_key U (sm_ignoreCase m) k"
  let ?f = "\<lambda>e :: 'a sm_entry. e\<lparr> e_value := Some v, e_originalKey := (if sm_ignoreCase m then Some k else e_originalKey e) \<rparr>"
  have "List.find (\<lambda>e. e_key e = ?K k') (update_entry (?K k) ?f (sm_data m)) =
      (if ?K k' = ?K k then map_option ?f (List.find (\<lambda>e. e_key e = ?K k') (sm_data m))
       else List.find (\<lambda>e. e_key e = ?K k') (sm_data m))"
    by (rule find_update_entry) simp
  with found show ?thesis by (simp add: setObject_def getObject_def find_sm_def)
next
  case missing
  then have "List.find (\<lambda>e. e_key e = fold_key U (sm_ignoreCase m) k) (sm_data m) = None"
    by (simp add: find_entry_None)
  with missing(1) show ?thesis by (simp add: setObject_def getObject_def find_sm_def find_append split: option.split)
qed

lemma get_remove:
  assumes "sm_ok U m"
  shows "getObject U (Some k') (remove_sm U (Some k) m) =
     (if fold_key U (sm_ignoreCase m) k' = fold_key U (sm_ignoreCase m) k then None else getObject U (Some k') m)"
proof (cases rule: sm_find_cases [where U = U and k = k and m = m])
  case (found e)
  with assms show ?thesis by (simp add: sm_ok_def remove_sm_def getObject_def find_sm_def find_delete_entry)
next
  case missing
  then show ?thesis by (auto simp: remove_sm_def getObject_def find_sm_def)
qed

lemma mode_frame [simp]:
  "sm_ignoreCase (setObject U key v m) = sm_ignoreCase m" "sm_ignoreCase (remove_sm U key m) = sm_ignoreCase m"
  "sm_objectOwner (setObject U key v m) = sm_objectOwner m" "sm_objectOwner (remove_sm U key m) = sm_objectOwner m"
  by (simp_all add: setObject_def remove_sm_def split: option.split)

interpretation sm: store "\<lambda>m. sm_ok U m \<and> sm_ignoreCase m = b" "fold_key U b"
  "\<lambda>k. getObject U (Some k)" "\<lambda>k v. setObject U (Some k) (Some v)" "\<lambda>k. remove_sm U (Some k)" for U b
  by unfold_locales (auto simp: sm_ok_set sm_ok_remove get_set get_remove)

section \<open>Ownership\<close>

text \<open>The objects an owning map has received and not handed back: stored or destroyed.\<close>

definition stored :: "'v sm_entry list \<Rightarrow> 'v multiset" where
  "stored es = mset (List.map_filter e_value es)"

definition owned :: "'v strmap \<Rightarrow> 'v multiset" where
  "owned m = mset (sm_destroyed m) + stored (sm_data m)"

definition opt_mset :: "'v option \<Rightarrow> 'v multiset" where
  "opt_mset v = (case v of None \<Rightarrow> {#} | Some x \<Rightarrow> {#x#})"

lemma stored_simps [simp]: "stored [] = {#}" "stored (e # es) = opt_mset (e_value e) + stored es"
  "stored (xs @ ys) = stored xs + stored ys"
  by (simp_all add: stored_def opt_mset_def map_filter_simps map_filter_def split: option.split)

lemma stored_update:
  "List.find (\<lambda>e. e_key e = k) es = Some e \<Longrightarrow> stored (update_entry k f es) + opt_mset (e_value e) = stored es + opt_mset (e_value (f e))"
  by (induction es) (auto split: if_splits)

lemma stored_delete: "List.find (\<lambda>e. e_key e = k) es = Some e \<Longrightarrow> stored (delete_entry k es) + opt_mset (e_value e) = stored es"
  by (induction es) (auto split: if_splits)

lemma destroyed_dispose: "sm_objectOwner m \<Longrightarrow> mset (sm_destroyed (dispose v m)) = mset (sm_destroyed m) + opt_mset v"
  by (simp add: dispose_def destroyObject_sm_def opt_mset_def split: option.split)

lemma owned_set:
  assumes "sm_objectOwner m"
  shows "owned (setObject U (Some k) (Some v) m) = owned m + {#v#}"
proof (cases rule: sm_find_cases [where U = U and k = k and m = m])
  case (found e)
  then have f: "List.find (\<lambda>x. e_key x = e_key e) (sm_data m) = Some e" by (simp add: find_sm_def)
  let ?f = "\<lambda>e :: 'a sm_entry. e\<lparr> e_value := Some v, e_originalKey := (if sm_ignoreCase m then Some k else e_originalKey e) \<rparr>"
  have "owned (setObject U (Some k) (Some v) m) =
      mset (sm_destroyed m) + opt_mset (e_value e) + stored (update_entry (e_key e) ?f (sm_data m))"
    using found(1) assms by (simp add: owned_def setObject_def destroyed_dispose)
  also have "\<dots> = mset (sm_destroyed m) + (stored (update_entry (e_key e) ?f (sm_data m)) + opt_mset (e_value e))"
    by (simp only: ac_simps)
  also have "\<dots> = owned m + {#v#}"
    unfolding stored_update [OF f] by (simp add: owned_def opt_mset_def [of "Some v"])
  finally show ?thesis .
next
  case missing
  then show ?thesis by (simp add: owned_def setObject_def opt_mset_def [of "Some v"])
qed

lemma owned_remove:
  assumes "sm_objectOwner m"
  shows "owned (remove_sm U (Some k) m) = owned m"
proof (cases rule: sm_find_cases [where U = U and k = k and m = m])
  case (found e)
  then have f: "List.find (\<lambda>x. e_key x = e_key e) (sm_data m) = Some e" by (simp add: find_sm_def)
  show ?thesis
    using found stored_delete [OF f] assms
    by (simp add: owned_def remove_sm_def destroyed_dispose ac_simps)
qed (simp add: remove_sm_def)

definition sm_step :: "(wchar \<Rightarrow> wchar) \<Rightarrow> (wstr, 'v) store_op \<Rightarrow> 'v strmap \<Rightarrow> 'v strmap" where
  "sm_step U = (\<lambda>op. case op of Insert_op k v \<Rightarrow> setObject U (Some k) (Some v) | Delete_op k \<Rightarrow> remove_sm U (Some k))"

definition sm_meaning :: "(wchar \<Rightarrow> wchar) \<Rightarrow> (wstr, 'v) store_op \<Rightarrow> (wstr \<Rightarrow> 'v option) \<Rightarrow> wstr \<Rightarrow> 'v option" where
  "sm_meaning U = (\<lambda>op f. case op of Insert_op k v \<Rightarrow> f(map U k := Some v) | Delete_op k \<Rightarrow> f(map U k := None))"

lemma sm_step_apply: "sm_step U = sm.apply_op U"
  by (intro ext) (simp add: sm_step_def split: store_op.split)

lemma sm_meaning_eq: "sm_meaning U = sm.meaning U True"
  by (intro ext) (auto simp: sm_meaning_def fold_key_def split: store_op.split)

lemma owned_steps:
  "sm_objectOwner m \<Longrightarrow> owned (fold (sm_step U) ops m) =
     owned m + mset (List.map_filter (\<lambda>op. case op of Insert_op k v \<Rightarrow> Some v | Delete_op k \<Rightarrow> None) ops)"
  by (induction ops arbitrary: m)
    (simp_all add: sm_step_def owned_set owned_remove map_filter_simps ac_simps split: store_op.split)

text \<open>
  C40. A string map that owns its objects: after any sequence of insertions and removals the keys
  are distinct, a lookup returns what the sequence means on a map from upper case keys, and the
  objects inserted are exactly those still stored together with those destroyed, each once.
\<close>

theorem strmap_implements_map:
  "sm_ok U (fold (sm_step U) ops (new_strmap True)) \<and>
   (\<forall>k. getObject U (Some k) (fold (sm_step U) ops (new_strmap True)) = fold (sm_meaning U) ops Map.empty (map U k)) \<and>
   owned (fold (sm_step U) ops (new_strmap True)) =
     mset (List.map_filter (\<lambda>op. case op of Insert_op k v \<Rightarrow> Some v | Delete_op k \<Rightarrow> None) ops)"
proof -
  have "sm_ok U (new_strmap True :: 'a strmap)" "\<forall>k. getObject U (Some k) (new_strmap True :: 'a strmap) = None"
    by (simp_all add: new_strmap_def sm_ok_def getObject_def find_sm_def)
  then show ?thesis
    using sm.ops_refine [of U "new_strmap True :: 'a strmap" True Map.empty ops] owned_steps [of "new_strmap True" U ops]
    by (simp add: sm_step_apply sm_meaning_eq fold_key_def new_strmap_def owned_def)
qed

end
