(* ===== verification/Nx_Alarm.thy ===== *)
theory Nx_Alarm
  imports Nx_StrMap "HOL-Library.AList"
begin

text \<open>
  The alarm manager (\<^verbatim>\<open>src/src/server/core/alarm.cpp\<close>). The alarm list is the list of its alarms
  in the order of their identifiers, with a string map from keys to alarms; a pointer to an
  alarm is its identifier, and every access through a pointer is a lookup. The per object
  severity summary is a function of the object. What an operation sends elsewhere (clients,
  database, scripts, events, background tasks) is appended to a log. Time, the help desk, access
  rights and the objects of the server are parameters.
\<close>

section \<open>Severity summary of an object\<close>

abbreviation (input) "STATUS_CRITICAL \<equiv> (4 :: int)"
abbreviation (input) "STATUS_UNKNOWN \<equiv> (5 :: int)"

record obj_severity =
  os_severities :: "(u32 \<times> int) list"
  os_mostCritical :: int

definition new_severity :: obj_severity where
  "new_severity = \<lparr> os_severities = [], os_mostCritical = - 1 \<rparr>"

fun most_critical_loop :: "int \<Rightarrow> (u32 \<times> int) list \<Rightarrow> int" where
  "most_critical_loop m [] = m"
| "most_critical_loop m (x # xs) =
     (if m < STATUS_CRITICAL then most_critical_loop (if snd x > m then snd x else m) xs else m)"

definition updateMostCritical :: "obj_severity \<Rightarrow> obj_severity" where
  "updateMostCritical s = s\<lparr> os_mostCritical := most_critical_loop (- 1) (os_severities s) \<rparr>"

definition updateAlarm :: "u32 \<Rightarrow> int \<Rightarrow> obj_severity \<Rightarrow> obj_severity" where
  "updateAlarm alarmId severity s =
     (case map_of (os_severities s) alarmId of
        None \<Rightarrow> s\<lparr> os_severities := os_severities s @ [(alarmId, severity)],
                  os_mostCritical := (if severity > os_mostCritical s then severity else os_mostCritical s) \<rparr>
      | Some old \<Rightarrow>
          if old \<noteq> severity then
            (let s' = s\<lparr> os_severities := AList.update alarmId severity (os_severities s) \<rparr> in
             if old > severity then updateMostCritical s'
             else s'\<lparr> os_mostCritical := (if severity > os_mostCritical s then severity else os_mostCritical s) \<rparr>)
          else s)"

fun remove_pair :: "u32 \<Rightarrow> (u32 \<times> int) list \<Rightarrow> (u32 \<times> int) list" where
  "remove_pair k [] = []"
| "remove_pair k (x # xs) = (if fst x = k then xs else x # remove_pair k xs)"

definition removeAlarm :: "u32 \<Rightarrow> obj_severity \<Rightarrow> obj_severity" where
  "removeAlarm alarmId s =
     (case map_of (os_severities s) alarmId of
        None \<Rightarrow> s
      | Some severity \<Rightarrow>
          (let s' = s\<lparr> os_severities := remove_pair alarmId (os_severities s) \<rparr> in
           if severity \<ge> os_mostCritical s then updateMostCritical s' else s'))"

definition getMostCritical :: "obj_severity \<Rightarrow> int" where
  "getMostCritical s = (if os_mostCritical s \<noteq> - 1 then os_mostCritical s else STATUS_UNKNOWN)"

text \<open>Counts by severity; the source indexes an array of five.\<close>

definition getStats :: "obj_severity \<Rightarrow> fault + int list" where
  "getStats s = foldl (\<lambda>r x. sum_bind r (\<lambda>stats.
       if 0 \<le> snd x \<and> snd x < 5 then Inr (stats[nat (snd x) := stats ! nat (snd x) + 1]) else Inl Bad_access))
     (Inr [0, 0, 0, 0, 0]) (os_severities s)"

section \<open>Alarms\<close>

abbreviation (input) "ALARM_STATE_OUTSTANDING \<equiv> (0 :: u8)"
abbreviation (input) "ALARM_STATE_ACKNOWLEDGED \<equiv> (1 :: u8)"
abbreviation (input) "ALARM_STATE_RESOLVED \<equiv> (2 :: u8)"
abbreviation (input) "ALARM_STATE_TERMINATED \<equiv> (3 :: u8)"
abbreviation (input) "ALARM_STATE_MASK \<equiv> (15 :: u8)"
abbreviation (input) "ALARM_STATE_STICKY \<equiv> (16 :: u8)"
abbreviation (input) "ALARM_HELPDESK_IGNORED \<equiv> (0 :: u8)"
abbreviation (input) "ALARM_HELPDESK_OPEN \<equiv> (1 :: u8)"
abbreviation (input) "ALARM_HELPDESK_CLOSED \<equiv> (2 :: u8)"
abbreviation (input) "ALARM_KEY_SIZE \<equiv> (256 :: nat)"
abbreviation (input) "ALARM_MESSAGE_SIZE \<equiv> (2000 :: nat)"
abbreviation (input) "HELPDESK_REF_SIZE \<equiv> (64 :: nat)"
abbreviation (input) "INVALID_UID \<equiv> (0xFFFFFFFF :: u32)"

record alarm =
  a_sourceEventId :: u64
  a_alarmId :: u32
  a_parentAlarmId :: u32
  a_rcaScriptName :: "wstr option"
  a_creationTime :: int
  a_lastChangeTime :: int
  a_lastStateChangeTime :: int
  a_ruleGuid :: wstr
  a_ruleDescription :: wstr
  a_sourceObject :: u32
  a_zoneUIN :: u32
  a_sourceEventCode :: u32
  a_eventTags :: wstr
  a_dciId :: u32
  a_currentSeverity :: u8
  a_originalSeverity :: u8
  a_state :: u8
  a_helpDeskState :: u8
  a_ackByUser :: u32
  a_resolvedByUser :: u32
  a_termByUser :: u32
  a_ackTimeout :: int
  a_repeatCount :: u32
  a_timeout :: u32
  a_timeoutEvent :: u32
  a_message :: wstr
  a_key :: wstr
  a_helpDeskRef :: wstr
  a_impact :: "wstr option"
  a_commentCount :: u32
  a_relatedEvents :: "u64 list"
  a_alarmCategoryList :: "u32 list"
  a_subordinateAlarms :: "u32 list"

record event =
  ev_id :: u64
  ev_code :: u32
  ev_sourceId :: u32
  ev_zoneUIN :: u32
  ev_dciId :: u32
  ev_tags :: wstr

text \<open>What an event processing rule passes on for an alarm.\<close>

record alarm_rule =
  r_guid :: wstr
  r_description :: wstr
  r_message :: wstr
  r_key :: wstr
  r_impact :: "wstr option"
  r_severity :: u8
  r_timeout :: u32
  r_timeoutEvent :: u32
  r_parentAlarmId :: u32
  r_rcaScriptName :: "wstr option"
  r_ackTimeout :: u32
  r_categories :: "u32 list"
  r_openHelpdeskIssue :: bool

datatype notify_code = New_alarm | Alarm_changed | Alarm_deleted | Alarm_terminated

datatype al_effect =
    Notify notify_code u32
  | Notify_in_background u32
  | Db_insert alarm
  | Db_update alarm
  | Db_delete u32
  | State_change u32 u8 u8 u32 int u32
  | Hook_script u32
  | Related_event u32 event
  | Recalculate_status u32
  | Timeout_event u32 u32 u32
  | Ack_in_background "u32 list" bool u32
  | Resolve_in_background "u32 list" bool
  | Bulk_notify bool u32 "u32 list"
  | Last_alarm_message wstr
  | Helpdesk_comment wstr wstr
  | Ai_comment u32

datatype rcc =
    RCC_SUCCESS
  | RCC_ACCESS_DENIED
  | RCC_INVALID_ALARM_ID
  | RCC_ALARM_NOT_OUTSTANDING
  | RCC_ALARM_OPEN_IN_HELPDESK
  | RCC_OUT_OF_STATE_REQUEST
  | RCC_INVALID_ARGUMENT
  | RCC_INVALID_ALARM_NOTE_ID
  | RCC_DB_FAILURE
  | RCC_FROM_HELPDESK

record al_env =
  v_time :: int
  v_toupper :: "wchar \<Rightarrow> wchar"
  v_ignoreHelpdesk :: bool
  v_issueOpen :: "wstr \<Rightarrow> bool option"
  v_createIssue :: "wstr \<Rightarrow> wstr option"
  v_objectName :: "u32 \<Rightarrow> wstr"
  v_objectExists :: "u32 \<Rightarrow> bool"
  v_access :: "u32 \<Rightarrow> u32 \<Rightarrow> bool \<Rightarrow> bool"
  v_resolveExpirationTime :: int
  v_dciComments :: "u32 \<Rightarrow> u32 \<Rightarrow> wstr"
  v_noteValid :: "u32 \<Rightarrow> u32 \<Rightarrow> bool"
  v_noteWritten :: bool

record alarm_mgr =
  al_alarms :: "alarm list"
  al_keyIndex :: "u32 strmap"
  al_severity :: "u32 \<Rightarrow> obj_severity option"
  al_rootCauseUpdateNeeded :: bool
  al_rootCauseUpdatePossible :: bool
  al_log :: "al_effect list"

definition emit :: "al_effect list \<Rightarrow> alarm_mgr \<Rightarrow> alarm_mgr" where
  "emit es m = m\<lparr> al_log := al_log m @ es \<rparr>"

definition find_alarm :: "u32 \<Rightarrow> alarm_mgr \<Rightarrow> alarm option" where
  "find_alarm i m = List.find (\<lambda>a. a_alarmId a = i) (al_alarms m)"

definition find_key :: "al_env \<Rightarrow> wstr \<Rightarrow> alarm_mgr \<Rightarrow> u32 option" where
  "find_key V key m = getObject (v_toupper V) (Some key) (al_keyIndex m)"

text \<open>An access through the pointer to an alarm: the alarm changes in place and effects are emitted.\<close>

definition on_alarm :: "u32 \<Rightarrow> (alarm \<Rightarrow> alarm \<times> al_effect list) \<Rightarrow> alarm_mgr \<Rightarrow> alarm_mgr" where
  "on_alarm i f m =
     (case find_alarm i m of
        None \<Rightarrow> m
      | Some a \<Rightarrow> emit (snd (f a)) (m\<lparr> al_alarms := map (\<lambda>b. if a_alarmId b = i then fst (f a) else b) (al_alarms m) \<rparr>))"

section \<open>Operations of one alarm\<close>

fun squeeze :: "wstr \<Rightarrow> wstr" where
  "squeeze (c # d # cs) = (if c = 32 \<and> d = 32 then 32 # squeeze cs else c # squeeze (d # cs))"
| "squeeze cs = cs"

definition rule_description :: "wstr \<Rightarrow> wstr" where
  "rule_description s =
     wcslcpy (squeeze (map (\<lambda>c. if c = 10 \<or> c = 13 \<or> c = 9 then 32 else c) s)) ALARM_KEY_SIZE"

definition new_alarm :: "al_env \<Rightarrow> alarm_rule \<Rightarrow> event \<Rightarrow> u32 \<Rightarrow> alarm" where
  "new_alarm V r ev newId = \<lparr>
     a_sourceEventId = ev_id ev, a_alarmId = newId, a_parentAlarmId = r_parentAlarmId r,
     a_rcaScriptName = r_rcaScriptName r, a_creationTime = v_time V, a_lastChangeTime = v_time V,
     a_lastStateChangeTime = v_time V, a_ruleGuid = r_guid r, a_ruleDescription = rule_description (r_description r),
     a_sourceObject = ev_sourceId ev, a_zoneUIN = ev_zoneUIN ev, a_sourceEventCode = ev_code ev,
     a_eventTags = ev_tags ev, a_dciId = ev_dciId ev, a_currentSeverity = r_severity r,
     a_originalSeverity = r_severity r, a_state = ALARM_STATE_OUTSTANDING,
     a_helpDeskState = ALARM_HELPDESK_IGNORED, a_ackByUser = INVALID_UID, a_resolvedByUser = INVALID_UID,
     a_termByUser = INVALID_UID, a_ackTimeout = 0, a_repeatCount = 1, a_timeout = r_timeout r,
     a_timeoutEvent = r_timeoutEvent r, a_message = wcslcpy (r_message r) ALARM_MESSAGE_SIZE,
     a_key = wcslcpy (r_key r) ALARM_KEY_SIZE, a_helpDeskRef = [], a_impact = r_impact r, a_commentCount = 0,
     a_relatedEvents = [ev_id ev], a_alarmCategoryList = r_categories r, a_subordinateAlarms = [] \<rparr>"

definition updateStateChangeLog :: "u8 \<Rightarrow> u32 \<Rightarrow> alarm \<Rightarrow> alarm \<times> al_effect list" where
  "updateStateChangeLog prevState userId a =
     (a\<lparr> a_lastStateChangeTime := a_lastChangeTime a \<rparr>,
      [State_change (a_alarmId a) prevState (a_state a AND ALARM_STATE_MASK) (word_of_int (a_lastChangeTime a))
         (if a_lastStateChangeTime a < a_lastChangeTime a
          then sint (word_of_int (a_lastChangeTime a - a_lastStateChangeTime a) :: u32) else 0) userId])"

definition updateFromEvent :: "al_env \<Rightarrow> alarm_rule \<Rightarrow> event \<Rightarrow> u8 \<Rightarrow> alarm \<Rightarrow> alarm \<times> al_effect list" where
  "updateFromEvent V r ev state a =
     (let prevState = a_state a AND ALARM_STATE_MASK;
          stateChanged = (a_state a AND ALARM_STATE_STICKY = 0 \<and> a_state a \<noteq> state);
          newState = (if stateChanged then state else a_state a);
          a1 = a\<lparr> a_repeatCount := a_repeatCount a + 1, a_parentAlarmId := r_parentAlarmId r,
            a_rcaScriptName := r_rcaScriptName r, a_ruleGuid := r_guid r,
            a_ruleDescription := rule_description (r_description r), a_lastChangeTime := v_time V,
            a_sourceObject := ev_sourceId ev, a_dciId := ev_dciId ev, a_state := newState,
            a_sourceEventId := ev_id ev, a_sourceEventCode := ev_code ev, a_currentSeverity := r_severity r,
            a_timeout := r_timeout r, a_timeoutEvent := r_timeoutEvent r,
            a_ackTimeout := (if newState AND ALARM_STATE_STICKY = 0 then uint (r_ackTimeout r) else a_ackTimeout a),
            a_message := wcslcpy (r_message r) ALARM_MESSAGE_SIZE, a_impact := r_impact r,
            a_alarmCategoryList := r_categories r \<rparr>;
          (a2, eff) = (if stateChanged
             then (let (a', e) = updateStateChangeLog prevState 0 a1 in (a', Hook_script (a_alarmId a) # e)) else (a1, []))
      in (a2, [Notify Alarm_changed (a_alarmId a)] @ eff @ [Db_update a2]))"

definition acknowledge ::
  "al_env \<Rightarrow> u32 option \<Rightarrow> bool \<Rightarrow> u32 \<Rightarrow> bool \<Rightarrow> alarm \<Rightarrow> rcc \<times> alarm \<times> al_effect list" where
  "acknowledge V session sticky actionTime includeSubordinates a =
     (if a_state a AND ALARM_STATE_MASK \<noteq> ALARM_STATE_OUTSTANDING then (RCC_ALARM_NOT_OUTSTANDING, a, [])
      else
        (let user = (case session of Some u \<Rightarrow> u | None \<Rightarrow> 0);
             a1 = a\<lparr> a_ackTimeout := (if actionTime \<noteq> 0 then uint (word_of_int (v_time V) + actionTime) else 0),
               a_state := (if sticky then ALARM_STATE_ACKNOWLEDGED OR ALARM_STATE_STICKY else ALARM_STATE_ACKNOWLEDGED),
               a_ackByUser := user, a_lastChangeTime := v_time V \<rparr>;
             (a2, e) = updateStateChangeLog (a_state a AND ALARM_STATE_MASK) user a1
         in (RCC_SUCCESS, a2, [Notify Alarm_changed (a_alarmId a)] @ e @ [Db_update a2, Hook_script (a_alarmId a)] @
              (if includeSubordinates \<and> a_subordinateAlarms a \<noteq> []
               then [Ack_in_background (a_subordinateAlarms a) sticky actionTime] else []))))"

definition resolve ::
  "al_env \<Rightarrow> u32 \<Rightarrow> event option \<Rightarrow> bool \<Rightarrow> bool \<Rightarrow> bool \<Rightarrow> alarm \<Rightarrow> alarm \<times> al_effect list" where
  "resolve V userId ev terminate notify includeSubordinates a =
     (let a1 = (if terminate then a\<lparr> a_termByUser := userId \<rparr> else a\<lparr> a_resolvedByUser := userId \<rparr>)\<lparr>
            a_lastChangeTime := v_time V,
            a_state := (if terminate then ALARM_STATE_TERMINATED else ALARM_STATE_RESOLVED), a_ackTimeout := 0,
            a_helpDeskState := (if a_helpDeskState a \<noteq> ALARM_HELPDESK_IGNORED then ALARM_HELPDESK_CLOSED else a_helpDeskState a) \<rparr>;
          (a2, e) = updateStateChangeLog (a_state a AND ALARM_STATE_MASK) userId a1;
          (a3, rel) = (case ev of
              Some event \<Rightarrow> if \<not> terminate \<and> ev_id event \<notin> set (a_relatedEvents a2)
                then (a2\<lparr> a_relatedEvents := a_relatedEvents a2 @ [ev_id event] \<rparr>, [Related_event (a_alarmId a) event])
                else (a2, [])
            | None \<Rightarrow> (a2, []))
      in (a3,
          (if includeSubordinates \<and> a_subordinateAlarms a \<noteq> [] then [Resolve_in_background (a_subordinateAlarms a) terminate] else []) @
          (if ev \<noteq> None then [Last_alarm_message (a_message a)] else []) @
          (if notify then [Notify (if terminate then Alarm_terminated else Alarm_changed) (a_alarmId a)] else []) @
          e @ [Db_update a2, Hook_script (a_alarmId a)] @ rel))"

definition openHelpdeskIssue :: "al_env \<Rightarrow> alarm \<Rightarrow> rcc \<times> alarm \<times> al_effect list" where
  "openHelpdeskIssue V a =
     (if a_helpDeskState a = ALARM_HELPDESK_IGNORED then
        (case v_createIssue V (v_objectName V (a_sourceObject a) @ [58, 32] @ a_message a) of
           Some hdref \<Rightarrow>
             (let a1 = a\<lparr> a_helpDeskRef := hdref, a_helpDeskState := ALARM_HELPDESK_OPEN \<rparr>
              in (RCC_SUCCESS, a1, [Notify Alarm_changed (a_alarmId a), Db_update a1]))
         | None \<Rightarrow> (RCC_FROM_HELPDESK, a, []))
      else (RCC_OUT_OF_STATE_REQUEST, a, []))"

definition setHelpdeskReference :: "wstr option \<Rightarrow> alarm \<Rightarrow> rcc \<times> alarm \<times> al_effect list" where
  "setHelpdeskReference hdref a =
     (if a_helpDeskState a \<noteq> ALARM_HELPDESK_IGNORED then (RCC_OUT_OF_STATE_REQUEST, a, [])
      else case hdref of
        None \<Rightarrow> (RCC_INVALID_ARGUMENT, a, [])
      | Some t \<Rightarrow> if t = [] then (RCC_INVALID_ARGUMENT, a, [])
          else (let a1 = a\<lparr> a_helpDeskRef := wcslcpy t HELPDESK_REF_SIZE, a_helpDeskState := ALARM_HELPDESK_OPEN \<rparr>
                in (RCC_SUCCESS, a1, [Notify Alarm_changed (a_alarmId a), Db_update a1])))"

definition unlinkFromHelpdesk :: "alarm \<Rightarrow> alarm" where
  "unlinkFromHelpdesk a = a\<lparr> a_helpDeskState := ALARM_HELPDESK_IGNORED, a_helpDeskRef := [] \<rparr>"

definition onHelpdeskIssueClose :: "alarm \<Rightarrow> alarm" where
  "onHelpdeskIssueClose a = a\<lparr> a_helpDeskState := ALARM_HELPDESK_CLOSED \<rparr>"

definition updateAlarmComment :: "al_env \<Rightarrow> u32 \<Rightarrow> wstr \<Rightarrow> bool \<Rightarrow> alarm \<Rightarrow> rcc \<times> alarm \<times> al_effect list" where
  "updateAlarmComment V commentId t syncWithHelpdesk a =
     (let rcc = (if commentId \<noteq> 0 \<and> \<not> v_noteValid V (a_alarmId a) commentId then RCC_INVALID_ALARM_NOTE_ID
                 else if v_noteWritten V then RCC_SUCCESS else RCC_DB_FAILURE)
      in if rcc = RCC_SUCCESS then
           (rcc, (if commentId = 0 then a\<lparr> a_commentCount := a_commentCount a + 1 \<rparr> else a),
            [Notify Alarm_changed (a_alarmId a)] @
            (if syncWithHelpdesk \<and> a_helpDeskState a = ALARM_HELPDESK_OPEN then [Helpdesk_comment (a_helpDeskRef a) t] else []))
         else (rcc, a, []))"

definition deleteComment :: "al_env \<Rightarrow> u32 \<Rightarrow> alarm \<Rightarrow> rcc \<times> alarm \<times> al_effect list" where
  "deleteComment V commentId a =
     (if \<not> v_noteValid V (a_alarmId a) commentId then (RCC_INVALID_ALARM_NOTE_ID, a, [])
      else if v_noteWritten V then
        (RCC_SUCCESS, a\<lparr> a_commentCount := a_commentCount a - 1 \<rparr>, [Notify Alarm_changed (a_alarmId a)])
      else (RCC_DB_FAILURE, a, []))"

definition checkCategoryAccess :: "(u32 \<Rightarrow> u32 \<Rightarrow> bool) \<Rightarrow> u32 \<Rightarrow> bool \<Rightarrow> alarm \<Rightarrow> bool" where
  "checkCategoryAccess catAccess userId viewAll a \<longleftrightarrow>
     userId = 0 \<or> viewAll \<or> list_ex (catAccess userId) (a_alarmCategoryList a)"

section \<open>The alarm list\<close>

definition recalculateObjectStatus :: "al_env \<Rightarrow> u32 \<Rightarrow> alarm_mgr \<Rightarrow> alarm_mgr" where
  "recalculateObjectStatus V obj m = (if v_objectExists V obj then emit [Recalculate_status obj] m else m)"

definition updateObjectOnAlarmUpdate :: "al_env \<Rightarrow> u32 \<Rightarrow> alarm \<Rightarrow> bool \<Rightarrow> alarm_mgr \<Rightarrow> alarm_mgr" where
  "updateObjectOnAlarmUpdate V obj a recalculate m =
     (let s = (case al_severity m obj of Some s \<Rightarrow> s | None \<Rightarrow> new_severity);
          m1 = m\<lparr> al_severity := (al_severity m)(obj := Some (updateAlarm (a_alarmId a) (uint (a_currentSeverity a)) s)) \<rparr>
      in if recalculate then recalculateObjectStatus V obj m1 else m1)"

definition updateObjectOnAlarmResolve :: "al_env \<Rightarrow> u32 \<Rightarrow> u32 \<Rightarrow> bool \<Rightarrow> alarm_mgr \<Rightarrow> alarm_mgr" where
  "updateObjectOnAlarmResolve V obj alarmId recalculate m =
     (let m1 = (case al_severity m obj of
            Some s \<Rightarrow> m\<lparr> al_severity := (al_severity m)(obj := Some (removeAlarm alarmId s)) \<rparr> | None \<Rightarrow> m)
      in if recalculate then recalculateObjectStatus V obj m1 else m1)"

definition getMostCriticalAlarmForObject :: "u32 \<Rightarrow> alarm_mgr \<Rightarrow> int" where
  "getMostCriticalAlarmForObject obj m =
     (case al_severity m obj of Some s \<Rightarrow> getMostCritical s | None \<Rightarrow> STATUS_UNKNOWN)"

definition getAlarmStatsForObject :: "u32 \<Rightarrow> alarm_mgr \<Rightarrow> fault + int list" where
  "getAlarmStatsForObject obj m =
     (case al_severity m obj of Some s \<Rightarrow> getStats s | None \<Rightarrow> Inr [0, 0, 0, 0, 0])"

definition addSubordinateAlarm :: "u32 \<Rightarrow> u32 \<Rightarrow> alarm_mgr \<Rightarrow> alarm_mgr" where
  "addSubordinateAlarm parent i = on_alarm parent (\<lambda>a.
     (if i \<in> set (a_subordinateAlarms a) then a
      else a\<lparr> a_subordinateAlarms := a_subordinateAlarms a @ [i] \<rparr>, []))"

definition removeSubordinateAlarm :: "u32 \<Rightarrow> u32 \<Rightarrow> alarm_mgr \<Rightarrow> alarm_mgr" where
  "removeSubordinateAlarm parent i = on_alarm parent (\<lambda>a.
     (a\<lparr> a_subordinateAlarms := remove1 i (a_subordinateAlarms a) \<rparr>, [Notify_in_background parent]))"

definition add_alarm :: "al_env \<Rightarrow> alarm \<Rightarrow> alarm_mgr \<Rightarrow> alarm_mgr" where
  "add_alarm V a m =
     m\<lparr> al_alarms := insort_key a_alarmId a (filter (\<lambda>b. a_alarmId b \<noteq> a_alarmId a) (al_alarms m)),
        al_keyIndex := (if a_key a \<noteq> []
          then setObject (v_toupper V) (Some (a_key a)) (Some (a_alarmId a)) (al_keyIndex m) else al_keyIndex m) \<rparr>"

definition remove_alarm :: "al_env \<Rightarrow> alarm \<Rightarrow> alarm_mgr \<Rightarrow> alarm_mgr" where
  "remove_alarm V a m =
     (let m1 = (if a_parentAlarmId a \<noteq> 0 then removeSubordinateAlarm (a_parentAlarmId a) (a_alarmId a) m else m)
      in m1\<lparr> al_alarms := filter (\<lambda>b. a_alarmId b \<noteq> a_alarmId a) (al_alarms m1),
             al_keyIndex := (if a_key a \<noteq> []
               then remove_sm (v_toupper V) (Some (a_key a)) (al_keyIndex m1) else al_keyIndex m1) \<rparr>)"

text \<open>The move of an alarm from the subordinates of one parent to those of another.\<close>

definition change_parent :: "u32 \<Rightarrow> u32 \<Rightarrow> u32 \<Rightarrow> alarm_mgr \<Rightarrow> alarm_mgr" where
  "change_parent i old new m =
     (if old \<noteq> new then
        (let m1 = (if old \<noteq> 0 then removeSubordinateAlarm old i m else m)
         in if new \<noteq> 0 then addSubordinateAlarm new i m1 else m1)
      else m)"

definition updateParentAlarm :: "u32 \<Rightarrow> u32 \<Rightarrow> alarm_mgr \<Rightarrow> alarm_mgr" where
  "updateParentAlarm i parent m =
     (case find_alarm i m of
        None \<Rightarrow> m
      | Some a \<Rightarrow> on_alarm i (\<lambda>b. (b\<lparr> a_parentAlarmId := parent \<rparr>,
             [Notify Alarm_changed i, Db_update (b\<lparr> a_parentAlarmId := parent \<rparr>)]))
           (change_parent i (a_parentAlarmId a) parent m))"

section \<open>Creation\<close>

definition update_duplicate :: "al_env \<Rightarrow> alarm_rule \<Rightarrow> event \<Rightarrow> alarm \<Rightarrow> alarm_mgr \<Rightarrow> u32 \<times> bool \<times> alarm_mgr" where
  "update_duplicate V r ev a m =
     (let i = a_alarmId a;
          m1 = change_parent i (a_parentAlarmId a) (r_parentAlarmId r) m;
          m2 = on_alarm i (updateFromEvent V r ev ALARM_STATE_OUTSTANDING) m1;
          related = (ev_id ev \<in> set (a_relatedEvents a));
          m3 = (if related then m2
                else on_alarm i (\<lambda>b. (b\<lparr> a_relatedEvents := a_relatedEvents b @ [ev_id ev] \<rparr>, [])) m2);
          m4 = (if r_openHelpdeskIssue r then on_alarm i (\<lambda>b. snd (openHelpdeskIssue V b)) m3 else m3);
          m5 = (if a_sourceObject a \<noteq> ev_sourceId ev
                then updateObjectOnAlarmResolve V (a_sourceObject a) i True m4 else m4);
          m6 = (case find_alarm i m5 of Some b \<Rightarrow> updateObjectOnAlarmUpdate V (ev_sourceId ev) b True m5 | None \<Rightarrow> m5)
      in (if related then 0 else i, \<not> related, m6))"

definition create_new :: "al_env \<Rightarrow> alarm_rule \<Rightarrow> event \<Rightarrow> u32 \<Rightarrow> bool \<Rightarrow> alarm_mgr \<Rightarrow> alarm_mgr" where
  "create_new V r ev newId addAiComment m =
     (let a0 = new_alarm V r ev newId;
          (a, e) = (if r_openHelpdeskIssue r then snd (openHelpdeskIssue V a0) else (a0, []));
          m1 = updateObjectOnAlarmUpdate V (ev_sourceId ev) a False (add_alarm V a (emit e m));
          m2 = emit [Db_insert a] m1;
          m3 = (if r_parentAlarmId r \<noteq> 0 \<and> find_alarm (r_parentAlarmId r) m2 \<noteq> None
                then emit [Notify Alarm_changed (r_parentAlarmId r)] (addSubordinateAlarm (r_parentAlarmId r) newId m2) else m2);
          t = v_dciComments V (ev_sourceId ev) (ev_dciId ev);
          m4 = (if ev_dciId ev \<noteq> 0 \<and> t \<noteq> [] then on_alarm newId (\<lambda>b. snd (updateAlarmComment V 0 t True b)) m3 else m3);
          m5 = emit ((if addAiComment then [Ai_comment newId] else []) @ [Notify New_alarm newId]) m4
      in recalculateObjectStatus V (ev_sourceId ev) m5)"

definition CreateNewAlarm :: "al_env \<Rightarrow> alarm_rule \<Rightarrow> event \<Rightarrow> u32 \<Rightarrow> bool \<Rightarrow> alarm_mgr \<Rightarrow> u32 \<times> alarm_mgr" where
  "CreateNewAlarm V r ev newId addAiComment m =
     (let dup = (if r_key r \<noteq> [] then Option.bind (find_key V (r_key r) m) (\<lambda>i. find_alarm i m) else None);
          (alarmId, updateRelatedEvent, m1) =
            (case dup of Some a \<Rightarrow> update_duplicate V r ev a m
             | None \<Rightarrow> (newId, True, create_new V r ev newId addAiComment m));
          m2 = (if updateRelatedEvent then emit [Related_event alarmId ev] m1 else m1);
          m3 = (if al_rootCauseUpdateNeeded m2 then m2\<lparr> al_rootCauseUpdatePossible := True \<rparr>
                else if r_parentAlarmId r = 0 \<and> (case r_rcaScriptName r of None \<Rightarrow> False | Some t \<Rightarrow> t \<noteq> [])
                then m2\<lparr> al_rootCauseUpdateNeeded := True \<rparr> else m2)
      in (alarmId, m3))"

section \<open>Acknowledgement and resolution\<close>

text \<open>A method of an alarm that returns a result code.\<close>

definition with_alarm :: "alarm option \<Rightarrow> (alarm \<Rightarrow> rcc \<times> alarm \<times> al_effect list) \<Rightarrow> alarm_mgr \<Rightarrow> rcc \<times> alarm_mgr" where
  "with_alarm target f m =
     (case target of
        None \<Rightarrow> (RCC_INVALID_ALARM_ID, m)
      | Some a \<Rightarrow> (fst (f a), on_alarm (a_alarmId a) (\<lambda>b. snd (f b)) m))"

definition find_hdref :: "wstr \<Rightarrow> alarm_mgr \<Rightarrow> alarm option" where
  "find_hdref hdref m = List.find (\<lambda>a. a_helpDeskRef a = hdref) (al_alarms m)"

definition AckAlarmById :: "al_env \<Rightarrow> u32 \<Rightarrow> u32 option \<Rightarrow> bool \<Rightarrow> u32 \<Rightarrow> bool \<Rightarrow> alarm_mgr \<Rightarrow> rcc \<times> alarm_mgr" where
  "AckAlarmById V i session sticky actionTime sub m =
     with_alarm (find_alarm i m) (acknowledge V session sticky actionTime sub) m"

definition AckAlarmByHDRef :: "al_env \<Rightarrow> wstr \<Rightarrow> u32 option \<Rightarrow> bool \<Rightarrow> u32 \<Rightarrow> alarm_mgr \<Rightarrow> rcc \<times> alarm_mgr" where
  "AckAlarmByHDRef V hdref session sticky actionTime m =
     with_alarm (find_hdref hdref m) (acknowledge V session sticky actionTime False) m"

text \<open>The work of the bulk resolution: the alarm list and what is reported afterwards.\<close>

record bulk =
  b_mgr :: alarm_mgr
  b_processed :: "u32 list"
  b_objects :: "u32 list"
  b_failed :: "(u32 \<times> rcc) list"

definition helpdesk_check :: "al_env \<Rightarrow> alarm \<Rightarrow> alarm_mgr \<Rightarrow> alarm_mgr" where
  "helpdesk_check V a m =
     (if a_helpDeskState a = ALARM_HELPDESK_OPEN \<and> v_issueOpen V (a_helpDeskRef a) = Some False
      then on_alarm (a_alarmId a) (\<lambda>b. (onHelpdeskIssueClose b, [])) m else m)"

definition resolve_step :: "al_env \<Rightarrow> u32 option \<Rightarrow> bool \<Rightarrow> bool \<Rightarrow> u32 \<Rightarrow> bulk \<Rightarrow> bulk" where
  "resolve_step V session terminate sub currentId b =
     (case find_alarm currentId (b_mgr b) of
        None \<Rightarrow> b\<lparr> b_failed := b_failed b @ [(currentId, RCC_INVALID_ALARM_ID)] \<rparr>
      | Some a0 \<Rightarrow>
          (let m1 = helpdesk_check V a0 (b_mgr b);
               a = (case find_alarm currentId m1 of Some x \<Rightarrow> x | None \<Rightarrow> a0);
               obj = a_sourceObject a
           in
           if a_helpDeskState a \<noteq> ALARM_HELPDESK_OPEN \<or> v_ignoreHelpdesk V then
             (if terminate \<or> a_state a \<noteq> ALARM_STATE_RESOLVED then
                (if session \<noteq> None \<and> v_objectExists V obj \<and> \<not> v_access V (the session) obj terminate
                 then b\<lparr> b_mgr := m1, b_failed := b_failed b @ [(currentId, RCC_ACCESS_DENIED)] \<rparr>
                 else
                   (let m2 = on_alarm currentId (resolve V (case session of Some u \<Rightarrow> u | None \<Rightarrow> 0) None terminate False sub) m1;
                        m3 = updateObjectOnAlarmResolve V obj currentId False m2;
                        m4 = (if terminate then remove_alarm V a m3 else m3)
                    in b\<lparr> b_mgr := m4, b_processed := b_processed b @ [currentId],
                         b_objects := (if v_objectExists V obj \<and> obj \<notin> set (b_objects b)
                                       then b_objects b @ [obj] else b_objects b) \<rparr>))
              else b\<lparr> b_mgr := m1, b_processed := b_processed b @ [currentId] \<rparr>)
           else b\<lparr> b_mgr := m1, b_failed := b_failed b @ [(currentId, RCC_ALARM_OPEN_IN_HELPDESK)] \<rparr>))"

definition ResolveAlarmsById ::
  "al_env \<Rightarrow> u32 list \<Rightarrow> u32 option \<Rightarrow> bool \<Rightarrow> bool \<Rightarrow> alarm_mgr \<Rightarrow> (u32 \<times> rcc) list \<times> alarm_mgr" where
  "ResolveAlarmsById V ids session terminate sub m =
     (let b = fold (resolve_step V session terminate sub) ids
            \<lparr> b_mgr = m, b_processed = [], b_objects = [], b_failed = [] \<rparr>;
          m1 = emit [Bulk_notify terminate (case session of Some u \<Rightarrow> u | None \<Rightarrow> 0) (b_processed b)] (b_mgr b)
      in (b_failed b, fold (recalculateObjectStatus V) (b_objects b) m1))"

definition ResolveAlarmById :: "al_env \<Rightarrow> u32 \<Rightarrow> u32 option \<Rightarrow> bool \<Rightarrow> bool \<Rightarrow> alarm_mgr \<Rightarrow> rcc \<times> alarm_mgr" where
  "ResolveAlarmById V i session terminate sub m =
     (let (failed, m') = ResolveAlarmsById V [i] session terminate sub m
      in (case failed of [] \<Rightarrow> RCC_SUCCESS | f # _ \<Rightarrow> snd f, m'))"

definition may_resolve :: "al_env \<Rightarrow> bool \<Rightarrow> alarm \<Rightarrow> bool" where
  "may_resolve V terminate a \<longleftrightarrow>
     (a_helpDeskState a \<noteq> ALARM_HELPDESK_OPEN \<or> v_ignoreHelpdesk V) \<and> (terminate \<or> a_state a \<noteq> ALARM_STATE_RESOLVED)"

text \<open>The resolution of the alarms a search collected, by their pointers.\<close>

definition resolve_matched :: "al_env \<Rightarrow> event option \<Rightarrow> bool \<Rightarrow> bool \<Rightarrow> u32 \<Rightarrow> alarm_mgr \<Rightarrow> alarm_mgr" where
  "resolve_matched V ev terminate recalculate i m =
     (case find_alarm i m of
        None \<Rightarrow> m
      | Some a \<Rightarrow>
          (let m1 = updateObjectOnAlarmResolve V (a_sourceObject a) i recalculate (on_alarm i (resolve V 0 ev terminate True False) m)
           in if terminate then remove_alarm V a m1 else m1))"

definition collected_objects :: "alarm list \<Rightarrow> u32 list" where
  "collected_objects as = foldl (\<lambda>objs a. if a_sourceObject a \<in> set objs then objs else objs @ [a_sourceObject a]) [] as"

definition resolve_collected :: "al_env \<Rightarrow> event option \<Rightarrow> bool \<Rightarrow> alarm list \<Rightarrow> alarm_mgr \<Rightarrow> alarm_mgr" where
  "resolve_collected V ev terminate matched m =
     fold (recalculateObjectStatus V) (collected_objects matched)
       (fold (resolve_matched V ev terminate False) (map a_alarmId matched) m)"

definition ResolveAlarmByKeyRegexp :: "al_env \<Rightarrow> (wstr \<Rightarrow> bool) option \<Rightarrow> bool \<Rightarrow> event option \<Rightarrow> alarm_mgr \<Rightarrow> alarm_mgr" where
  "ResolveAlarmByKeyRegexp V preg terminate ev m =
     (case preg of
        None \<Rightarrow> m
      | Some matches \<Rightarrow>
          resolve_collected V ev terminate
            (List.map_filter (\<lambda>(key, p). case (key, p) of
                 (Some k, Some i) \<Rightarrow>
                   (case find_alarm i m of
                      Some a \<Rightarrow> if matches k \<and> may_resolve V terminate a then Some a else None
                    | None \<Rightarrow> None)
               | _ \<Rightarrow> None) (toArray (\<lambda>_ _. True) (al_keyIndex m))) m)"

definition ResolveAlarmByKeyExact :: "al_env \<Rightarrow> wstr \<Rightarrow> bool \<Rightarrow> event option \<Rightarrow> alarm_mgr \<Rightarrow> alarm_mgr" where
  "ResolveAlarmByKeyExact V key terminate ev m =
     (case Option.bind (find_key V key m) (\<lambda>i. find_alarm i m) of
        None \<Rightarrow> m
      | Some a \<Rightarrow>
          if may_resolve V terminate a then
            (let i = a_alarmId a;
                 m1 = on_alarm i (resolve V 0 ev terminate True False) m;
                 m2 = (if terminate then remove_alarm V a m1 else m1)
             in if a_sourceObject a \<noteq> 0 then updateObjectOnAlarmResolve V (a_sourceObject a) i True m2 else m2)
          else m)"

definition ResolveAlarmByKey ::
  "al_env \<Rightarrow> (wstr \<Rightarrow> (wstr \<Rightarrow> bool) option) \<Rightarrow> wstr \<Rightarrow> bool \<Rightarrow> bool \<Rightarrow> event option \<Rightarrow> alarm_mgr \<Rightarrow> alarm_mgr" where
  "ResolveAlarmByKey V compile key useRegexp terminate ev m =
     (if useRegexp then ResolveAlarmByKeyRegexp V (compile key) terminate ev m
      else ResolveAlarmByKeyExact V key terminate ev m)"

definition ResolveAlarmByDCObjectId :: "al_env \<Rightarrow> u32 \<Rightarrow> bool \<Rightarrow> alarm_mgr \<Rightarrow> alarm_mgr" where
  "ResolveAlarmByDCObjectId V dciId terminate m =
     resolve_collected V None terminate
       (filter (\<lambda>a. a_dciId a = dciId \<and> may_resolve V terminate a) (al_alarms m)) m"

definition ResolveAlarmByHDRef :: "al_env \<Rightarrow> wstr \<Rightarrow> u32 option \<Rightarrow> bool \<Rightarrow> alarm_mgr \<Rightarrow> rcc \<times> alarm_mgr" where
  "ResolveAlarmByHDRef V hdref session terminate m =
     (case find_hdref hdref m of
        None \<Rightarrow> (RCC_INVALID_ALARM_ID, m)
      | Some a \<Rightarrow>
          (RCC_SUCCESS,
           if terminate \<or> a_state a \<noteq> ALARM_STATE_RESOLVED then
             (let i = a_alarmId a;
                  m1 = on_alarm i (resolve V (case session of Some u \<Rightarrow> u | None \<Rightarrow> 0) None terminate True False) m;
                  m2 = (if terminate then remove_alarm V a m1 else m1)
              in if a_sourceObject a \<noteq> 0 then updateObjectOnAlarmResolve V (a_sourceObject a) i True m2 else m2)
           else m))"

section \<open>Help desk, deletion, watchdog, start\<close>

definition SetHelpdeskReference :: "u32 \<Rightarrow> wstr option \<Rightarrow> alarm_mgr \<Rightarrow> rcc \<times> alarm_mgr" where
  "SetHelpdeskReference i hdref m = with_alarm (find_alarm i m) (setHelpdeskReference hdref) m"

definition CloseHelpdeskIssue :: "u32 \<Rightarrow> alarm_mgr \<Rightarrow> rcc \<times> alarm_mgr" where
  "CloseHelpdeskIssue i m = with_alarm (find_alarm i m) (\<lambda>a.
     if a_helpDeskState a = ALARM_HELPDESK_OPEN
     then (RCC_SUCCESS, onHelpdeskIssueClose a, [Notify Alarm_changed i, Db_update (onHelpdeskIssueClose a)])
     else (RCC_OUT_OF_STATE_REQUEST, a, [])) m"

definition OpenHelpdeskIssue :: "al_env \<Rightarrow> (alarm \<Rightarrow> bool) \<Rightarrow> u32 \<Rightarrow> alarm_mgr \<Rightarrow> rcc \<times> alarm_mgr" where
  "OpenHelpdeskIssue V allowed i m = with_alarm (find_alarm i m) (\<lambda>a.
     if allowed a then openHelpdeskIssue V a else (RCC_ACCESS_DENIED, a, [])) m"

definition unlink_issue :: "alarm \<Rightarrow> rcc \<times> alarm \<times> al_effect list" where
  "unlink_issue a = (RCC_SUCCESS, unlinkFromHelpdesk a, [Notify Alarm_changed (a_alarmId a), Db_update (unlinkFromHelpdesk a)])"

definition UnlinkHelpdeskIssueById :: "u32 \<Rightarrow> alarm_mgr \<Rightarrow> rcc \<times> alarm_mgr" where
  "UnlinkHelpdeskIssueById i m = with_alarm (find_alarm i m) unlink_issue m"

definition UnlinkHelpdeskIssueByHDRef :: "wstr \<Rightarrow> alarm_mgr \<Rightarrow> rcc \<times> alarm_mgr" where
  "UnlinkHelpdeskIssueByHDRef hdref m = with_alarm (find_hdref hdref m) unlink_issue m"

definition AddAlarmComment :: "al_env \<Rightarrow> wstr \<Rightarrow> wstr \<Rightarrow> alarm_mgr \<Rightarrow> rcc \<times> alarm_mgr" where
  "AddAlarmComment V hdref t m = with_alarm (find_hdref hdref m) (updateAlarmComment V 0 t False) m"

definition UpdateAlarmComment :: "al_env \<Rightarrow> u32 \<Rightarrow> u32 \<Rightarrow> wstr \<Rightarrow> bool \<Rightarrow> alarm_mgr \<Rightarrow> rcc \<times> alarm_mgr" where
  "UpdateAlarmComment V i noteId t sync m = with_alarm (find_alarm i m) (updateAlarmComment V noteId t sync) m"

definition DeleteAlarmCommentByID :: "al_env \<Rightarrow> u32 \<Rightarrow> u32 \<Rightarrow> alarm_mgr \<Rightarrow> rcc \<times> alarm_mgr" where
  "DeleteAlarmCommentByID V i noteId m = with_alarm (find_alarm i m) (deleteComment V noteId) m"

definition DeleteAlarm :: "al_env \<Rightarrow> u32 \<Rightarrow> bool \<Rightarrow> alarm_mgr \<Rightarrow> alarm_mgr" where
  "DeleteAlarm V i objectCleanup m =
     (case find_alarm i m of
        None \<Rightarrow> m
      | Some a \<Rightarrow>
          (let m1 = remove_alarm V a (emit [Notify Alarm_deleted i] m)
           in if objectCleanup then m1
              else updateObjectOnAlarmResolve V (a_sourceObject a) i True (emit [Db_delete i] m1)))"

definition DeleteObjectAlarms :: "al_env \<Rightarrow> u32 \<Rightarrow> alarm_mgr \<Rightarrow> alarm_mgr" where
  "DeleteObjectAlarms V obj m =
     fold (\<lambda>i. DeleteAlarm V i True) (map a_alarmId (filter (\<lambda>a. a_sourceObject a = obj) (al_alarms m))) m"

definition watchdog_alarm :: "al_env \<Rightarrow> alarm \<Rightarrow> alarm \<times> al_effect list" where
  "watchdog_alarm V a =
     (let now = v_time V;
          (a1, e1) =
            (if a_timeout a > 0 \<and> a_state a AND ALARM_STATE_MASK = ALARM_STATE_OUTSTANDING \<and>
                a_lastChangeTime a + uint (a_timeout a) < now
             then (a\<lparr> a_timeout := 0 \<rparr>,
                   [Timeout_event (a_timeoutEvent a) (a_sourceObject a) (a_alarmId a), Db_update (a\<lparr> a_timeout := 0 \<rparr>)])
             else (a, []));
          (a2, e2) =
            (if a_ackTimeout a1 \<noteq> 0 \<and> a_state a1 AND ALARM_STATE_STICKY \<noteq> 0 \<and> a_ackTimeout a1 \<le> now
             then (let a' = a1\<lparr> a_ackTimeout := 0, a_state := ALARM_STATE_OUTSTANDING \<rparr>
                   in (a', [Timeout_event (a_timeoutEvent a1) (a_sourceObject a1) (a_alarmId a1), Db_update a',
                            Notify Alarm_changed (a_alarmId a1)]))
             else (a1, []))
      in (a2, e1 @ e2))"

definition resolve_expired :: "al_env \<Rightarrow> alarm \<Rightarrow> bool" where
  "resolve_expired V a \<longleftrightarrow>
     v_resolveExpirationTime V > 0 \<and> a_state a AND ALARM_STATE_MASK = ALARM_STATE_RESOLVED \<and>
     a_lastChangeTime a + v_resolveExpirationTime V \<le> v_time V \<and> a_helpDeskState a \<noteq> ALARM_HELPDESK_OPEN"

definition watchdog_pass :: "al_env \<Rightarrow> alarm_mgr \<Rightarrow> alarm_mgr" where
  "watchdog_pass V m =
     (let m1 = fold (\<lambda>i. on_alarm i (watchdog_alarm V)) (map a_alarmId (al_alarms m)) m
      in fold (resolve_matched V None True True) (map a_alarmId (filter (resolve_expired V) (al_alarms m1))) m1)"

definition init_populate :: "al_env \<Rightarrow> alarm \<Rightarrow> alarm_mgr \<Rightarrow> alarm_mgr" where
  "init_populate V a m =
     (let m1 = (if a_state a \<noteq> ALARM_STATE_RESOLVED then updateObjectOnAlarmUpdate V (a_sourceObject a) a False m else m)
      in if a_parentAlarmId a \<noteq> 0 then addSubordinateAlarm (a_parentAlarmId a) (a_alarmId a) m1 else m1)"

definition InitAlarmManager :: "al_env \<Rightarrow> alarm list \<Rightarrow> alarm_mgr" where
  "InitAlarmManager V rows =
     (let m = fold (add_alarm V) rows \<lparr> al_alarms = [], al_keyIndex = new_strmap False, al_severity = (\<lambda>_. None),
            al_rootCauseUpdateNeeded = False, al_rootCauseUpdatePossible = False, al_log = [] \<rparr>
      in fold (init_populate V) (al_alarms m) m)"

end
