(* ===== verification/Nx_Alarm_Inv.thy ===== *)
theory Nx_Alarm_Inv
  imports Nx_Alarm
begin

text \<open>
  Invariants of the alarm manager. The alarm list is seen through three projections of an alarm:
  its place in the tree of subordinates, what counts for the severity summary, and its key. Each
  invariant is about one projection, so that an operation is checked against each of them apart.
\<close>

section \<open>Severity summaries\<close>

definition sev_fn :: "(u32 \<Rightarrow> int option) \<Rightarrow> int \<Rightarrow> bool" where
  "sev_fn M n \<longleftrightarrow> (\<forall>i v. M i = Some v \<longrightarrow> 0 \<le> v \<and> v \<le> 4 \<and> v \<le> n) \<and> (n = - 1 \<or> (\<exists>i. M i = Some n))"

definition sev_ok :: "obj_severity \<Rightarrow> bool" where
  [nx_inv]: "sev_ok s \<longleftrightarrow> distinct (map fst (os_severities s)) \<and> sev_fn (map_of (os_severities s)) (os_mostCritical s)"

lemma sev_fn_raise:
  assumes "sev_fn M n" "0 \<le> v" "v \<le> 4" "\<forall>old. M i = Some old \<longrightarrow> old \<le> v"
  shows "sev_fn (M(i \<mapsto> v)) (if v > n then v else n)"
proof -
  have "\<exists>j. (M(i \<mapsto> v)) j = Some (if v > n then v else n)"
  proof (cases "v > n")
    case False
    then obtain j where j: "M j = Some n" using assms(1,2) by (auto simp: sev_fn_def)
    show ?thesis
    proof (cases "j = i")
      case True
      with j assms(4) False have "v = n" by force
      then show ?thesis by auto
    qed (use j False in auto)
  qed auto
  then show ?thesis using assms(1-3) by (auto simp: sev_fn_def split: if_splits) (meson order.strict_trans2 less_le_not_le order.trans)+
qed

lemma sev_fn_drop: "sev_fn M n \<Longrightarrow> M i = Some v \<Longrightarrow> v < n \<Longrightarrow> sev_fn (M(i := None)) n"
  by (force simp: sev_fn_def)

lemma most_critical_loop:
  assumes "\<forall>x \<in> set xs. snd x \<le> 4" "m \<le> 4"
  shows "m \<le> most_critical_loop m xs \<and> (\<forall>x \<in> set xs. snd x \<le> most_critical_loop m xs) \<and>
    (most_critical_loop m xs = m \<or> most_critical_loop m xs \<in> snd ` set xs)"
  using assms
proof (induction xs arbitrary: m)
  case (Cons x xs)
  show ?case
  proof (cases "m < 4")
    case True
    define n where "n = (if snd x > m then snd x else m)"
    have l: "most_critical_loop m (x # xs) = most_critical_loop n xs" using True by (simp add: n_def)
    have "n \<le> 4" "m \<le> n" "snd x \<le> n" "n = m \<or> n = snd x" using Cons.prems by (auto simp: n_def)
    then show ?thesis
      unfolding l using Cons.IH [of n] Cons.prems(1) by (auto intro: order.trans)
  next
    case False
    with Cons.prems show ?thesis by simp
  qed
qed simp

lemma updateMostCritical_ok:
  assumes "distinct (map fst (os_severities s))" "\<forall>i v. map_of (os_severities s) i = Some v \<longrightarrow> 0 \<le> v \<and> v \<le> 4"
  shows "sev_ok (updateMostCritical s)"
proof -
  let ?r = "most_critical_loop (- 1) (os_severities s)"
  have m: "x \<in> set (os_severities s) \<longleftrightarrow> map_of (os_severities s) (fst x) = Some (snd x)" for x
    using map_of_eq_Some_iff [OF assms(1), of "fst x" "snd x"] by simp
  have "\<forall>x \<in> set (os_severities s). snd x \<le> 4" using assms(2) m by blast
  then have l: "\<forall>x \<in> set (os_severities s). snd x \<le> ?r" "?r = - 1 \<or> ?r \<in> snd ` set (os_severities s)"
    using most_critical_loop [of "os_severities s" "- 1"] by simp_all
  have "v \<le> ?r" if "map_of (os_severities s) i = Some v" for i v
    using l(1) m [of "(i, v)"] that by fastforce
  moreover have "?r = - 1 \<or> (\<exists>i. map_of (os_severities s) i = Some ?r)"
  proof (cases "?r = - 1")
    case False
    then obtain x where "x \<in> set (os_severities s)" "?r = snd x" using l(2) by blast
    then show ?thesis using m [of x] by metis
  qed simp
  ultimately show ?thesis using assms by (simp add: sev_ok_def sev_fn_def updateMostCritical_def)
qed

lemma updateMostCritical_list [simp]: "os_severities (updateMostCritical s) = os_severities s"
  by (simp add: updateMostCritical_def)

lemma updateAlarm_map: "map_of (os_severities (updateAlarm i v s)) = (map_of (os_severities s))(i \<mapsto> v)"
  by (auto simp: updateAlarm_def Let_def update_conv' map_add_def fun_eq_iff split: option.splits)

lemma updateAlarm_ok:
  assumes "sev_ok s" "0 \<le> v" "v \<le> 4"
  shows "sev_ok (updateAlarm i v s)"
proof -
  let ?M = "map_of (os_severities s)"
  have d: "distinct (map fst (os_severities s))" and f: "sev_fn ?M (os_mostCritical s)"
    using assms(1) by (simp_all add: sev_ok_def)
  show ?thesis
  proof (cases "?M i")
    case None
    then have "sev_fn (?M(i \<mapsto> v)) (if v > os_mostCritical s then v else os_mostCritical s)"
      using sev_fn_raise [OF f assms(2,3)] by simp
    moreover have "i \<notin> fst ` set (os_severities s)" using None by (simp add: map_of_eq_None_iff)
    ultimately show ?thesis
      using d None updateAlarm_map [of i v s] by (simp add: sev_ok_def updateAlarm_def)
  next
    case (Some old)
    let ?s = "s\<lparr> os_severities := AList.update i v (os_severities s) \<rparr>"
    have d': "distinct (map fst (AList.update i v (os_severities s)))" using d by (rule distinct_update)
    have m: "map_of (AList.update i v (os_severities s)) = ?M(i \<mapsto> v)" by (rule update_conv')
    consider "old = v" | "old > v" | "old < v" by linarith
    then show ?thesis
    proof cases
      case 2
      have "sev_ok (updateMostCritical ?s)"
        by (rule updateMostCritical_ok) (use assms(2,3) d' m f in \<open>auto simp: sev_fn_def\<close>)
      with 2 Some show ?thesis by (simp add: updateAlarm_def)
    next
      case 3
      with sev_fn_raise [OF f assms(2,3), of i] Some d' m show ?thesis by (simp add: updateAlarm_def sev_ok_def)
    qed (use assms(1) Some in \<open>simp add: updateAlarm_def\<close>)
  qed
qed

lemma remove_pair_map:
  "distinct (map fst xs) \<Longrightarrow> map_of (remove_pair i xs) = (map_of xs)(i := None)"
  by (induction xs) (auto simp: fun_eq_iff map_of_eq_None_iff)

lemma remove_pair_keys: "set (map fst (remove_pair i xs)) \<subseteq> set (map fst xs)"
  by (induction xs) auto

lemma remove_pair_distinct: "distinct (map fst xs) \<Longrightarrow> distinct (map fst (remove_pair i xs))"
proof (induction xs)
  case (Cons x xs)
  then show ?case using remove_pair_keys [of i xs] by auto
qed simp

lemma removeAlarm_map: "sev_ok s \<Longrightarrow> map_of (os_severities (removeAlarm i s)) = (map_of (os_severities s))(i := None)"
  by (auto simp: removeAlarm_def Let_def sev_ok_def remove_pair_map fun_eq_iff split: option.splits)

lemma removeAlarm_ok:
  assumes "sev_ok s"
  shows "sev_ok (removeAlarm i s)"
proof (cases "map_of (os_severities s) i")
  case (Some v)
  let ?s = "s\<lparr> os_severities := remove_pair i (os_severities s) \<rparr>"
  have d: "distinct (map fst (os_severities s))" and f: "sev_fn (map_of (os_severities s)) (os_mostCritical s)"
    using assms by (simp_all add: sev_ok_def)
  note m = remove_pair_map [OF d, of i] remove_pair_distinct [OF d, of i]
  show ?thesis
  proof (cases "v \<ge> os_mostCritical s")
    case True
    have "sev_ok (updateMostCritical ?s)"
      by (rule updateMostCritical_ok) (use f m in \<open>auto simp: sev_fn_def\<close>)
    with True Some show ?thesis by (simp add: removeAlarm_def)
  next
    case False
    with Some sev_fn_drop [OF f Some] m show ?thesis by (simp add: removeAlarm_def sev_ok_def)
  qed
qed (use assms in \<open>simp add: removeAlarm_def\<close>)

section \<open>The tree of subordinate alarms\<close>

text \<open>
  \<open>T i\<close> is the parent and the list of subordinates of alarm \<open>i\<close>. The list of an alarm names
  exactly the alarms whose parent it is.
\<close>

type_synonym tree = "u32 \<Rightarrow> (u32 \<times> u32 list) option"

definition tree_ok :: "tree \<Rightarrow> bool" where
  [nx_inv]: "tree_ok T \<longleftrightarrow> T 0 = None \<and>
     (\<forall>p q s. T p = Some (q, s) \<longrightarrow> distinct s \<and> (\<forall>c. c \<in> set s \<longleftrightarrow> (\<exists>s'. T c = Some (p, s'))))"

definition t_drop :: "u32 \<Rightarrow> u32 \<Rightarrow> tree \<Rightarrow> tree" where
  "t_drop p i T = T(p := map_option (map_prod id (remove1 i)) (T p))"

definition t_add :: "u32 \<Rightarrow> u32 \<Rightarrow> tree \<Rightarrow> tree" where
  "t_add p i T = T(p := map_option (map_prod id (\<lambda>s. if i \<in> set s then s else s @ [i])) (T p))"

definition t_parent :: "u32 \<Rightarrow> u32 \<Rightarrow> tree \<Rightarrow> tree" where
  "t_parent i p T = T(i := map_option (map_prod (\<lambda>_. p) id) (T i))"

lemma tree_parents:
  assumes "tree_ok T"
  shows "T c = Some (p, s) \<Longrightarrow> T p = Some (q, s') \<Longrightarrow> c \<in> set s'"
  using assms by (auto simp: tree_ok_def)

text \<open>The subordinates of \<open>p\<close> in a tree.\<close>

definition children :: "tree \<Rightarrow> u32 \<Rightarrow> u32 set" where
  "children T p = {c. \<exists>s. T c = Some (p, s)}"

lemma tree_ok_children:
  "tree_ok T \<longleftrightarrow> T 0 = None \<and> (\<forall>p q s. T p = Some (q, s) \<longrightarrow> distinct s \<and> set s = children T p)"
  by (simp add: tree_ok_def children_def set_eq_iff)

lemma children_drop [simp]: "children (t_drop p i T) = children T"
  by (auto simp: children_def t_drop_def fun_eq_iff)

lemma children_t_add [simp]: "children (t_add p i T) = children T"
  by (auto simp: children_def t_add_def fun_eq_iff)

lemma children_parent:
  "T i = Some (old, s) \<Longrightarrow> children (t_parent i p T) q = (if q = p then insert i (children T q) else children T q - {i})"
  by (auto simp: children_def t_parent_def)

lemma children_upd: "children (T(i := None)) q = children T q - {i}"
  "children (T(i \<mapsto> (p, s))) q = (if q = p then insert i (children T q) else children T q - {i})"
  by (auto simp: children_def)

lemma not_child: "T i = Some (p, s) \<Longrightarrow> q \<noteq> p \<Longrightarrow> i \<notin> children T q" "T i = None \<Longrightarrow> i \<notin> children T q"
  by (auto simp: children_def)

lemma tree_move:
  assumes "tree_ok T" "T i = Some (old, s)" "old \<noteq> p"
  shows "tree_ok (t_parent i p (t_add p i (t_drop old i T)))"
proof -
  let ?T = "t_parent i p (t_add p i (t_drop old i T))"
  have "\<exists>s1. t_add p i (t_drop old i T) i = Some (old, s1)"
    using assms(2) by (cases "i = old"; cases "i = p") (simp_all add: t_add_def t_drop_def)
  then obtain s1 where i: "t_add p i (t_drop old i T) i = Some (old, s1)" by blast
  note c = children_parent [of "t_add p i (t_drop old i T)", OF i, of p]
  have "distinct s' \<and> set s' = children ?T q" if t: "?T q = Some (r, s')" for q r s'
  proof -
    obtain r0 s0 where q: "T q = Some (r0, s0)"
      using t by (auto simp: t_parent_def t_add_def t_drop_def split: if_splits)
    have d: "distinct s0" "set s0 = children T q" using assms(1) q by (auto simp: tree_ok_children)
    have s': "s' = (if q = old then remove1 i s0 else if q = p then (if i \<in> set s0 then s0 else s0 @ [i]) else s0)"
      using t q assms(3) by (auto simp: t_parent_def t_add_def t_drop_def split: if_splits)
    show ?thesis
      using d assms(3) not_child(1) [of T i old s q] assms(2) unfolding s' c by (auto simp: children_def)
  qed
  moreover have "?T 0 = None" using assms(1) by (auto simp: tree_ok_def t_parent_def t_add_def t_drop_def)
  ultimately show ?thesis by (simp add: tree_ok_children)
qed

lemma tree_insert:
  assumes "tree_ok T" "T n = None" "children T n = {}" "n \<noteq> 0"
  shows "tree_ok (t_add p n (T(n \<mapsto> (p, []))))"
proof -
  let ?T = "t_add p n (T(n \<mapsto> (p, [])))"
  have c: "children ?T q = (if q = p then insert n (children T q) else children T q - {n})" for q
    by (simp only: children_t_add children_upd)
  have "distinct s \<and> set s = children ?T q" if t: "?T q = Some (r, s)" for q r s
  proof (cases "q = n")
    case True
    with t have "s = (if n = p then [n] else [])" by (auto simp: t_add_def split: if_splits)
    with True assms(3) show ?thesis unfolding c by (cases "n = p") simp_all
  next
    case False
    then obtain s0 where q: "T q = Some (r, s0)" "s = (if q = p then (if n \<in> set s0 then s0 else s0 @ [n]) else s0)"
      using t by (auto simp: t_add_def split: if_splits)
    then have "distinct s0" "set s0 = children T q" using assms(1) by (auto simp: tree_ok_children)
    then show ?thesis using not_child(2) [of T n q] assms(2) unfolding c q(2) by auto
  qed
  moreover have "?T 0 = None" using assms by (auto simp: tree_ok_def t_add_def)
  ultimately show ?thesis by (simp add: tree_ok_children)
qed

lemma tree_delete:
  assumes "tree_ok T" "T i = Some (p, s)"
  shows "tree_ok ((t_drop p i T)(i := None))"
proof -
  let ?T = "(t_drop p i T)(i := None)"
  have "distinct s' \<and> set s' = children ?T q" if t: "?T q = Some (r, s')" for q r s'
  proof -
    obtain s0 where q: "T q = Some (r, s0)" "s' = (if q = p then remove1 i s0 else s0)"
      using t by (auto simp: t_drop_def split: if_splits)
    then have "distinct s0" "set s0 = children T q" using assms(1) by (auto simp: tree_ok_children)
    then show ?thesis using not_child(1) [of T i p s q] assms(2) by (auto simp: q(2) children_upd)
  qed
  moreover have "?T 0 = None" using assms(1) by (auto simp: tree_ok_def t_drop_def)
  ultimately show ?thesis by (simp add: tree_ok_children)
qed

section \<open>Severity summaries and alarms\<close>

text \<open>
  \<open>P i\<close> is the source object, the severity and the state of alarm \<open>i\<close>. The summary of an object
  has exactly the severities of its alarms that are not resolved.
\<close>

type_synonym weights = "u32 \<Rightarrow> (u32 \<times> u8 \<times> u8) option"
type_synonym summaries = "u32 \<Rightarrow> obj_severity option"

definition entry :: "summaries \<Rightarrow> u32 \<Rightarrow> u32 \<Rightarrow> int option" where
  "entry S obj i = (case S obj of None \<Rightarrow> None | Some s \<Rightarrow> map_of (os_severities s) i)"

definition counted :: "weights \<Rightarrow> u32 \<Rightarrow> u32 \<Rightarrow> int option" where
  "counted P obj i = (case P i of None \<Rightarrow> None
     | Some (src, sev, st) \<Rightarrow> if src = obj \<and> st \<noteq> ALARM_STATE_RESOLVED then Some (uint sev) else None)"

definition weight_ok :: "u32 \<times> u8 \<times> u8 \<Rightarrow> bool" where
  "weight_ok = (\<lambda>(src, sev, st). src \<noteq> 0 \<and> sev \<le> 4 \<and> st \<in> {ALARM_STATE_OUTSTANDING, ALARM_STATE_ACKNOWLEDGED,
     ALARM_STATE_RESOLVED, ALARM_STATE_ACKNOWLEDGED OR ALARM_STATE_STICKY})"

definition sums_ok :: "weights \<Rightarrow> summaries \<Rightarrow> bool" where
  [nx_inv]: "sums_ok P S \<longleftrightarrow> (\<forall>obj s. S obj = Some s \<longrightarrow> sev_ok s) \<and>
     (\<forall>i w. P i = Some w \<longrightarrow> weight_ok w) \<and> entry S = counted P"

definition s_update :: "u32 \<Rightarrow> u32 \<Rightarrow> u8 \<Rightarrow> summaries \<Rightarrow> summaries" where
  "s_update obj i sev S =
     S(obj := Some (updateAlarm i (uint sev) (case S obj of Some s \<Rightarrow> s | None \<Rightarrow> new_severity)))"

definition s_remove :: "u32 \<Rightarrow> u32 \<Rightarrow> summaries \<Rightarrow> summaries" where
  "s_remove obj i S = S(obj := map_option (removeAlarm i) (S obj))"

lemma new_severity_ok: "sev_ok new_severity"
  by (simp add: sev_ok_def new_severity_def sev_fn_def)

lemma sev_range: "sev \<le> 4 \<Longrightarrow> 0 \<le> uint sev \<and> uint sev \<le> 4" for sev :: u8
  by (simp add: word_le_def)

lemma entry_update:
  "entry (s_update obj i sev S) = (entry S)(obj := (entry S obj)(i \<mapsto> uint sev))"
  by (auto simp: fun_eq_iff entry_def s_update_def updateAlarm_map new_severity_def split: option.splits)

lemma entry_remove:
  "\<forall>obj s. S obj = Some s \<longrightarrow> sev_ok s \<Longrightarrow> entry (s_remove obj i S) = (entry S)(obj := (entry S obj)(i := None))"
  by (auto simp: fun_eq_iff entry_def s_remove_def removeAlarm_map split: option.splits)

lemma sev_ok_update: "\<forall>obj s. S obj = Some s \<longrightarrow> sev_ok s \<Longrightarrow> sev \<le> 4 \<Longrightarrow> s_update obj i sev S o' = Some s \<Longrightarrow> sev_ok s"
  using sev_range [of sev] by (auto simp: s_update_def updateAlarm_ok new_severity_ok split: if_splits option.splits)

lemma sev_ok_remove: "\<forall>obj s. S obj = Some s \<longrightarrow> sev_ok s \<Longrightarrow> s_remove obj i S o' = Some s \<Longrightarrow> sev_ok s"
  by (auto simp: s_remove_def removeAlarm_ok split: if_splits)

lemma sums_resolve:
  assumes "sums_ok P S" "P i = Some (src, sev, st)"
  shows "sums_ok (P(i \<mapsto> (src, sev, ALARM_STATE_RESOLVED))) (s_remove src i S)"
    "sums_ok (P(i := None)) (s_remove src i S)"
proof -
  have s: "\<forall>obj s. S obj = Some s \<longrightarrow> sev_ok s" and w: "\<forall>i w. P i = Some w \<longrightarrow> weight_ok w" and e: "entry S = counted P"
    using assms(1) by (auto simp: sums_ok_def)
  have "entry (s_remove src i S) = counted (P(i \<mapsto> (src, sev, ALARM_STATE_RESOLVED)))"
    "entry (s_remove src i S) = counted (P(i := None))"
    unfolding entry_remove [OF s] e using assms(2) by (auto simp: fun_eq_iff counted_def split: option.splits)
  moreover have "weight_ok (src, sev, ALARM_STATE_RESOLVED)"
    using w assms(2) by (auto simp: weight_ok_def)
  ultimately show "sums_ok (P(i \<mapsto> (src, sev, ALARM_STATE_RESOLVED))) (s_remove src i S)"
    "sums_ok (P(i := None)) (s_remove src i S)"
    using s w sev_ok_remove [OF s] by (auto simp: sums_ok_def)
qed

lemma sums_update:
  assumes "sums_ok P S" "weight_ok (src, sev, st)" "st \<noteq> ALARM_STATE_RESOLVED"
    "\<forall>src' sev' st'. P i = Some (src', sev', st') \<longrightarrow> src' \<noteq> src \<longrightarrow> st' = ALARM_STATE_RESOLVED"
  shows "sums_ok (P(i \<mapsto> (src, sev, st))) (s_update src i sev S)"
proof -
  have s: "\<forall>obj s. S obj = Some s \<longrightarrow> sev_ok s" and w: "\<forall>i w. P i = Some w \<longrightarrow> weight_ok w" and e: "entry S = counted P"
    using assms(1) by (auto simp: sums_ok_def)
  have "entry (s_update src i sev S) = counted (P(i \<mapsto> (src, sev, st)))"
    unfolding entry_update e using assms(3,4) by (auto simp: fun_eq_iff counted_def split: option.splits prod.splits)
  then show ?thesis
    using s w assms(2) sev_ok_update [OF s, of sev] by (auto simp: sums_ok_def weight_ok_def)
qed

lemma sums_inert:
  assumes "sums_ok P S" "P i = Some (src, sev, st)" "weight_ok (src, sev, st')"
    "st \<noteq> ALARM_STATE_RESOLVED" "st' \<noteq> ALARM_STATE_RESOLVED"
  shows "sums_ok (P(i \<mapsto> (src, sev, st'))) S"
proof -
  have "counted (P(i \<mapsto> (src, sev, st'))) = counted P"
    using assms(2,4,5) by (auto simp: fun_eq_iff counted_def)
  with assms(1,3) show ?thesis by (auto simp: sums_ok_def)
qed

section \<open>The key index\<close>

definition keys_ok :: "(wchar \<Rightarrow> wchar) \<Rightarrow> (u32 \<Rightarrow> wstr option) \<Rightarrow> u32 strmap \<Rightarrow> bool" where
  [nx_inv]: "keys_ok U K km \<longleftrightarrow> sm_ok U km \<and> sm_ignoreCase km \<and>
     (\<forall>k i. getObject U (Some k) km = Some i \<longrightarrow> (\<exists>key. K i = Some key \<and> key \<noteq> [] \<and> map U key = map U k)) \<and>
     (\<forall>i key. K i = Some key \<longrightarrow> length key < ALARM_KEY_SIZE)"

lemma keys_get:
  assumes "keys_ok U K km" "getObject U (Some k) km = Some i"
  obtains key where "K i = Some key" "key \<noteq> []" "map U key = map U k"
  using assms unfolding keys_ok_def by blast

lemma keys_okI:
  assumes "sm_ok U km" "sm_ignoreCase km"
    "\<And>k i. getObject U (Some k) km = Some i \<Longrightarrow> \<exists>key. K i = Some key \<and> key \<noteq> [] \<and> map U key = map U k"
    "\<And>i key. K i = Some key \<Longrightarrow> length key < ALARM_KEY_SIZE"
  shows "keys_ok U K km"
  using assms by (simp add: keys_ok_def)

lemma keys_insert:
  assumes "keys_ok U K km" "K n = None" "key \<noteq> []" "length key < ALARM_KEY_SIZE"
  shows "keys_ok U (K(n \<mapsto> key)) (setObject U (Some key) (Some n) km)"
proof (rule keys_okI)
  fix k i
  assume g: "getObject U (Some k) (setObject U (Some key) (Some n) km) = Some i"
  have ic: "sm_ignoreCase km" using assms(1) by (simp add: keys_ok_def)
  show "\<exists>key'. (K(n \<mapsto> key)) i = Some key' \<and> key' \<noteq> [] \<and> map U key' = map U k"
  proof (cases "map U k = map U key")
    case True
    with g ic assms(3) show ?thesis by (auto simp: get_set fold_key_def)
  next
    case False
    with g ic have "getObject U (Some k) km = Some i" by (simp add: get_set fold_key_def)
    from keys_get [OF assms(1) this] obtain key' where "K i = Some key'" "key' \<noteq> []" "map U key' = map U k" .
    with assms(2) show ?thesis by auto
  qed
qed (use assms(1,4) in \<open>auto simp: keys_ok_def sm_ok_set split: if_splits\<close>)

lemma keys_insert_empty:
  assumes "keys_ok U K km" "K n = None"
  shows "keys_ok U (K(n \<mapsto> [])) km"
proof (rule keys_okI)
  fix k i
  assume "getObject U (Some k) km = Some i"
  from keys_get [OF assms(1) this] obtain key' where "K i = Some key'" "key' \<noteq> []" "map U key' = map U k" .
  with assms(2) show "\<exists>key'. (K(n \<mapsto> [])) i = Some key' \<and> key' \<noteq> [] \<and> map U key' = map U k" by auto
qed (use assms(1) in \<open>auto simp: keys_ok_def split: if_splits\<close>)

lemma keys_delete:
  assumes "keys_ok U K km" "K i = Some key"
  shows "keys_ok U (K(i := None)) (if key \<noteq> [] then remove_sm U (Some key) km else km)"
proof (rule keys_okI)
  have ok: "sm_ok U km" and ic: "sm_ignoreCase km" using assms(1) by (simp_all add: keys_ok_def)
  fix k j
  assume g: "getObject U (Some k) (if key \<noteq> [] then remove_sm U (Some key) km else km) = Some j"
  then have g': "getObject U (Some k) km = Some j" "key \<noteq> [] \<longrightarrow> map U k \<noteq> map U key"
    using ic by (auto simp: get_remove [OF ok] fold_key_def split: if_splits)
  from keys_get [OF assms(1) this(1)] obtain key' where "K j = Some key'" "key' \<noteq> []" "map U key' = map U k" .
  with g'(2) assms(2) show "\<exists>key'. (K(i := None)) j = Some key' \<and> key' \<noteq> [] \<and> map U key' = map U k" by auto
qed (use assms(1) in \<open>auto simp: keys_ok_def sm_ok_remove split: if_splits\<close>)

end
