(* ===== verification/Nx_Alarm_Ops.thy ===== *)
theory Nx_Alarm_Ops
  imports Nx_Alarm_Inv
begin

text \<open>
  The operations of the alarm manager keep its invariant: the identifiers ascend, the key index
  has no dangling pointer, subordinate lists and parents agree, and the severity summary of each
  object is that of its unresolved alarms.
\<close>

section \<open>Views of the alarm list\<close>

definition view :: "(alarm \<Rightarrow> 'b) \<Rightarrow> alarm_mgr \<Rightarrow> u32 \<Rightarrow> 'b option" where
  "view g m = (\<lambda>i. map_option g (find_alarm i m))"

definition place :: "alarm \<Rightarrow> u32 \<times> u32 list" where
  "place a = (a_parentAlarmId a, a_subordinateAlarms a)"

definition weight :: "alarm \<Rightarrow> u32 \<times> u8 \<times> u8" where
  "weight a = (a_sourceObject a, a_currentSeverity a, a_state a)"

definition mgr_ok :: "al_env \<Rightarrow> alarm_mgr \<Rightarrow> bool" where
  [nx_inv]: "mgr_ok V m \<longleftrightarrow> sorted_wrt (<) (map a_alarmId (al_alarms m)) \<and> tree_ok (view place m) \<and>
     sums_ok (view weight m) (al_severity m) \<and> keys_ok (v_toupper V) (view a_key m) (al_keyIndex m)"

lemma emit_frame [simp]:
  "al_alarms (emit e m) = al_alarms m" "al_keyIndex (emit e m) = al_keyIndex m" "al_severity (emit e m) = al_severity m"
  by (simp_all add: emit_def)

lemma recalculate_frame [simp]:
  "al_alarms (recalculateObjectStatus V obj m) = al_alarms m" "al_keyIndex (recalculateObjectStatus V obj m) = al_keyIndex m"
  "al_severity (recalculateObjectStatus V obj m) = al_severity m"
  by (simp_all add: recalculateObjectStatus_def)

lemma summary_frame [simp]:
  "al_alarms (updateObjectOnAlarmUpdate V obj a r m) = al_alarms m"
  "al_keyIndex (updateObjectOnAlarmUpdate V obj a r m) = al_keyIndex m"
  "al_alarms (updateObjectOnAlarmResolve V obj i r m) = al_alarms m"
  "al_keyIndex (updateObjectOnAlarmResolve V obj i r m) = al_keyIndex m"
  by (simp_all add: updateObjectOnAlarmUpdate_def updateObjectOnAlarmResolve_def Let_def split: option.split)

lemma summary_severity [simp]:
  "al_severity (updateObjectOnAlarmUpdate V obj a r m) = s_update obj (a_alarmId a) (a_currentSeverity a) (al_severity m)"
  "al_severity (updateObjectOnAlarmResolve V obj i r m) = s_remove obj i (al_severity m)"
  by (auto simp: updateObjectOnAlarmUpdate_def updateObjectOnAlarmResolve_def Let_def s_update_def s_remove_def
      fun_eq_iff split: option.split)

lemma find_alarm_cong: "al_alarms m = al_alarms m' \<Longrightarrow> find_alarm i m = find_alarm i m'"
  by (simp add: find_alarm_def)

lemma view_cong: "al_alarms m = al_alarms m' \<Longrightarrow> view g m = view g m'"
  by (simp add: view_def find_alarm_def)

lemma view_frame [simp]:
  "view g (emit e m) = view g m" "view g (recalculateObjectStatus V obj m) = view g m"
  "view g (updateObjectOnAlarmUpdate V obj a r m) = view g m" "view g (updateObjectOnAlarmResolve V obj i r m) = view g m"
  by (simp_all add: view_def find_alarm_def)

lemma mgr_ok_cong:
  "al_alarms m = al_alarms m' \<Longrightarrow> al_keyIndex m = al_keyIndex m' \<Longrightarrow> al_severity m = al_severity m' \<Longrightarrow>
     mgr_ok V m = mgr_ok V m'"
  using view_cong [of m m' place] view_cong [of m m' weight] view_cong [of m m' a_key] by (simp add: mgr_ok_def)

lemma find_alarm_id: "find_alarm i m = Some a \<Longrightarrow> a_alarmId a = i \<and> a \<in> set (al_alarms m)"
  unfolding find_alarm_def by (metis (mono_tags, lifting) find_Some_iff nth_mem)

definition keeps :: "(alarm \<Rightarrow> 'b) \<Rightarrow> (alarm \<Rightarrow> alarm \<times> 'e) \<Rightarrow> bool" where
  "keeps g f \<longleftrightarrow> (\<forall>a. g (fst (f a)) = g a)"

lemma on_alarm_frame [simp]:
  "al_keyIndex (on_alarm i f m) = al_keyIndex m" "al_severity (on_alarm i f m) = al_severity m"
  by (simp_all add: on_alarm_def split: option.split)

lemma on_alarm_ids: "keeps a_alarmId f \<Longrightarrow> map a_alarmId (al_alarms (on_alarm i f m)) = map a_alarmId (al_alarms m)"
  by (auto simp: on_alarm_def keeps_def dest: find_alarm_id split: option.split)

lemma find_replace:
  "a_alarmId c = i \<Longrightarrow> List.find (\<lambda>b. a_alarmId b = j) (map (\<lambda>b. if a_alarmId b = i then c else b) xs) =
     (if j = i then map_option (\<lambda>_. c) (List.find (\<lambda>b. a_alarmId b = i) xs) else List.find (\<lambda>b. a_alarmId b = j) xs)"
  by (induction xs) auto

lemma find_on_alarm:
  assumes "keeps a_alarmId f"
  shows "find_alarm j (on_alarm i f m) = (if j = i then map_option (\<lambda>a. fst (f a)) (find_alarm i m) else find_alarm j m)"
proof (cases "find_alarm i m")
  case (Some a)
  then have "a_alarmId (fst (f a)) = i" using assms find_alarm_id [OF Some] by (simp add: keeps_def)
  from find_replace [OF this, of j "al_alarms m"] Some show ?thesis by (simp add: on_alarm_def find_alarm_def)
qed (simp add: on_alarm_def)

lemma view_on_alarm:
  "keeps a_alarmId f \<Longrightarrow> view g (on_alarm i f m) = (view g m)(i := map_option (\<lambda>a. g (fst (f a))) (find_alarm i m))"
  by (auto simp: view_def fun_eq_iff find_on_alarm option.map_comp comp_def)

lemma view_on_same: "keeps a_alarmId f \<Longrightarrow> keeps g f \<Longrightarrow> view g (on_alarm i f m) = view g m"
  unfolding view_on_alarm by (rule ext) (simp add: keeps_def view_def)

section \<open>Changes inside one alarm\<close>

text \<open>A change that the invariant does not see, or that moves an alarm between unresolved states.\<close>

definition soft :: "(alarm \<Rightarrow> alarm \<times> 'e) \<Rightarrow> bool" where
  "soft f \<longleftrightarrow> keeps a_alarmId f \<and> keeps place f \<and> keeps a_key f \<and>
     (\<forall>a. weight_ok (weight a) \<longrightarrow> weight (fst (f a)) = weight a \<or>
        (a_state a \<noteq> ALARM_STATE_RESOLVED \<and> a_state (fst (f a)) \<noteq> ALARM_STATE_RESOLVED \<and>
         a_sourceObject (fst (f a)) = a_sourceObject a \<and> a_currentSeverity (fst (f a)) = a_currentSeverity a \<and>
         weight_ok (weight (fst (f a)))))"

lemma soft_ok:
  assumes "soft f" "mgr_ok V m"
  shows "mgr_ok V (on_alarm i f m)"
proof (cases "find_alarm i m")
  case (Some a)
  have k: "keeps a_alarmId f" "keeps place f" "keeps a_key f" using assms(1) by (simp_all add: soft_def)
  have s: "sums_ok (view weight m) (al_severity m)" using assms(2) by (simp add: mgr_ok_def)
  have wi: "view weight m i = Some (a_sourceObject a, a_currentSeverity a, a_state a)"
    using Some by (simp add: view_def weight_def)
  then have "weight_ok (weight a)" using s by (auto simp: sums_ok_def weight_def)
  then consider (same) "weight (fst (f a)) = (a_sourceObject a, a_currentSeverity a, a_state a)"
    | (moved) "a_state a \<noteq> ALARM_STATE_RESOLVED" "a_state (fst (f a)) \<noteq> ALARM_STATE_RESOLVED"
      "weight (fst (f a)) = (a_sourceObject a, a_currentSeverity a, a_state (fst (f a)))" "weight_ok (weight (fst (f a)))"
    using assms(1) by (auto simp: soft_def weight_def)
  then have "sums_ok ((view weight m)(i \<mapsto> weight (fst (f a)))) (al_severity m)"
  proof cases
    case same
    then have "(view weight m)(i \<mapsto> weight (fst (f a))) = view weight m" using wi by (intro fun_upd_idem) simp
    then show ?thesis using s by simp
  next
    case moved
    then show ?thesis using sums_inert [OF s wi, of "a_state (fst (f a))"] by simp
  qed
  then show ?thesis
    using assms(2) k Some by (simp add: mgr_ok_def on_alarm_ids view_on_same view_on_alarm [of f weight])
qed (use assms in \<open>simp add: on_alarm_def\<close>)

lemma softI:
  assumes "\<And>a. a_alarmId (fst (f a)) = a_alarmId a" "\<And>a. place (fst (f a)) = place a"
    "\<And>a. a_key (fst (f a)) = a_key a" "\<And>a. weight (fst (f a)) = weight a"
  shows "soft f"
  using assms by (simp add: soft_def keeps_def)

lemmas alarm_views = keeps_def place_def weight_def

lemma soft_helpdesk:
  "soft (\<lambda>b. snd (openHelpdeskIssue V b))" "soft (\<lambda>b. snd (setHelpdeskReference h b))" "soft (\<lambda>b. snd (unlink_issue b))"
  "soft (\<lambda>b. (onHelpdeskIssueClose b, []))" "soft (\<lambda>b. snd (updateAlarmComment V n t s b))" "soft (\<lambda>b. snd (deleteComment V n b))"
  "soft (\<lambda>b. (b\<lparr> a_relatedEvents := a_relatedEvents b @ [e] \<rparr>, []))"
  by (rule softI; auto simp: place_def weight_def openHelpdeskIssue_def setHelpdeskReference_def unlink_issue_def
      unlinkFromHelpdesk_def onHelpdeskIssueClose_def updateAlarmComment_def deleteComment_def Let_def split: option.split)+

lemma soft_acknowledge: "soft (\<lambda>b. snd (acknowledge V u st tm sub b))"
  unfolding soft_def alarm_views
  by (auto simp: acknowledge_def updateStateChangeLog_def Let_def weight_ok_def)

lemma soft_watchdog: "soft (watchdog_alarm V)"
  unfolding soft_def alarm_views
  by (auto simp: watchdog_alarm_def Let_def weight_ok_def)

lemma with_alarm_ok: "soft (\<lambda>b. snd (f b)) \<Longrightarrow> mgr_ok V m \<Longrightarrow> mgr_ok V (snd (with_alarm t f m))"
  by (auto simp: with_alarm_def soft_ok split: option.split)

section \<open>Resolution and removal\<close>

lemma resolve_keeps:
  "keeps a_alarmId (resolve V u ev t n s)" "keeps place (resolve V u ev t n s)" "keeps a_key (resolve V u ev t n s)"
  "weight (fst (resolve V u ev t n s a)) =
     (a_sourceObject a, a_currentSeverity a, if t then ALARM_STATE_TERMINATED else ALARM_STATE_RESOLVED)"
  by (auto simp: alarm_views resolve_def updateStateChangeLog_def Let_def split: option.split)

lemma resolve_ok:
  assumes "mgr_ok V m" "find_alarm i m = Some a"
  shows "mgr_ok V (updateObjectOnAlarmResolve V (a_sourceObject a) i r (on_alarm i (resolve V u ev False n s) m))"
proof -
  let ?m = "on_alarm i (resolve V u ev False n s) m"
  have "sums_ok (view weight m) (al_severity m)" using assms(1) by (simp add: mgr_ok_def)
  moreover have "view weight m i = Some (a_sourceObject a, a_currentSeverity a, a_state a)"
    using assms(2) by (simp add: view_def weight_def)
  ultimately have "sums_ok (view weight ?m) (s_remove (a_sourceObject a) i (al_severity m))"
    using sums_resolve(1) assms(2) by (simp add: view_on_alarm resolve_keeps)
  then show ?thesis
    using assms(1) by (simp add: mgr_ok_def on_alarm_ids view_on_same resolve_keeps)
qed

lemma find_filter:
  "List.find (\<lambda>b. a_alarmId b = j) (filter (\<lambda>b. a_alarmId b \<noteq> i) xs) =
     (if j = i then None else List.find (\<lambda>b. a_alarmId b = j) xs)"
  by (induction xs) auto

lemma keeps_subordinates:
  "keeps a_alarmId (\<lambda>a. (a\<lparr> a_subordinateAlarms := g a \<rparr>, e a))" "keeps weight (\<lambda>a. (a\<lparr> a_subordinateAlarms := g a \<rparr>, e a))"
  "keeps a_key (\<lambda>a. (a\<lparr> a_subordinateAlarms := g a \<rparr>, e a))"
  by (simp_all add: alarm_views)

lemma removeSubordinate_view:
  "view weight (removeSubordinateAlarm p i m) = view weight m" "view a_key (removeSubordinateAlarm p i m) = view a_key m"
  "view place (removeSubordinateAlarm p i m) = t_drop p i (view place m)"
  "map a_alarmId (al_alarms (removeSubordinateAlarm p i m)) = map a_alarmId (al_alarms m)"
  "al_keyIndex (removeSubordinateAlarm p i m) = al_keyIndex m" "al_severity (removeSubordinateAlarm p i m) = al_severity m"
  unfolding removeSubordinateAlarm_def
  by (simp_all add: view_on_same keeps_subordinates on_alarm_ids view_on_alarm)
    (simp add: t_drop_def view_def place_def option.map_comp comp_def)

lemma addSubordinate_view:
  "view weight (addSubordinateAlarm p i m) = view weight m" "view a_key (addSubordinateAlarm p i m) = view a_key m"
  "view place (addSubordinateAlarm p i m) = t_add p i (view place m)"
  "map a_alarmId (al_alarms (addSubordinateAlarm p i m)) = map a_alarmId (al_alarms m)"
  "al_keyIndex (addSubordinateAlarm p i m) = al_keyIndex m" "al_severity (addSubordinateAlarm p i m) = al_severity m"
proof -
  let ?f = "\<lambda>a. (if i \<in> set (a_subordinateAlarms a) then a
      else a\<lparr> a_subordinateAlarms := a_subordinateAlarms a @ [i] \<rparr>, [] :: al_effect list)"
  have k: "keeps a_alarmId ?f" "keeps weight ?f" "keeps a_key ?f" by (simp_all add: alarm_views)
  show "view weight (addSubordinateAlarm p i m) = view weight m" "view a_key (addSubordinateAlarm p i m) = view a_key m"
    "map a_alarmId (al_alarms (addSubordinateAlarm p i m)) = map a_alarmId (al_alarms m)"
    "al_keyIndex (addSubordinateAlarm p i m) = al_keyIndex m" "al_severity (addSubordinateAlarm p i m) = al_severity m"
    unfolding addSubordinateAlarm_def by (simp_all add: view_on_same [OF k(1)] k on_alarm_ids)
  show "view place (addSubordinateAlarm p i m) = t_add p i (view place m)"
    unfolding addSubordinateAlarm_def view_on_alarm [OF k(1)]
    by (cases "find_alarm p m") (simp_all add: t_add_def view_def place_def)
qed

lemma remove_view:
  assumes "a_alarmId a = i" "view place m 0 = None"
  shows "view weight (remove_alarm V a m) = (view weight m)(i := None)"
    "view a_key (remove_alarm V a m) = (view a_key m)(i := None)"
    "view place (remove_alarm V a m) = (t_drop (a_parentAlarmId a) i (view place m))(i := None)"
    "map a_alarmId (al_alarms (remove_alarm V a m)) = filter (\<lambda>j. j \<noteq> i) (map a_alarmId (al_alarms m))"
    "al_severity (remove_alarm V a m) = al_severity m"
    "al_keyIndex (remove_alarm V a m) =
       (if a_key a \<noteq> [] then remove_sm (v_toupper V) (Some (a_key a)) (al_keyIndex m) else al_keyIndex m)"
proof -
  let ?m = "if a_parentAlarmId a \<noteq> 0 then removeSubordinateAlarm (a_parentAlarmId a) i m else m"
  have f: "view g (remove_alarm V a m) = (view g ?m)(i := None)" for g :: "alarm \<Rightarrow> 'x"
    by (auto simp: view_def remove_alarm_def Let_def assms(1) find_alarm_def find_filter fun_eq_iff)
  have m: "view weight ?m = view weight m" "view a_key ?m = view a_key m"
    "map a_alarmId (al_alarms ?m) = map a_alarmId (al_alarms m)" "al_keyIndex ?m = al_keyIndex m" "al_severity ?m = al_severity m"
    by (simp_all add: removeSubordinate_view)
  have p: "view place ?m = t_drop (a_parentAlarmId a) i (view place m)"
    using assms(2) by (auto simp: removeSubordinate_view t_drop_def fun_eq_iff)
  show "view weight (remove_alarm V a m) = (view weight m)(i := None)"
    "view a_key (remove_alarm V a m) = (view a_key m)(i := None)"
    "view place (remove_alarm V a m) = (t_drop (a_parentAlarmId a) i (view place m))(i := None)"
    unfolding f m p by (rule refl)+
  show "al_severity (remove_alarm V a m) = al_severity m"
    "al_keyIndex (remove_alarm V a m) =
       (if a_key a \<noteq> [] then remove_sm (v_toupper V) (Some (a_key a)) (al_keyIndex m) else al_keyIndex m)"
    by (simp_all add: remove_alarm_def Let_def assms(1) removeSubordinate_view)
  have "map a_alarmId (al_alarms (remove_alarm V a m)) = filter (\<lambda>j. j \<noteq> i) (map a_alarmId (al_alarms ?m))"
    by (simp add: remove_alarm_def Let_def assms(1) filter_map comp_def)
  then show "map a_alarmId (al_alarms (remove_alarm V a m)) = filter (\<lambda>j. j \<noteq> i) (map a_alarmId (al_alarms m))"
    unfolding m .
qed

text \<open>An alarm leaves the manager: all that its removal has to do to the parts of the state.\<close>

lemma gone_ok:
  assumes "mgr_ok V m" "find_alarm i m = Some a"
    "map a_alarmId (al_alarms m') = filter (\<lambda>j. j \<noteq> i) (map a_alarmId (al_alarms m))"
    "view weight m' = (view weight m)(i := None)" "view a_key m' = (view a_key m)(i := None)"
    "view place m' = (t_drop (a_parentAlarmId a) i (view place m))(i := None)"
    "al_severity m' = s_remove (a_sourceObject a) i (al_severity m)"
    "al_keyIndex m' = (if a_key a \<noteq> [] then remove_sm (v_toupper V) (Some (a_key a)) (al_keyIndex m) else al_keyIndex m)"
  shows "mgr_ok V m'"
proof -
  have v: "view weight m i = Some (a_sourceObject a, a_currentSeverity a, a_state a)" "view a_key m i = Some (a_key a)"
    "view place m i = Some (a_parentAlarmId a, a_subordinateAlarms a)"
    using assms(2) by (simp_all add: view_def weight_def place_def)
  have "sums_ok ((view weight m)(i := None)) (s_remove (a_sourceObject a) i (al_severity m))"
    by (rule sums_resolve(2) [where P = "view weight m"]) (use assms(1) v(1) in \<open>simp_all add: mgr_ok_def\<close>)
  moreover have "tree_ok ((t_drop (a_parentAlarmId a) i (view place m))(i := None))"
    by (rule tree_delete [where T = "view place m"]) (use assms(1) v(3) in \<open>simp_all add: mgr_ok_def\<close>)
  moreover have "keys_ok (v_toupper V) ((view a_key m)(i := None)) (al_keyIndex m')"
    unfolding assms(8) by (rule keys_delete [where K = "view a_key m"]) (use assms(1) v(2) in \<open>simp_all add: mgr_ok_def\<close>)
  moreover have "sorted_wrt (<) (map a_alarmId (al_alarms m'))"
    unfolding assms(3) using assms(1) by (auto simp: mgr_ok_def intro: sorted_wrt_filter)
  ultimately show ?thesis by (simp add: mgr_ok_def assms(4-7))
qed

lemma no_zero: "mgr_ok V m \<Longrightarrow> view place m 0 = None"
  by (simp add: mgr_ok_def tree_ok_def)

lemma terminate_ok:
  assumes "mgr_ok V m" "find_alarm i m = Some a" "keeps a_alarmId f"
    "al_severity m' = s_remove (a_sourceObject a) i (al_severity m)"
    "al_alarms m' = al_alarms (remove_alarm V a (on_alarm i f m))"
    "al_keyIndex m' = al_keyIndex (remove_alarm V a (on_alarm i f m))"
  shows "mgr_ok V m'"
proof (rule gone_ok [OF assms(1,2)])
  let ?m = "on_alarm i f m"
  have i: "a_alarmId a = i" using find_alarm_id [OF assms(2)] by simp
  have z: "view place ?m 0 = None"
    using no_zero [OF assms(1)] by (auto simp: view_def find_on_alarm [OF assms(3)])
  note r = remove_view [OF i z, of V]
  have g: "view g m' = view g (remove_alarm V a ?m)" for g :: "alarm \<Rightarrow> 'x" using assms(5) by (rule view_cong)
  show "view weight m' = (view weight m)(i := None)" "view a_key m' = (view a_key m)(i := None)"
    unfolding g r by (simp_all add: view_on_alarm [OF assms(3)])
  show "view place m' = (t_drop (a_parentAlarmId a) i (view place m))(i := None)"
    unfolding g r by (auto simp: view_on_alarm [OF assms(3)] t_drop_def fun_eq_iff)
  show "map a_alarmId (al_alarms m') = filter (\<lambda>j. j \<noteq> i) (map a_alarmId (al_alarms m))"
    unfolding assms(5) r on_alarm_ids [OF assms(3)] by (rule refl)
  show "al_keyIndex m' = (if a_key a \<noteq> [] then remove_sm (v_toupper V) (Some (a_key a)) (al_keyIndex m) else al_keyIndex m)"
    unfolding assms(6) r by simp
qed (rule assms(4))

lemma remove_alarm_cong:
  "al_alarms m = al_alarms m' \<Longrightarrow> al_keyIndex m = al_keyIndex m' \<Longrightarrow>
     al_alarms (remove_alarm V a m) = al_alarms (remove_alarm V a m') \<and>
     al_keyIndex (remove_alarm V a m) = al_keyIndex (remove_alarm V a m')"
  by (simp add: remove_alarm_def Let_def removeSubordinateAlarm_def on_alarm_def find_alarm_def split: option.split)

lemma resolved_ok:
  assumes "mgr_ok V m" "find_alarm i m = Some a" and m1_def: "m1 = on_alarm i (resolve V u ev t n s) m"
  shows "mgr_ok V (if t then remove_alarm V a (updateObjectOnAlarmResolve V (a_sourceObject a) i r m1)
      else updateObjectOnAlarmResolve V (a_sourceObject a) i r m1)"
    "mgr_ok V (updateObjectOnAlarmResolve V (a_sourceObject a) i r (if t then remove_alarm V a m1 else m1))"
proof -
  have id: "a_alarmId a = i" using find_alarm_id [OF assms(2)] by simp
  have z: "view place m1 0 = None" "view place (updateObjectOnAlarmResolve V (a_sourceObject a) i r m1) 0 = None"
    unfolding m1_def using no_zero [OF assms(1)] by (simp_all add: view_on_same resolve_keeps)
  have "mgr_ok V (remove_alarm V a (updateObjectOnAlarmResolve V (a_sourceObject a) i r m1))"
    by (rule terminate_ok [OF assms(1,2) resolve_keeps(1) [of V u ev t n s]])
      (use remove_alarm_cong [of "updateObjectOnAlarmResolve V (a_sourceObject a) i r m1" m1 V a] z in
        \<open>simp_all add: remove_view(5) [OF id] m1_def\<close>)
  moreover have "mgr_ok V (updateObjectOnAlarmResolve V (a_sourceObject a) i r (remove_alarm V a m1))"
    by (rule terminate_ok [OF assms(1,2) resolve_keeps(1) [of V u ev t n s]])
      (use z in \<open>simp_all add: remove_view(5) [OF id] m1_def\<close>)
  moreover have "mgr_ok V (updateObjectOnAlarmResolve V (a_sourceObject a) i r m1)" if "\<not> t"
    using resolve_ok [OF assms(1,2), of r u ev n s] that by (simp add: m1_def)
  ultimately show "mgr_ok V (if t then remove_alarm V a (updateObjectOnAlarmResolve V (a_sourceObject a) i r m1)
      else updateObjectOnAlarmResolve V (a_sourceObject a) i r m1)"
    "mgr_ok V (updateObjectOnAlarmResolve V (a_sourceObject a) i r (if t then remove_alarm V a m1 else m1))"
    by simp_all
qed

lemma fold_ok: "(\<And>x m. mgr_ok V m \<Longrightarrow> mgr_ok V (f x m)) \<Longrightarrow> mgr_ok V m \<Longrightarrow> mgr_ok V (fold f xs m)"
  by (induction xs arbitrary: m) auto

lemma quiet_ok [simp]: "mgr_ok V (emit e m) = mgr_ok V m" "mgr_ok V (recalculateObjectStatus V' obj m) = mgr_ok V m"
  by (rule mgr_ok_cong; simp)+

lemma helpdesk_check_ok:
  assumes "mgr_ok V m" "find_alarm i m = Some a"
  shows "mgr_ok V (helpdesk_check V a m) \<and> (\<exists>b. find_alarm i (helpdesk_check V a m) = Some b)"
proof -
  have i: "a_alarmId a = i" using find_alarm_id [OF assms(2)] by simp
  have "keeps a_alarmId (\<lambda>b. (onHelpdeskIssueClose b, [] :: al_effect list))" by (simp add: keeps_def onHelpdeskIssueClose_def)
  with i assms show ?thesis by (simp add: helpdesk_check_def soft_ok soft_helpdesk find_on_alarm)
qed

lemma resolve_step_ok:
  assumes "mgr_ok V (b_mgr b)"
  shows "mgr_ok V (b_mgr (resolve_step V session t sub i b))"
proof (cases "find_alarm i (b_mgr b)")
  case (Some a0)
  obtain a where h: "mgr_ok V (helpdesk_check V a0 (b_mgr b))" "find_alarm i (helpdesk_check V a0 (b_mgr b)) = Some a"
    using helpdesk_check_ok [OF assms Some] by blast
  let ?m = "\<lambda>u t. updateObjectOnAlarmResolve V (a_sourceObject a) i False
      (on_alarm i (resolve V u None t False sub) (helpdesk_check V a0 (b_mgr b)))"
  have "mgr_ok V (remove_alarm V a (?m u True))" "mgr_ok V (?m u False)" for u
    using resolved_ok(1) [OF h refl, where t = True] resolved_ok(1) [OF h refl, where t = False] by simp_all
  with h show ?thesis by (cases t) (simp_all add: resolve_step_def Some Let_def)
qed (use assms in \<open>simp add: resolve_step_def\<close>)

lemma ResolveAlarmsById_ok: "mgr_ok V m \<Longrightarrow> mgr_ok V (snd (ResolveAlarmsById V ids session t sub m))"
proof -
  assume "mgr_ok V m"
  then have "mgr_ok V (b_mgr (fold (resolve_step V session t sub) ids b))" if "b_mgr b = m" for b
    using that by (induction ids arbitrary: b m) (simp, metis fold_simps(2) resolve_step_ok)
  from this [of "\<lparr> b_mgr = m, b_processed = [], b_objects = [], b_failed = [] \<rparr>"] show ?thesis
    by (simp add: ResolveAlarmsById_def Let_def fold_ok)
qed

lemma resolve_matched_ok: "mgr_ok V m \<Longrightarrow> mgr_ok V (resolve_matched V ev t r i m)"
  using resolved_ok(1) [OF _ _ refl, where u = 0 and ev = ev and t = t and n = True and s = False and r = r]
  by (auto simp: resolve_matched_def Let_def split: option.split)

lemma resolve_collected_ok: "mgr_ok V m \<Longrightarrow> mgr_ok V (resolve_collected V ev t ms m)"
  by (simp add: resolve_collected_def fold_ok resolve_matched_ok)

lemma resolve_exact_ok:
  assumes "mgr_ok V m" "find_alarm i m = Some a"
  shows "mgr_ok V (let m1 = on_alarm i (resolve V u ev t True False) m; m2 = (if t then remove_alarm V a m1 else m1)
    in if a_sourceObject a \<noteq> 0 then updateObjectOnAlarmResolve V (a_sourceObject a) i True m2 else m2)"
proof -
  have "view weight m i = Some (weight a)" using assms(2) by (simp add: view_def)
  then have "a_sourceObject a \<noteq> 0" using assms(1) by (auto simp: mgr_ok_def sums_ok_def weight_ok_def weight_def)
  then show ?thesis using resolved_ok(2) [OF assms refl, where u = u and ev = ev and t = t and n = True and s = False and r = True] by (simp add: Let_def)
qed

section \<open>Parents, creation and deletion\<close>

lemma change_parent_view:
  "view weight (change_parent i old new m) = view weight m" "view a_key (change_parent i old new m) = view a_key m"
  "map a_alarmId (al_alarms (change_parent i old new m)) = map a_alarmId (al_alarms m)"
  "al_keyIndex (change_parent i old new m) = al_keyIndex m" "al_severity (change_parent i old new m) = al_severity m"
  by (simp_all add: change_parent_def Let_def removeSubordinate_view addSubordinate_view)

lemma change_parent_place:
  assumes "view place m 0 = None"
  shows "view place (change_parent i old new m) =
    (if old \<noteq> new then t_add new i (t_drop old i (view place m)) else view place m)"
proof -
  have d: "t_drop 0 i T = T" "t_add 0 i T = T" if "T 0 = None" for T
    using that by (auto simp: t_drop_def t_add_def fun_eq_iff)
  have "t_drop old i (view place m) 0 = None" using assms by (simp add: t_drop_def)
  then show ?thesis
    using assms d by (auto simp: change_parent_def Let_def removeSubordinate_view addSubordinate_view)
qed

text \<open>An alarm whose parent is set after the lists of both parents were adjusted.\<close>

lemma moved_place:
  assumes "mgr_ok V m" "find_alarm i m = Some a" "keeps a_alarmId f"
    "\<And>b. place (fst (f b)) = (new, a_subordinateAlarms b)"
  shows "tree_ok (view place (on_alarm i f (change_parent i (a_parentAlarmId a) new m)))"
proof -
  let ?T = "view place m"
  have t: "tree_ok ?T" "?T 0 = None" using assms(1) by (auto simp: mgr_ok_def tree_ok_def)
  have i: "?T i = Some (a_parentAlarmId a, a_subordinateAlarms a)" using assms(2) by (simp add: view_def place_def)
  have on: "view place (on_alarm i f m') = t_parent i new (view place m')" for m'
    unfolding view_on_alarm [OF assms(3)] assms(4)
    by (cases "find_alarm i m'") (simp_all add: t_parent_def view_def place_def)
  show ?thesis
  proof (cases "a_parentAlarmId a = new")
    case True
    then have "t_parent i new ?T = ?T" using i by (auto simp: t_parent_def fun_eq_iff)
    with True t show ?thesis by (simp add: on change_parent_place)
  next
    case False
    with tree_move [of ?T i "a_parentAlarmId a" "a_subordinateAlarms a" new] t i show ?thesis
      by (simp add: on change_parent_place)
  qed
qed

lemma updateParentAlarm_ok:
  assumes "mgr_ok V m"
  shows "mgr_ok V (updateParentAlarm i p m)"
proof (cases "find_alarm i m")
  case (Some a)
  let ?f = "\<lambda>b. (b\<lparr> a_parentAlarmId := p \<rparr>, [Notify Alarm_changed i, Db_update (b\<lparr> a_parentAlarmId := p \<rparr>)])"
  have k: "keeps a_alarmId ?f" "keeps weight ?f" "keeps a_key ?f" by (simp_all add: alarm_views)
  have "tree_ok (view place (on_alarm i ?f (change_parent i (a_parentAlarmId a) p m)))"
    by (rule moved_place [OF assms Some k(1)]) (simp add: place_def)
  with assms Some show ?thesis
    by (simp add: updateParentAlarm_def mgr_ok_def on_alarm_ids k view_on_same [OF k(1)] change_parent_view)
qed (use assms in \<open>simp add: updateParentAlarm_def\<close>)

lemma inert_keeps:
  "keeps a_alarmId (\<lambda>b. snd (openHelpdeskIssue V b))" "keeps place (\<lambda>b. snd (openHelpdeskIssue V b))"
  "keeps weight (\<lambda>b. snd (openHelpdeskIssue V b))" "keeps a_key (\<lambda>b. snd (openHelpdeskIssue V b))"
  "keeps a_alarmId (\<lambda>b. (b\<lparr> a_relatedEvents := a_relatedEvents b @ [e] \<rparr>, x))"
  "keeps place (\<lambda>b. (b\<lparr> a_relatedEvents := a_relatedEvents b @ [e] \<rparr>, x))"
  "keeps weight (\<lambda>b. (b\<lparr> a_relatedEvents := a_relatedEvents b @ [e] \<rparr>, x))"
  "keeps a_key (\<lambda>b. (b\<lparr> a_relatedEvents := a_relatedEvents b @ [e] \<rparr>, x))"
  by (auto simp: alarm_views openHelpdeskIssue_def Let_def split: option.split)

definition event_state :: "u8 \<Rightarrow> u8" where
  "event_state st = (if st AND ALARM_STATE_STICKY = 0 then ALARM_STATE_OUTSTANDING else st)"

lemma updateFromEvent_view:
  "keeps a_alarmId (updateFromEvent V r ev ALARM_STATE_OUTSTANDING)" "keeps a_key (updateFromEvent V r ev ALARM_STATE_OUTSTANDING)"
  "place (fst (updateFromEvent V r ev ALARM_STATE_OUTSTANDING b)) = (r_parentAlarmId r, a_subordinateAlarms b)"
  "weight (fst (updateFromEvent V r ev ALARM_STATE_OUTSTANDING b)) = (ev_sourceId ev, r_severity r, event_state (a_state b))"
  by (auto simp: alarm_views updateFromEvent_def updateStateChangeLog_def event_state_def Let_def)

lemma update_duplicate_ok:
  assumes "mgr_ok V m" "find_alarm i m = Some a" "r_severity r \<le> 4" "ev_sourceId ev \<noteq> 0"
  shows "mgr_ok V (snd (snd (update_duplicate V r ev a m)))"
proof -
  let ?f = "updateFromEvent V r ev ALARM_STATE_OUTSTANDING"
  let ?m2 = "on_alarm i ?f (change_parent i (a_parentAlarmId a) (r_parentAlarmId r) m)"
  let ?w = "(ev_sourceId ev, r_severity r, event_state (a_state a))"
  have id: "a_alarmId a = i" using find_alarm_id [OF assms(2)] by simp
  define m3 where "m3 = (if ev_id ev \<in> set (a_relatedEvents a) then ?m2
      else on_alarm i (\<lambda>b. (b\<lparr> a_relatedEvents := a_relatedEvents b @ [ev_id ev] \<rparr>, [])) ?m2)"
  define m4 where "m4 = (if r_openHelpdeskIssue r then on_alarm i (\<lambda>b. snd (openHelpdeskIssue V b)) m3 else m3)"
  have s: "sums_ok (view weight m) (al_severity m)" and ks: "keys_ok (v_toupper V) (view a_key m) (al_keyIndex m)"
    using assms(1) by (simp_all add: mgr_ok_def)
  have wi: "view weight m i = Some (a_sourceObject a, a_currentSeverity a, a_state a)"
    using assms(2) by (simp add: view_def weight_def)
  have st: "event_state (a_state a) \<noteq> ALARM_STATE_RESOLVED" "weight_ok ?w"
    using s wi assms(3,4) by (auto simp: sums_ok_def weight_ok_def event_state_def)
  have fi: "\<exists>c. find_alarm i (change_parent i (a_parentAlarmId a) (r_parentAlarmId r) m) = Some c \<and> a_state c = a_state a"
    using fun_cong [OF change_parent_view(1) [of i "a_parentAlarmId a" "r_parentAlarmId r" m], of i] wi
    by (auto simp: view_def weight_def)
  have v4: "view weight m4 = (view weight m)(i \<mapsto> ?w)" "view a_key m4 = view a_key m" "view place m4 = view place ?m2"
    "map a_alarmId (al_alarms m4) = map a_alarmId (al_alarms m)" "al_keyIndex m4 = al_keyIndex m" "al_severity m4 = al_severity m"
    using fi by (auto simp: m4_def m3_def view_on_same inert_keeps on_alarm_ids updateFromEvent_view change_parent_view
        view_on_alarm [of ?f weight])
  obtain b where b: "find_alarm i m4 = Some b" "a_alarmId b = i" "a_currentSeverity b = r_severity r"
    using fun_cong [OF v4(1), of i] by (auto simp: view_def weight_def dest: find_alarm_id)
  define m5 where "m5 = (if a_sourceObject a \<noteq> ev_sourceId ev then updateObjectOnAlarmResolve V (a_sourceObject a) i True m4 else m4)"
  have v5: "view weight m5 = view weight m4" "view a_key m5 = view a_key m4" "view place m5 = view place m4"
    "map a_alarmId (al_alarms m5) = map a_alarmId (al_alarms m4)" "al_keyIndex m5 = al_keyIndex m4"
    by (simp_all add: m5_def)
  have f5: "find_alarm i m5 = Some b" using b(1) find_alarm_cong [of m5 m4 i] by (simp add: m5_def)
  have u: "snd (snd (update_duplicate V r ev a m)) = updateObjectOnAlarmUpdate V (ev_sourceId ev) b True m5"
    unfolding update_duplicate_def Let_def id snd_conv m3_def [symmetric] m4_def [symmetric] m5_def [symmetric] f5
    by simp
  have "sums_ok ((view weight m)(i \<mapsto> ?w)) (s_update (ev_sourceId ev) i (r_severity r) (al_severity m5))"
  proof (cases "a_sourceObject a = ev_sourceId ev")
    case True
    with sums_update [OF s st(2,1), of i] wi show ?thesis by (simp add: m5_def v4)
  next
    case False
    let ?P = "(view weight m)(i \<mapsto> (a_sourceObject a, a_currentSeverity a, ALARM_STATE_RESOLVED))"
    have "sums_ok ?P (s_remove (a_sourceObject a) i (al_severity m))"
      by (rule sums_resolve(1) [where P = "view weight m"]) (use s wi in simp_all)
    from sums_update [OF this st(2,1), of i] False show ?thesis by (simp add: m5_def v4)
  qed
  moreover have "tree_ok (view place ?m2)"
    by (rule moved_place [OF assms(1,2)]) (simp_all add: updateFromEvent_view)
  ultimately show ?thesis
    using assms(1) ks b(2,3) unfolding u by (simp add: mgr_ok_def v5 v4)
qed

lemma find_insort:
  "List.find (\<lambda>b. a_alarmId b = j) (insort_key a_alarmId a xs) =
     (if a_alarmId a = j then Some a else List.find (\<lambda>b. a_alarmId b = j) xs)"
  by (induction xs) auto

lemma add_view:
  assumes "find_alarm (a_alarmId a) m = None"
  shows "view g (add_alarm V a m) = (view g m)(a_alarmId a \<mapsto> g a)"
    "sorted_wrt (<) (map a_alarmId (al_alarms m)) \<Longrightarrow> sorted_wrt (<) (map a_alarmId (al_alarms (add_alarm V a m)))"
    "al_severity (add_alarm V a m) = al_severity m"
    "al_keyIndex (add_alarm V a m) = (if a_key a \<noteq> []
       then setObject (v_toupper V) (Some (a_key a)) (Some (a_alarmId a)) (al_keyIndex m) else al_keyIndex m)"
proof -
  let ?xs = "filter (\<lambda>b. a_alarmId b \<noteq> a_alarmId a) (al_alarms m)"
  show "view g (add_alarm V a m) = (view g m)(a_alarmId a \<mapsto> g a)"
    by (auto simp: view_def fun_eq_iff find_alarm_def add_alarm_def find_insort find_filter)
  have i: "a_alarmId a \<notin> a_alarmId ` set ?xs" by auto
  show "sorted_wrt (<) (map a_alarmId (al_alarms (add_alarm V a m)))" if "sorted_wrt (<) (map a_alarmId (al_alarms m))"
  proof -
    have d: "sorted (map a_alarmId ?xs)" "distinct (map a_alarmId ?xs)"
      using that by (simp_all add: strict_sorted_iff sorted_filter distinct_map_filter)
    have "mset (map a_alarmId (insort_key a_alarmId a ?xs)) = mset (a_alarmId a # map a_alarmId ?xs)" by simp
    then have "distinct (map a_alarmId (insort_key a_alarmId a ?xs))"
      using i d(2) by (metis distinct.simps(2) list.set_map mset_eq_imp_distinct_iff)
    then show ?thesis using d(1) by (simp add: add_alarm_def strict_sorted_iff sorted_insort_key)
  qed
qed (simp_all add: add_alarm_def)

lemma create_new_ok:
  assumes "mgr_ok V m" "find_alarm n m = None" "\<forall>a \<in> set (al_alarms m). a_parentAlarmId a \<noteq> n" "n \<noteq> 0"
    "r_severity r \<le> 4" "ev_sourceId ev \<noteq> 0"
  shows "mgr_ok V (create_new V r ev n ai m)"
proof -
  define a where "a = fst (if r_openHelpdeskIssue r then snd (openHelpdeskIssue V (new_alarm V r ev n)) else (new_alarm V r ev n, []))"
  define e where "e = snd (if r_openHelpdeskIssue r then snd (openHelpdeskIssue V (new_alarm V r ev n)) else (new_alarm V r ev n, []))"
  define m1 where "m1 = updateObjectOnAlarmUpdate V (ev_sourceId ev) a False (add_alarm V a (emit e m))"
  define m3 where "m3 = (if r_parentAlarmId r \<noteq> 0 \<and> find_alarm (r_parentAlarmId r) (emit [Db_insert a] m1) \<noteq> None
      then emit [Notify Alarm_changed (r_parentAlarmId r)] (addSubordinateAlarm (r_parentAlarmId r) n (emit [Db_insert a] m1))
      else emit [Db_insert a] m1)"
  have a: "a_alarmId a = n" "place a = (r_parentAlarmId r, [])" "weight a = (ev_sourceId ev, r_severity r, ALARM_STATE_OUTSTANDING)"
    "a_key a = wcslcpy (r_key r) ALARM_KEY_SIZE" "a_currentSeverity a = r_severity r"
    using inert_keeps(1-4) [of V] by (auto simp: a_def keeps_def weight_def place_def new_alarm_def)
  have f: "find_alarm (a_alarmId a) (emit e m) = None" using assms(2) a(1) by (simp add: find_alarm_def)
  note v = add_view [OF f]
  have T: "tree_ok (view place m)" and S: "sums_ok (view weight m) (al_severity m)"
    and K: "keys_ok (v_toupper V) (view a_key m) (al_keyIndex m)" and I: "sorted_wrt (<) (map a_alarmId (al_alarms m))"
    using assms(1) by (simp_all add: mgr_ok_def)
  have none: "view g m n = None" for g :: "alarm \<Rightarrow> 'x" using assms(2) by (simp add: view_def)
  have "children (view place m) n = {}"
    using assms(3) by (auto simp: children_def view_def place_def dest: find_alarm_id)
  from tree_insert [OF T none this assms(4)] have T': "tree_ok (t_add (r_parentAlarmId r) n (view place m1))"
    by (simp add: m1_def v a)
  have p3: "view place m3 = t_add (r_parentAlarmId r) n (view place m1)"
  proof (cases "r_parentAlarmId r \<noteq> 0 \<and> find_alarm (r_parentAlarmId r) m1 \<noteq> None")
    case True
    then show ?thesis by (simp add: m3_def addSubordinate_view find_alarm_def)
  next
    case False
    moreover have "view place m1 0 = None" using T assms(4) by (simp add: m1_def v a tree_ok_def)
    ultimately have "view place m1 (r_parentAlarmId r) = None" by (auto simp: view_def)
    with False show ?thesis by (auto simp: m3_def find_alarm_def t_add_def)
  qed
  have o3: "view weight m3 = (view weight m)(n \<mapsto> weight a)" "view a_key m3 = (view a_key m)(n \<mapsto> a_key a)"
    "al_severity m3 = s_update (ev_sourceId ev) n (r_severity r) (al_severity m)"
    "al_keyIndex m3 = (if a_key a \<noteq> [] then setObject (v_toupper V) (Some (a_key a)) (Some n) (al_keyIndex m) else al_keyIndex m)"
    "sorted_wrt (<) (map a_alarmId (al_alarms m3))"
    using v(2) I by (simp_all add: m3_def m1_def addSubordinate_view v(1,3,4) a)
  have "sums_ok (view weight m3) (al_severity m3)"
    unfolding o3 a by (rule sums_update [OF S]) (use assms(5,6) in \<open>simp_all add: weight_ok_def none\<close>)
  moreover have "keys_ok (v_toupper V) (view a_key m3) (al_keyIndex m3)"
    unfolding o3 a using keys_insert [OF K none] keys_insert_empty [OF K none] by (auto simp: wcslcpy_def)
  ultimately have "mgr_ok V m3" using T' o3(5) by (simp add: mgr_ok_def p3)
  moreover have "create_new V r ev n ai m = recalculateObjectStatus V (ev_sourceId ev)
      (emit ((if ai then [Ai_comment n] else []) @ [Notify New_alarm n])
        (if ev_dciId ev \<noteq> 0 \<and> v_dciComments V (ev_sourceId ev) (ev_dciId ev) \<noteq> []
         then on_alarm n (\<lambda>b. snd (updateAlarmComment V 0 (v_dciComments V (ev_sourceId ev) (ev_dciId ev)) True b)) m3 else m3))"
    by (simp add: create_new_def Let_def split_beta m3_def m1_def a_def e_def)
  ultimately show ?thesis by (simp add: soft_ok soft_helpdesk)
qed

end
