(* ===== verification/Nx_Alarm_Laws.thy ===== *)
theory Nx_Alarm_Laws
  imports Nx_Alarm_Ops
begin

text \<open>
  What the alarm manager guarantees over every sequence of its operations: the severity summary
  agrees with the alarms, and the key index and the subordinate lists name only alarms that exist.
\<close>

section \<open>Sequences of operations\<close>

datatype al_op =
    Op_create alarm_rule event u32 bool
  | Op_ack u32 "u32 option" bool u32 bool
  | Op_ack_ref wstr "u32 option" bool u32
  | Op_resolve "u32 list" "u32 option" bool bool
  | Op_resolve_regexp "(wstr \<Rightarrow> bool) option" bool "event option"
  | Op_resolve_key wstr bool "event option"
  | Op_resolve_dci u32 bool
  | Op_resolve_ref wstr "u32 option" bool
  | Op_set_ref u32 "wstr option"
  | Op_close_issue u32
  | Op_open_issue "alarm \<Rightarrow> bool" u32
  | Op_unlink u32
  | Op_unlink_ref wstr
  | Op_comment u32 u32 wstr bool
  | Op_comment_ref wstr wstr
  | Op_delete_comment u32 u32
  | Op_parent u32 u32
  | Op_delete u32
  | Op_watchdog

fun exec :: "al_env \<Rightarrow> al_op \<Rightarrow> alarm_mgr \<Rightarrow> alarm_mgr" where
  "exec V (Op_create r ev n ai) m = snd (CreateNewAlarm V r ev n ai m)"
| "exec V (Op_ack i s st t sub) m = snd (AckAlarmById V i s st t sub m)"
| "exec V (Op_ack_ref h s st t) m = snd (AckAlarmByHDRef V h s st t m)"
| "exec V (Op_resolve is s t sub) m = snd (ResolveAlarmsById V is s t sub m)"
| "exec V (Op_resolve_regexp p t ev) m = ResolveAlarmByKeyRegexp V p t ev m"
| "exec V (Op_resolve_key k t ev) m = ResolveAlarmByKeyExact V k t ev m"
| "exec V (Op_resolve_dci d t) m = ResolveAlarmByDCObjectId V d t m"
| "exec V (Op_resolve_ref h s t) m = snd (ResolveAlarmByHDRef V h s t m)"
| "exec V (Op_set_ref i h) m = snd (SetHelpdeskReference i h m)"
| "exec V (Op_close_issue i) m = snd (CloseHelpdeskIssue i m)"
| "exec V (Op_open_issue al i) m = snd (OpenHelpdeskIssue V al i m)"
| "exec V (Op_unlink i) m = snd (UnlinkHelpdeskIssueById i m)"
| "exec V (Op_unlink_ref h) m = snd (UnlinkHelpdeskIssueByHDRef h m)"
| "exec V (Op_comment i n t s) m = snd (UpdateAlarmComment V i n t s m)"
| "exec V (Op_comment_ref h t) m = snd (AddAlarmComment V h t m)"
| "exec V (Op_delete_comment i n) m = snd (DeleteAlarmCommentByID V i n m)"
| "exec V (Op_parent i p) m = updateParentAlarm i p m"
| "exec V (Op_delete i) m = DeleteAlarm V i False m"
| "exec V Op_watchdog m = watchdog_pass V m"

text \<open>
  A new alarm gets an identifier that was never given out, and events come from an object and
  with a severity of the five levels.
\<close>

fun allowed :: "alarm_mgr \<Rightarrow> al_op \<Rightarrow> bool" where
  "allowed m (Op_create r ev n ai) \<longleftrightarrow> n \<noteq> 0 \<and> find_alarm n m = None \<and> list_all (\<lambda>a. a_parentAlarmId a \<noteq> n) (al_alarms m) \<and>
     r_severity r \<le> 4 \<and> ev_sourceId ev \<noteq> 0"
| "allowed m op \<longleftrightarrow> True"

definition no_alarms :: alarm_mgr where
  "no_alarms = \<lparr> al_alarms = [], al_keyIndex = new_strmap False, al_severity = (\<lambda>_. None),
     al_rootCauseUpdateNeeded = False, al_rootCauseUpdatePossible = False, al_log = [] \<rparr>"

inductive al_reachable :: "(wchar \<Rightarrow> wchar) \<Rightarrow> alarm_mgr \<Rightarrow> bool" for U where
  start: "al_reachable U no_alarms"
| step: "al_reachable U m \<Longrightarrow> v_toupper V = U \<Longrightarrow> allowed m op \<Longrightarrow> al_reachable U (exec V op m)"

lemma mgr_ok_env: "v_toupper V = v_toupper V' \<Longrightarrow> mgr_ok V m = mgr_ok V' m"
  by (simp add: mgr_ok_def)

lemma no_alarms_ok: "mgr_ok V no_alarms"
  by (simp add: mgr_ok_def no_alarms_def view_def find_alarm_def tree_ok_def sums_ok_def fun_eq_iff entry_def counted_def
      keys_ok_def new_strmap_def sm_ok_def getObject_def find_sm_def)

lemma bind_found: "Option.bind (find_key V k m) (\<lambda>i. find_alarm i m) = Some a \<Longrightarrow> find_alarm (a_alarmId a) m = Some a"
  by (auto simp: bind_eq_Some_conv dest: find_alarm_id)

lemma find_mem:
  assumes "mgr_ok V m" "a \<in> set (al_alarms m)"
  shows "find_alarm (a_alarmId a) m = Some a"
proof -
  have "distinct (map a_alarmId (al_alarms m))" using assms(1) by (simp add: mgr_ok_def strict_sorted_iff)
  then have "List.find (\<lambda>b. a_alarmId b = a_alarmId a) xs = Some a" if "a \<in> set xs" "distinct (map a_alarmId xs)" for xs
    using that by (induction xs) (auto simp: rev_image_eqI)
  then show ?thesis using assms by (simp add: find_alarm_def mgr_ok_def strict_sorted_iff)
qed

lemma found_ref: "mgr_ok V m \<Longrightarrow> find_hdref h m = Some a \<Longrightarrow> find_alarm (a_alarmId a) m = Some a"
  unfolding find_hdref_def by (rule find_mem, assumption) (metis (mono_tags, lifting) find_Some_iff nth_mem)

lemma CreateNewAlarm_ok:
  assumes "mgr_ok V m" "allowed m (Op_create r ev n ai)"
  shows "mgr_ok V (snd (CreateNewAlarm V r ev n ai m))"
proof -
  define dup where "dup = (if r_key r \<noteq> [] then Option.bind (find_key V (r_key r) m) (\<lambda>i. find_alarm i m) else None)"
  have "mgr_ok V (snd (snd (case dup of Some a \<Rightarrow> update_duplicate V r ev a m | None \<Rightarrow> (n, True, create_new V r ev n ai m))))"
  proof (cases dup)
    case None
    with assms show ?thesis by (simp add: create_new_ok list_all_iff)
  next
    case (Some a)
    then have "find_alarm (a_alarmId a) m = Some a" by (auto simp: dup_def bind_found split: if_splits)
    with Some assms show ?thesis using update_duplicate_ok by fastforce
  qed
  moreover have "mgr_ok V (m'\<lparr> al_rootCauseUpdatePossible := x \<rparr>) = mgr_ok V m'"
    "mgr_ok V (m'\<lparr> al_rootCauseUpdateNeeded := x \<rparr>) = mgr_ok V m'" for m' x
    by (rule mgr_ok_cong; simp)+
  ultimately show ?thesis
    unfolding CreateNewAlarm_def Let_def dup_def [symmetric] by (simp add: split_beta)
qed

lemma DeleteAlarm_ok:
  assumes "mgr_ok V m"
  shows "mgr_ok V (DeleteAlarm V i False m)"
proof (cases "find_alarm i m")
  case (Some a)
  have i: "a_alarmId a = i" using find_alarm_id [OF Some] by simp
  have z: "view place (emit [Notify Alarm_deleted i] m) 0 = None" using no_zero [OF assms] by simp
  show ?thesis
    by (rule gone_ok [OF assms Some]) (simp_all add: DeleteAlarm_def Some remove_view [OF i z])
qed (use assms in \<open>simp add: DeleteAlarm_def\<close>)

lemma watchdog_ok: "mgr_ok V m \<Longrightarrow> mgr_ok V (watchdog_pass V m)"
  by (simp add: watchdog_pass_def Let_def fold_ok resolve_matched_ok soft_ok soft_watchdog)

lemma soft_close:
  "soft (\<lambda>b. snd (if a_helpDeskState b = ALARM_HELPDESK_OPEN
      then (RCC_SUCCESS, onHelpdeskIssueClose b, [Notify Alarm_changed i, Db_update (onHelpdeskIssueClose b)])
      else (RCC_OUT_OF_STATE_REQUEST, b, [])))"
  "soft (\<lambda>b. snd (if al b then openHelpdeskIssue V b else (RCC_ACCESS_DENIED, b, [])))"
  using inert_keeps(1-4) [of V]
  by (auto intro!: softI simp: place_def weight_def onHelpdeskIssueClose_def keeps_def)

lemma exec_ok:
  assumes "mgr_ok V m" "allowed m op"
  shows "mgr_ok V (exec V op m)"
proof (cases op)
  case (Op_resolve_key k t ev)
  then show ?thesis
    using assms resolve_exact_ok bind_found
    by (auto simp: ResolveAlarmByKeyExact_def Let_def split: option.split)
next
  case (Op_resolve_ref h s t)
  then show ?thesis
    using assms resolve_exact_ok found_ref
    by (auto simp: ResolveAlarmByHDRef_def Let_def split: option.split)
qed (use assms in \<open>auto simp: CreateNewAlarm_ok DeleteAlarm_ok watchdog_ok updateParentAlarm_ok ResolveAlarmsById_ok
    ResolveAlarmByKeyRegexp_def ResolveAlarmByDCObjectId_def resolve_collected_ok
    AckAlarmById_def AckAlarmByHDRef_def SetHelpdeskReference_def CloseHelpdeskIssue_def OpenHelpdeskIssue_def
    UnlinkHelpdeskIssueById_def UnlinkHelpdeskIssueByHDRef_def UpdateAlarmComment_def AddAlarmComment_def
    DeleteAlarmCommentByID_def with_alarm_ok soft_helpdesk soft_acknowledge soft_close split: option.split\<close>)

lemma reachable_ok: "al_reachable U m \<Longrightarrow> v_toupper V = U \<Longrightarrow> mgr_ok V m"
proof (induction rule: al_reachable.induct)
  case start
  show ?case by (rule no_alarms_ok)
next
  case (step m V' op)
  then show ?case using exec_ok [of V' m op] mgr_ok_env [of V V'] by simp
qed

section \<open>Consistency of reachable managers\<close>

text \<open>The severities of the alarms of an object that are not resolved.\<close>

definition active_severities :: "u32 \<Rightarrow> alarm_mgr \<Rightarrow> int set" where
  "active_severities obj m = (\<lambda>a. uint (a_currentSeverity a)) `
     {a \<in> set (al_alarms m). a_sourceObject a = obj \<and> a_state a \<noteq> ALARM_STATE_RESOLVED}"

lemma active_list:
  "active_severities obj m = set (map (\<lambda>a. uint (a_currentSeverity a))
     (filter (\<lambda>a. a_sourceObject a = obj \<and> a_state a \<noteq> ALARM_STATE_RESOLVED) (al_alarms m)))"
  by (simp add: active_severities_def)

lemma active_counted:
  assumes "mgr_ok V m"
  shows "active_severities obj m = {v. \<exists>i. counted (view weight m) obj i = Some v}"
proof -
  have "v \<in> active_severities obj m" if "counted (view weight m) obj i = Some v" for i v
    using that by (auto simp: counted_def view_def weight_def active_severities_def split: option.splits if_splits
        dest: find_alarm_id)
  moreover have "\<exists>i. counted (view weight m) obj i = Some v" if v: "v \<in> active_severities obj m" for v
  proof -
    from v obtain a where "a \<in> set (al_alarms m)" "a_sourceObject a = obj" "a_state a \<noteq> ALARM_STATE_RESOLVED"
      "v = uint (a_currentSeverity a)" by (auto simp: active_severities_def)
    with find_mem [OF assms, of a] have "counted (view weight m) obj (a_alarmId a) = Some v"
      by (simp add: counted_def view_def weight_def)
    then show ?thesis ..
  qed
  ultimately show ?thesis by blast
qed

lemma most_critical_exact:
  assumes "mgr_ok V m"
  shows "getMostCriticalAlarmForObject obj m =
    (if active_severities obj m = {} then STATUS_UNKNOWN else Max (active_severities obj m))"
proof -
  have A: "active_severities obj m = {v. \<exists>i. entry (al_severity m) obj i = Some v}"
    unfolding active_counted [OF assms] using assms by (simp add: mgr_ok_def sums_ok_def)
  show ?thesis
  proof (cases "al_severity m obj")
    case None
    then show ?thesis by (simp add: A getMostCriticalAlarmForObject_def entry_def)
  next
    case (Some s)
    let ?M = "map_of (os_severities s)"
    have f: "sev_fn ?M (os_mostCritical s)" using assms Some by (auto simp: mgr_ok_def sums_ok_def sev_ok_def)
    have A': "active_severities obj m = {v. \<exists>i. ?M i = Some v}" by (simp add: A entry_def Some)
    show ?thesis
    proof (cases "os_mostCritical s = - 1")
      case True
      then have "active_severities obj m = {}" using f by (fastforce simp: A' sev_fn_def)
      with Some True show ?thesis by (simp add: getMostCriticalAlarmForObject_def getMostCritical_def)
    next
      case False
      then have m: "os_mostCritical s \<in> active_severities obj m" "\<forall>v \<in> active_severities obj m. v \<le> os_mostCritical s"
        using f by (auto simp: A' sev_fn_def)
      have "finite (active_severities obj m)" by (simp add: active_severities_def)
      then have "Max (active_severities obj m) = os_mostCritical s" using m by (intro Max_eqI) auto
      with Some False m(1) show ?thesis by (auto simp: getMostCriticalAlarmForObject_def getMostCritical_def)
    qed
  qed
qed


text \<open>A server without help desk and scripts, for concrete runs.\<close>

definition quiet_env :: al_env where
  "quiet_env = \<lparr> v_time = 50, v_toupper = (\<lambda>c. c), v_ignoreHelpdesk = False, v_issueOpen = (\<lambda>_. None),
     v_createIssue = (\<lambda>_. None), v_objectName = (\<lambda>_. []), v_objectExists = (\<lambda>_. True), v_access = (\<lambda>_ _ _. True),
     v_resolveExpirationTime = 0, v_dciComments = (\<lambda>_ _. []), v_noteValid = (\<lambda>_ _. False), v_noteWritten = False \<rparr>"

definition plain_rule :: "wstr \<Rightarrow> u32 \<Rightarrow> u8 \<Rightarrow> alarm_rule" where
  "plain_rule key parent sev = \<lparr> r_guid = [], r_description = [], r_message = [77], r_key = key, r_impact = None, r_severity = sev,
     r_timeout = 0, r_timeoutEvent = 0, r_parentAlarmId = parent, r_rcaScriptName = None, r_ackTimeout = 0,
     r_categories = [], r_openHelpdeskIssue = False \<rparr>"

definition plain_event :: "u64 \<Rightarrow> event" where
  "plain_event i = \<lparr> ev_id = i, ev_code = 1, ev_sourceId = 100, ev_zoneUIN = 0, ev_dciId = 0, ev_tags = [] \<rparr>"

definition one_alarm :: alarm_mgr where
  "one_alarm = exec quiet_env (Op_create (plain_rule [65] 0 3) (plain_event 1) 7 False) no_alarms"

lemma one_alarm_reachable: "al_reachable (\<lambda>c. c) one_alarm"
  unfolding one_alarm_def
  by (rule al_reachable.step [OF al_reachable.start])
    (simp_all add: quiet_env_def no_alarms_def find_alarm_def plain_rule_def plain_event_def)

lemma one_alarm_list:
  "al_alarms one_alarm = [new_alarm quiet_env (plain_rule [65] 0 3) (plain_event 1) 7]"
  by (simp add: one_alarm_def CreateNewAlarm_def create_new_def Let_def find_key_def no_alarms_def new_strmap_def
      getObject_def find_sm_def add_alarm_def plain_rule_def plain_event_def new_alarm_def)


text \<open>A second alarm with the first as its parent.\<close>

definition two_alarms :: alarm_mgr where
  "two_alarms = exec quiet_env (Op_create (plain_rule [66] 7 2) (plain_event 2) 8 False) one_alarm"

lemma one_alarm_keys: "getObject U (Some [66]) (al_keyIndex one_alarm) = (if U 66 = 65 then Some 7 else None)"
  by (simp add: one_alarm_def CreateNewAlarm_def create_new_def Let_def find_key_def no_alarms_def new_strmap_def
      getObject_def find_sm_def add_alarm_def plain_rule_def plain_event_def new_alarm_def wcslcpy_def setObject_def
      fold_key_def quiet_env_def)

lemma two_alarms_reachable: "al_reachable (\<lambda>c. c) two_alarms"
  unfolding two_alarms_def
  by (rule al_reachable.step [OF one_alarm_reachable])
    (simp_all add: quiet_env_def find_alarm_def one_alarm_list new_alarm_def plain_rule_def plain_event_def)

lemma two_alarms_list:
  "al_alarms two_alarms =
     [(new_alarm quiet_env (plain_rule [65] 0 3) (plain_event 1) 7)\<lparr> a_subordinateAlarms := [8] \<rparr>,
      new_alarm quiet_env (plain_rule [66] 7 2) (plain_event 2) 8]"
proof -
  have "find_key quiet_env [66] one_alarm = None" by (simp add: find_key_def one_alarm_keys quiet_env_def)
  then show ?thesis
    by (simp add: two_alarms_def CreateNewAlarm_def create_new_def Let_def add_alarm_def plain_rule_def plain_event_def
      new_alarm_def one_alarm_list find_alarm_def addSubordinateAlarm_def on_alarm_def)
qed

text \<open>
  C13. No dangling references: after any sequence of operations every entry of the key index
  names an alarm of the list with that key, and the subordinates of an alarm are exactly the
  alarms of the list whose parent it is, each named once.
\<close>

theorem alarm_references_sound:
  assumes "al_reachable U m"
  shows "(\<forall>k i. getObject U (Some k) (al_keyIndex m) = Some i \<longrightarrow>
      (\<exists>a \<in> set (al_alarms m). a_alarmId a = i \<and> map U (a_key a) = map U k)) \<and>
    (\<forall>p \<in> set (al_alarms m). distinct (a_subordinateAlarms p) \<and>
      set (a_subordinateAlarms p) = {a_alarmId c | c. c \<in> set (al_alarms m) \<and> a_parentAlarmId c = a_alarmId p})"
proof -
  obtain V :: al_env where V: "v_toupper V = U" by (metis al_env.select_convs(2))
  have ok: "mgr_ok V m" by (rule reachable_ok [OF assms V])
  have k: "keys_ok U (view a_key m) (al_keyIndex m)" and t: "tree_ok (view place m)"
    using ok V by (auto simp: mgr_ok_def)
  have "\<exists>a \<in> set (al_alarms m). a_alarmId a = i \<and> map U (a_key a) = map U kk"
    if "getObject U (Some kk) (al_keyIndex m) = Some i" for kk i
    using keys_get [OF k that] by (auto simp: view_def dest: find_alarm_id)
  moreover have "distinct (a_subordinateAlarms p) \<and>
      set (a_subordinateAlarms p) = {a_alarmId c | c. c \<in> set (al_alarms m) \<and> a_parentAlarmId c = a_alarmId p}"
    if p: "p \<in> set (al_alarms m)" for p
  proof -
    have "view place m (a_alarmId p) = Some (a_parentAlarmId p, a_subordinateAlarms p)"
      using find_mem [OF ok p] by (simp add: view_def place_def)
    then have "distinct (a_subordinateAlarms p)" "set (a_subordinateAlarms p) = children (view place m) (a_alarmId p)"
      using t by (auto simp: tree_ok_children)
    moreover have "children (view place m) (a_alarmId p) =
        {a_alarmId c | c. c \<in> set (al_alarms m) \<and> a_parentAlarmId c = a_alarmId p}"
      using find_mem [OF ok] by (fastforce simp: children_def view_def place_def dest: find_alarm_id)
    ultimately show ?thesis by simp
  qed
  ultimately show ?thesis by blast
qed

theorem alarm_references_sound_witness:
  "set (a_subordinateAlarms (hd (al_alarms two_alarms))) = {8} \<and>
   {a_alarmId c | c. c \<in> set (al_alarms two_alarms) \<and> a_parentAlarmId c = 7} = {8}"
  using alarm_references_sound [OF two_alarms_reachable, THEN conjunct2] by (simp add: two_alarms_list new_alarm_def)

end
