(* ===== verification/Nx_Alarm_Keys.thy ===== *)
theory Nx_Alarm_Keys
  imports Nx_Alarm_Laws
begin

text \<open>
  Alarm keys (\<^verbatim>\<open>CreateNewAlarm\<close> in \<^verbatim>\<open>src/src/server/core/alarm.cpp\<close>): an event whose
  key is in the index updates the alarm it finds there, any other event creates an alarm, and
  a key longer than the buffer of the alarm is never found again.
\<close>

section \<open>Keys\<close>

text \<open>What an event changes in the alarm with its key.\<close>

definition seen :: "alarm \<Rightarrow> u64 \<times> u8 \<times> u32 \<times> u8" where
  "seen a = (a_sourceEventId a, a_currentSeverity a, a_repeatCount a, a_state a)"

lemma view_on_kept: "keeps a_alarmId f \<Longrightarrow> keeps g f \<Longrightarrow> view g m = F \<Longrightarrow> view g (on_alarm i f m) = F"
  by (simp add: view_on_same)

lemma seen_kept:
  "keeps seen (\<lambda>b. snd (openHelpdeskIssue V b))"
  "keeps seen (\<lambda>b. (b\<lparr> a_relatedEvents := a_relatedEvents b @ [e] \<rparr>, x))"
  "keeps seen (\<lambda>b. snd (updateAlarmComment V c t s b))" "keeps a_alarmId (\<lambda>b. snd (updateAlarmComment V c t s b))"
  by (auto simp: keeps_def seen_def openHelpdeskIssue_def updateAlarmComment_def Let_def split: option.split)

lemma subordinates_seen:
  "view seen (removeSubordinateAlarm p i m) = view seen m" "view seen (addSubordinateAlarm p i m) = view seen m"
  "length (al_alarms (addSubordinateAlarm p i m)) = length (al_alarms m)"
  unfolding removeSubordinateAlarm_def addSubordinateAlarm_def
  by (rule view_on_same; simp add: keeps_def seen_def)+ (simp add: on_alarm_def split: option.split)

lemma change_parent_seen: "view seen (change_parent i old new m) = view seen m"
  by (simp add: change_parent_def Let_def subordinates_seen)

lemma updateFromEvent_seen:
  "seen (fst (updateFromEvent V r ev ALARM_STATE_OUTSTANDING b)) =
     (ev_id ev, r_severity r, a_repeatCount b + 1, event_state (a_state b))"
  by (auto simp: seen_def updateFromEvent_def updateStateChangeLog_def event_state_def Let_def)

lemma duplicate_seen:
  assumes "find_alarm i m = Some a" "m' = snd (snd (update_duplicate V r ev a m))"
  shows "view seen m' = (view seen m)(i \<mapsto> (ev_id ev, r_severity r, a_repeatCount a + 1, event_state (a_state a)))"
    "al_keyIndex m' = al_keyIndex m" "length (al_alarms m') = length (al_alarms m)"
proof -
  have id: "a_alarmId a = i" using find_alarm_id [OF assms(1)] by simp
  let ?f = "updateFromEvent V r ev ALARM_STATE_OUTSTANDING"
  let ?c = "change_parent i (a_parentAlarmId a) (r_parentAlarmId r) m"
  obtain c where c: "find_alarm i ?c = Some c" "seen c = seen a"
    using fun_cong [OF change_parent_seen [of i "a_parentAlarmId a" "r_parentAlarmId r" m], of i] assms(1)
    by (auto simp: view_def)
  from c(2) have c': "a_repeatCount c = a_repeatCount a" "a_state c = a_state a" by (simp_all add: seen_def)
  have v: "view seen (on_alarm i ?f ?c) =
      (view seen m)(i \<mapsto> (ev_id ev, r_severity r, a_repeatCount a + 1, event_state (a_state a)))"
    by (simp add: view_on_alarm updateFromEvent_view updateFromEvent_seen change_parent_seen c(1) c')
  define m2 where "m2 = on_alarm i ?f ?c"
  define m3 where "m3 = (if ev_id ev \<in> set (a_relatedEvents a) then m2
      else on_alarm i (\<lambda>b. (b\<lparr> a_relatedEvents := a_relatedEvents b @ [ev_id ev] \<rparr>, [])) m2)"
  define m4 where "m4 = (if r_openHelpdeskIssue r then on_alarm i (\<lambda>b. snd (openHelpdeskIssue V b)) m3 else m3)"
  define m5 where "m5 = (if a_sourceObject a \<noteq> ev_sourceId ev then updateObjectOnAlarmResolve V (a_sourceObject a) i True m4 else m4)"
  have m': "m' = (case find_alarm i m5 of Some b \<Rightarrow> updateObjectOnAlarmUpdate V (ev_sourceId ev) b True m5 | None \<Rightarrow> m5)"
    unfolding assms(2) update_duplicate_def Let_def id snd_conv
      m2_def [symmetric] m3_def [symmetric] m4_def [symmetric] m5_def [symmetric] ..
  have on: "length (al_alarms (on_alarm j f m'')) = length (al_alarms m'')" for j f m''
    by (simp add: on_alarm_def split: option.split)
  have l: "length (al_alarms ?c) = length (al_alarms m)"
    using arg_cong [OF change_parent_view(3) [of i "a_parentAlarmId a" "r_parentAlarmId r" m], of length] by simp
  have 4: "view seen m4 = view seen m2" "al_keyIndex m4 = al_keyIndex m" "length (al_alarms m4) = length (al_alarms m)"
    by (simp_all add: m4_def m3_def view_on_same seen_kept inert_keeps on) (simp_all add: m2_def on l change_parent_view)
  have 5: "view seen m5 = view seen m4" "al_keyIndex m5 = al_keyIndex m4" "length (al_alarms m5) = length (al_alarms m4)"
    by (simp_all add: m5_def)
  show "view seen m' = (view seen m)(i \<mapsto> (ev_id ev, r_severity r, a_repeatCount a + 1, event_state (a_state a)))"
    unfolding m' v [symmetric] m2_def [symmetric] by (simp add: 4 5 split: option.split)
  show "al_keyIndex m' = al_keyIndex m" "length (al_alarms m') = length (al_alarms m)"
    unfolding m' by (simp_all add: 4 5 split: option.split)
qed

lemma create_seen:
  assumes "find_alarm n m = None" "m' = create_new V r ev n ai m"
  shows "view seen m' = (view seen m)(n \<mapsto> (ev_id ev, r_severity r, 1, ALARM_STATE_OUTSTANDING))"
    "al_keyIndex m' = (if r_key r \<noteq> []
       then setObject (v_toupper V) (Some (wcslcpy (r_key r) ALARM_KEY_SIZE)) (Some n) (al_keyIndex m) else al_keyIndex m)"
    "length (al_alarms m') = Suc (length (al_alarms m))"
proof -
  define a e where "a = fst (if r_openHelpdeskIssue r then snd (openHelpdeskIssue V (new_alarm V r ev n)) else (new_alarm V r ev n, []))"
    and "e = snd (if r_openHelpdeskIssue r then snd (openHelpdeskIssue V (new_alarm V r ev n)) else (new_alarm V r ev n, []))"
  have k: "a_alarmId a = n" "seen a = (ev_id ev, r_severity r, 1, ALARM_STATE_OUTSTANDING)" "a_key a = wcslcpy (r_key r) ALARM_KEY_SIZE"
    using inert_keeps(1,4) [of V] seen_kept(1) [of V] by (auto simp: a_def keeps_def new_alarm_def seen_def)
  have f: "find_alarm (a_alarmId a) (emit e m) = None" using assms(1) k(1) by (simp add: find_alarm_def)
  note v = add_view [OF f]
  have "filter (\<lambda>b. a_alarmId b \<noteq> n) (al_alarms m) = al_alarms m"
    using assms(1) by (auto simp: find_alarm_def find_None_iff intro: filter_True)
  then have l: "length (al_alarms (add_alarm V a (emit e m))) = Suc (length (al_alarms m))"
    by (simp add: add_alarm_def k(1) f)
  have on: "length (al_alarms (on_alarm j f m'')) = length (al_alarms m'')" for j f m''
    by (simp add: on_alarm_def split: option.split)
  have u: "m' = create_new V r ev n ai m" by (rule assms(2))
  note u = u [unfolded create_new_def Let_def split_beta, folded a_def e_def]
  have w: "wcslcpy k ALARM_KEY_SIZE = [] \<longleftrightarrow> k = []" for k by (cases k) (simp_all add: wcslcpy_def)
  show "view seen m' = (view seen m)(n \<mapsto> (ev_id ev, r_severity r, 1, ALARM_STATE_OUTSTANDING))"
    unfolding u by (simp add: view_on_same seen_kept subordinates_seen v(1) k)
  show "al_keyIndex m' = (if r_key r \<noteq> []
       then setObject (v_toupper V) (Some (wcslcpy (r_key r) ALARM_KEY_SIZE)) (Some n) (al_keyIndex m) else al_keyIndex m)"
    unfolding u by (simp add: addSubordinate_view v(4) k w)
  show "length (al_alarms m') = Suc (length (al_alarms m))"
    unfolding u by (simp add: subordinates_seen on l)
qed

lemma seen_alarm:
  "view seen m i = Some (e, sev, n, st) \<Longrightarrow>
     \<exists>a. find_alarm i m = Some a \<and> a_sourceEventId a = e \<and> a_currentSeverity a = sev \<and> a_repeatCount a = n \<and> a_state a = st"
  by (auto simp: view_def seen_def)

text \<open>The alarm list and the key index after a creation are those of the branch taken.\<close>

lemma create_branch:
  assumes "r_key r \<noteq> []" "m' = exec V (Op_create r ev n ai) m"
    "m0 = (case Option.bind (find_key V (r_key r) m) (\<lambda>i. find_alarm i m) of
       Some a \<Rightarrow> snd (snd (update_duplicate V r ev a m)) | None \<Rightarrow> create_new V r ev n ai m)"
  shows "find_key V k m' = find_key V k m0" "view g m' = view g m0" "length (al_alarms m') = length (al_alarms m0)"
proof -
  define d where "d = (if r_key r \<noteq> [] then Option.bind (find_key V (r_key r) m) (\<lambda>i. find_alarm i m) else None)"
  define x where "x = (case d of Some a \<Rightarrow> update_duplicate V r ev a m | None \<Rightarrow> (n, True, create_new V r ev n ai m))"
  have "d = Option.bind (find_key V (r_key r) m) (\<lambda>i. find_alarm i m)" using assms(1) by (simp add: d_def)
  then have "snd (snd x) = m0" unfolding assms(3) x_def by (simp split: option.split)
  then obtain i u where x: "x = (i, u, m0)" by (cases x) simp
  have "al_alarms m' = al_alarms m0" "al_keyIndex m' = al_keyIndex m0"
    unfolding assms(2) exec.simps CreateNewAlarm_def Let_def d_def [symmetric] x_def [symmetric] x prod.case snd_conv
    by simp_all
  then show "find_key V k m' = find_key V k m0" "length (al_alarms m') = length (al_alarms m0)" "view g m' = view g m0"
    by (simp_all add: find_key_def view_cong [of m' m0])
qed

lemma indexed_alarm:
  assumes "mgr_ok V m" "find_key V k m = Some i"
  obtains a where "find_alarm i m = Some a" "map (v_toupper V) (a_key a) = map (v_toupper V) k"
proof -
  have "keys_ok (v_toupper V) (view a_key m) (al_keyIndex m)" using assms(1) by (simp add: mgr_ok_def)
  from keys_get [OF this assms(2) [unfolded find_key_def]] obtain key
    where "view a_key m i = Some key" "map (v_toupper V) key = map (v_toupper V) k" by auto
  with that show ?thesis by (auto simp: view_def)
qed



text \<open>
  A key of 256 characters or more is stored cut to 255, so the full key never leads to an alarm
  and every event with it creates another one.
\<close>

lemma long_key_duplicates:
  assumes "al_reachable (v_toupper V) m" "allowed m (Op_create r ev n ai)" "length (r_key r) \<ge> ALARM_KEY_SIZE"
  shows "length (al_alarms (exec V (Op_create r ev n ai) m)) = Suc (length (al_alarms m))"
proof -
  have ok: "mgr_ok V m" by (rule reachable_ok [OF assms(1)]) simp
  have "find_key V (r_key r) m = None"
  proof (rule ccontr)
    assume "find_key V (r_key r) m \<noteq> None"
    then obtain i where "find_key V (r_key r) m = Some i" by blast
    from indexed_alarm [OF ok this] obtain a
      where a: "find_alarm i m = Some a" "map (v_toupper V) (a_key a) = map (v_toupper V) (r_key r)" .
    have "view a_key m i = Some (a_key a)" using a(1) by (simp add: view_def)
    then have "length (a_key a) < ALARM_KEY_SIZE" using ok unfolding mgr_ok_def keys_ok_def by blast
    with assms(3) map_eq_imp_length_eq [OF a(2)] show False by simp
  qed
  note b = create_branch(3) [OF _ refl refl, of r V ev n ai m, unfolded this Option.bind.simps option.case]
  have "r_key r \<noteq> []" using assms(3) by auto
  then show ?thesis using b create_seen(3) [OF _ refl, of n m V r ev ai] assms(2) by simp
qed

end
