(* ===== verification/Nx_Alarm_Cascade.thy ===== *)
theory Nx_Alarm_Cascade
  imports Nx_Alarm_Laws
begin

text \<open>
  The work that acknowledging or resolving an alarm with its subordinates starts in the
  background (\<^verbatim>\<open>AckAlarmsInBackground\<close> and \<^verbatim>\<open>ResolveAlarmsInBackground\<close> in
  \<^verbatim>\<open>src/src/server/core/alarm.cpp\<close>). The tasks wait in the thread pool; a step takes any of
  them, and an acknowledgement task gives up the lock of the alarm list between two alarms. Each
  task an operation starts is paid for by a state change of the alarm that started it, which
  bounds the work even when the parent references form a cycle.
\<close>

section \<open>Tasks\<close>

datatype task = Ack_task "u32 list" bool u32 | Resolve_task "u32 list" bool

fun AckAlarmsInBackground :: "al_env \<Rightarrow> u32 list \<Rightarrow> bool \<Rightarrow> u32 \<Rightarrow> alarm_mgr \<Rightarrow> alarm_mgr" where
  "AckAlarmsInBackground V [] sticky ackTime m = m"
| "AckAlarmsInBackground V (i # ids) sticky ackTime m =
     AckAlarmsInBackground V ids sticky ackTime (snd (AckAlarmById V i None sticky ackTime True m))"

definition ResolveAlarmsInBackground :: "al_env \<Rightarrow> u32 list \<Rightarrow> bool \<Rightarrow> alarm_mgr \<Rightarrow> alarm_mgr" where
  "ResolveAlarmsInBackground V ids terminate m = snd (ResolveAlarmsById V ids None terminate True m)"

text \<open>The tasks among the effects of an operation.\<close>

fun spawned :: "al_effect list \<Rightarrow> task list" where
  "spawned [] = []"
| "spawned (Ack_in_background ids sticky t # es) = Ack_task ids sticky t # spawned es"
| "spawned (Resolve_in_background ids terminate # es) = Resolve_task ids terminate # spawned es"
| "spawned (e # es) = spawned es"

definition quiet :: "alarm_mgr \<Rightarrow> alarm_mgr" where
  "quiet m = m\<lparr> al_log := [] \<rparr>"

definition logged :: "alarm_mgr \<Rightarrow> alarm_mgr \<Rightarrow> alarm_mgr" where
  "logged m m' = m'\<lparr> al_log := al_log m @ al_log m' \<rparr>"

inductive pool_step :: "(wchar \<Rightarrow> wchar) \<Rightarrow> task list \<times> alarm_mgr \<Rightarrow> task list \<times> alarm_mgr \<Rightarrow> bool" for U where
  resolve_task: "v_toupper V = U \<Longrightarrow> m' = ResolveAlarmsInBackground V ids terminate (quiet m) \<Longrightarrow>
     pool_step U (xs @ Resolve_task ids terminate # ys, m) (xs @ ys @ spawned (al_log m'), logged m m')"
| ack_task: "v_toupper V = U \<Longrightarrow> m' = snd (AckAlarmById V i None sticky t True (quiet m)) \<Longrightarrow>
     pool_step U (xs @ Ack_task (i # ids) sticky t # ys, m) (xs @ Ack_task ids sticky t # ys @ spawned (al_log m'), logged m m')"
| ack_end: "pool_step U (xs @ Ack_task [] sticky t # ys, m) (xs @ ys, m)"

lemma spawned_append [simp]: "spawned (xs @ ys) = spawned xs @ spawned ys"
  by (induction xs rule: spawned.induct) simp_all

section \<open>Potential\<close>

definition rank :: "alarm \<Rightarrow> nat" where
  "rank a = (if a_state a = ALARM_STATE_RESOLVED then 1
     else if a_state a AND ALARM_STATE_MASK = ALARM_STATE_OUTSTANDING then 3 else 2)"

definition potential :: "alarm_mgr \<Rightarrow> nat" where
  "potential m = sum_list (map rank (al_alarms m))"

abbreviation started :: "alarm_mgr \<Rightarrow> nat" where
  "started m \<equiv> length (spawned (al_log m))"

definition paid :: "alarm_mgr \<Rightarrow> alarm_mgr \<Rightarrow> bool" where
  "paid m m' \<longleftrightarrow> started m \<le> started m' \<and> potential m' + started m' \<le> potential m + started m"

lemma paid_refl: "paid m m"
  by (simp add: paid_def)

lemma paid_trans: "paid m m' \<Longrightarrow> paid m' m'' \<Longrightarrow> paid m m''"
  by (simp add: paid_def)

lemma rank_bounds: "1 \<le> rank a" "a_state a \<noteq> ALARM_STATE_RESOLVED \<Longrightarrow> 2 \<le> rank a"
  by (simp_all add: rank_def)

lemma rank_subordinates [simp]: "rank (a\<lparr> a_subordinateAlarms := x \<rparr>) = rank a"
  by (simp add: rank_def)

lemma sum_replace:
  "distinct (map a_alarmId xs) \<Longrightarrow> List.find (\<lambda>b. a_alarmId b = i) xs = Some a \<Longrightarrow>
     sum_list (map rank (map (\<lambda>b. if a_alarmId b = i then c else b) xs)) + rank a = sum_list (map rank xs) + rank c"
proof (induction xs)
  case (Cons x xs)
  show ?case
  proof (cases "a_alarmId x = i")
    case True
    then have "map (\<lambda>b. if a_alarmId b = i then c else b) xs = xs"
      using Cons.prems(1) by (intro map_idI) (auto simp: rev_image_eqI)
    with True Cons.prems(2) show ?thesis by simp
  qed (use Cons in simp)
qed simp

lemma sum_filter:
  "distinct (map a_alarmId xs) \<Longrightarrow> List.find (\<lambda>b. a_alarmId b = i) xs = Some a \<Longrightarrow>
     sum_list (map rank (filter (\<lambda>b. a_alarmId b \<noteq> i) xs)) + rank a = sum_list (map rank xs)"
proof (induction xs)
  case (Cons x xs)
  show ?case
  proof (cases "a_alarmId x = i")
    case True
    then have "filter (\<lambda>b. a_alarmId b \<noteq> i) xs = xs"
      using Cons.prems(1) by (intro filter_True) (auto simp: rev_image_eqI)
    with True Cons.prems(2) show ?thesis by simp
  qed (use Cons in simp)
qed simp

lemma mgr_distinct: "mgr_ok V m \<Longrightarrow> distinct (map a_alarmId (al_alarms m))"
  by (simp add: mgr_ok_def strict_sorted_iff)

lemma potential_on:
  assumes "distinct (map a_alarmId (al_alarms m))" "find_alarm i m = Some a"
  shows "potential (on_alarm i f m) + rank a = potential m + rank (fst (f a))"
    "al_log (on_alarm i f m) = al_log m @ snd (f a)"
  using sum_replace [OF assms(1) assms(2) [unfolded find_alarm_def], of "fst (f a)"] assms(2)
  by (simp_all add: potential_def on_alarm_def emit_def)

lemma paid_on:
  assumes "distinct (map a_alarmId (al_alarms m))"
    "\<And>a. find_alarm i m = Some a \<Longrightarrow> rank (fst (f a)) + length (spawned (snd (f a))) \<le> rank a"
  shows "paid m (on_alarm i f m)"
proof (cases "find_alarm i m")
  case (Some a)
  with potential_on [OF assms(1) Some, of f] assms(2) [OF Some] show ?thesis by (simp add: paid_def)
qed (simp add: on_alarm_def paid_refl)

lemma paid_quiet:
  "spawned es = [] \<Longrightarrow> paid m (emit es m)" "paid m (recalculateObjectStatus V obj m)"
  "paid m (updateObjectOnAlarmResolve V obj i False m)"
  by (simp_all add: paid_def potential_def emit_def recalculateObjectStatus_def updateObjectOnAlarmResolve_def Let_def
      split: option.split)

section \<open>Operations pay for the tasks they start\<close>

lemma acknowledge_pays:
  "rank (fst (snd (acknowledge V u sticky t sub a))) + length (spawned (snd (snd (acknowledge V u sticky t sub a)))) \<le> rank a"
  by (simp add: acknowledge_def updateStateChangeLog_def Let_def rank_def)

lemma AckAlarmById_paid: "mgr_ok V m \<Longrightarrow> paid m (snd (AckAlarmById V i u sticky t sub m))"
  unfolding AckAlarmById_def with_alarm_def
  by (auto intro!: paid_on simp: mgr_distinct acknowledge_pays paid_refl split: option.split)

lemma resolve_effects:
  "length (spawned (snd (resolve V u ev t n sub a))) \<le> 1" "\<not> t \<Longrightarrow> rank (fst (resolve V u ev t n sub a)) = 1"
  by (auto simp: resolve_def updateStateChangeLog_def Let_def rank_def split: option.split)

lemma paid_removeSubordinate:
  assumes "distinct (map a_alarmId (al_alarms m))"
  shows "potential (removeSubordinateAlarm p i m) = potential m" "started (removeSubordinateAlarm p i m) = started m"
    "view rank (removeSubordinateAlarm p i m) = view rank m"
    "map a_alarmId (al_alarms (removeSubordinateAlarm p i m)) = map a_alarmId (al_alarms m)"
proof -
  have k: "keeps rank (\<lambda>a. (a\<lparr> a_subordinateAlarms := remove1 i (a_subordinateAlarms a) \<rparr>, [Notify_in_background p]))"
    by (simp add: keeps_def)
  show "view rank (removeSubordinateAlarm p i m) = view rank m"
    "map a_alarmId (al_alarms (removeSubordinateAlarm p i m)) = map a_alarmId (al_alarms m)"
    unfolding removeSubordinateAlarm_def by (simp_all add: view_on_same k keeps_subordinates on_alarm_ids)
  have "potential (removeSubordinateAlarm p i m) = potential m \<and> started (removeSubordinateAlarm p i m) = started m"
  proof (cases "find_alarm p m")
    case (Some a)
    from potential_on [OF assms Some, of "\<lambda>a. (a\<lparr> a_subordinateAlarms := remove1 i (a_subordinateAlarms a) \<rparr>, [Notify_in_background p])"]
    show ?thesis unfolding removeSubordinateAlarm_def by simp
  qed (simp add: removeSubordinateAlarm_def on_alarm_def)
  then show "potential (removeSubordinateAlarm p i m) = potential m" "started (removeSubordinateAlarm p i m) = started m"
    by simp_all
qed

lemma potential_remove:
  assumes "distinct (map a_alarmId (al_alarms m))" "find_alarm (a_alarmId a) m = Some c"
  shows "potential (remove_alarm V a m) + rank c = potential m" "started (remove_alarm V a m) = started m"
proof -
  define m1 where "m1 = (if a_parentAlarmId a \<noteq> 0 then removeSubordinateAlarm (a_parentAlarmId a) (a_alarmId a) m else m)"
  have m1: "potential m1 = potential m" "started m1 = started m" "view rank m1 = view rank m"
    "map a_alarmId (al_alarms m1) = map a_alarmId (al_alarms m)"
    using paid_removeSubordinate [OF assms(1)] by (simp_all add: m1_def)
  from fun_cong [OF m1(3), of "a_alarmId a"] assms(2) obtain c1 where c1: "find_alarm (a_alarmId a) m1 = Some c1" "rank c1 = rank c"
    by (auto simp: view_def)
  have "distinct (map a_alarmId (al_alarms m1))" using assms(1) m1(4) by simp
  from sum_filter [OF this c1(1) [unfolded find_alarm_def]] m1(1) c1(2)
  show "potential (remove_alarm V a m) + rank c = potential m"
    by (simp add: remove_alarm_def Let_def m1_def [symmetric] potential_def)
  show "started (remove_alarm V a m) = started m"
    using m1(2) by (simp add: remove_alarm_def Let_def m1_def [symmetric])
qed

text \<open>The resolution of one alarm by the bulk operation, with its removal when it is terminated.\<close>

lemma resolution_paid:
  assumes "mgr_ok V m" "find_alarm i m = Some a" "terminate \<or> a_state a \<noteq> ALARM_STATE_RESOLVED"
    "m1 = updateObjectOnAlarmResolve V (a_sourceObject a) i False (on_alarm i (resolve V u None terminate False sub) m)"
  shows "paid m (if terminate then remove_alarm V a m1 else m1)"
proof -
  let ?f = "resolve V u None terminate False sub"
  have d: "distinct (map a_alarmId (al_alarms m))" by (rule mgr_distinct [OF assms(1)])
  have i: "a_alarmId a = i" using find_alarm_id [OF assms(2)] by simp
  have m1: "al_alarms m1 = al_alarms (on_alarm i ?f m)" "al_log m1 = al_log (on_alarm i ?f m)"
    by (simp_all add: assms(4) updateObjectOnAlarmResolve_def Let_def split: option.split)
  note o = potential_on [OF d assms(2), of ?f]
  have p: "potential m1 + rank a = potential m + rank (fst (?f a))" using o(1) m1(1) by (simp add: potential_def)
  have s: "started m \<le> started m1" "started m1 \<le> started m + 1"
    using o(2) m1(2) resolve_effects(1) [of V u None terminate False sub a] by simp_all
  show ?thesis
  proof (cases terminate)
    case True
    have k: "keeps a_alarmId ?f" by (rule resolve_keeps)
    have "find_alarm i m1 = Some (fst (?f a))"
      using find_on_alarm [OF k, of i i m] assms(2) m1(1) by (simp add: find_alarm_def)
    moreover have "distinct (map a_alarmId (al_alarms m1))" using d on_alarm_ids [OF k, of i m] m1(1) by simp
    ultimately have "potential (remove_alarm V a m1) + rank (fst (?f a)) = potential m1" "started (remove_alarm V a m1) = started m1"
      using potential_remove [of m1 a "fst (?f a)" V] i by simp_all
    with True p s rank_bounds(1) [of a] show ?thesis by (simp add: paid_def)
  next
    case False
    with assms(3) p s resolve_effects(2) [of terminate V u None False sub a] rank_bounds(2) [of a] show ?thesis
      by (simp add: paid_def)
  qed
qed

lemma resolve_step_paid:
  assumes "mgr_ok V (b_mgr b)"
  shows "paid (b_mgr b) (b_mgr (resolve_step V session t sub i b))"
proof (cases "find_alarm i (b_mgr b)")
  case (Some a0)
  let ?m = "helpdesk_check V a0 (b_mgr b)"
  obtain a where h: "mgr_ok V ?m" "find_alarm i ?m = Some a"
    using helpdesk_check_ok [OF assms Some] by blast
  have "paid (b_mgr b) ?m"
    unfolding helpdesk_check_def
    by (auto intro!: paid_on simp: mgr_distinct [OF assms] paid_refl onHelpdeskIssueClose_def rank_def)
  moreover have "paid ?m (if t then remove_alarm V a m1 else m1)"
    if "t \<or> a_state a \<noteq> ALARM_STATE_RESOLVED"
      "m1 = updateObjectOnAlarmResolve V (a_sourceObject a) i False (on_alarm i (resolve V u None t False sub) ?m)" for u m1
    by (rule resolution_paid [OF h that])
  ultimately show ?thesis
    by (auto simp: resolve_step_def Some h(2) Let_def intro: paid_trans)
qed (simp add: resolve_step_def paid_refl)

lemma ResolveAlarmsById_paid:
  assumes "mgr_ok V m"
  shows "paid m (snd (ResolveAlarmsById V ids session t sub m))"
proof -
  have "mgr_ok V (b_mgr b) \<Longrightarrow> paid (b_mgr b) (b_mgr (fold (resolve_step V session t sub) ids b))" for b
    by (induction ids arbitrary: b) (auto simp: paid_refl intro: paid_trans resolve_step_paid resolve_step_ok)
  from this [of "\<lparr> b_mgr = m, b_processed = [], b_objects = [], b_failed = [] \<rparr>"] assms
  have "paid m (b_mgr (fold (resolve_step V session t sub) ids \<lparr> b_mgr = m, b_processed = [], b_objects = [], b_failed = [] \<rparr>))"
    by simp
  moreover have "paid m' (fold (recalculateObjectStatus V) objs m')" for objs m'
    by (induction objs arbitrary: m') (auto simp: paid_refl intro: paid_trans paid_quiet)
  moreover have "paid m' (emit [Bulk_notify t u p] m')" for m' u p by (rule paid_quiet) simp
  ultimately show ?thesis
    unfolding ResolveAlarmsById_def Let_def snd_conv by (blast intro: paid_trans)
qed

section \<open>Termination\<close>

lemma log_ok [simp]: "mgr_ok V (quiet m) = mgr_ok V m" "mgr_ok V (logged m m') = mgr_ok V m'"
  by (rule mgr_ok_cong; simp add: quiet_def logged_def)+

fun task_weight :: "task \<Rightarrow> nat" where
  "task_weight (Ack_task ids sticky t) = Suc (length ids)"
| "task_weight (Resolve_task ids terminate) = 1"

definition workload :: "task list \<times> alarm_mgr \<Rightarrow> nat" where
  "workload s = sum_list (map task_weight (fst s))"

text \<open>A step that starts tasks lowers the potential; one that starts none does not raise it and leaves less to do.\<close>

lemma paid_step:
  assumes "paid (quiet m) m'" "workload (q', m') < workload (q, m) + sum_list (map task_weight (spawned (al_log m')))"
  shows "((q', logged m m'), (q, m)) \<in> measures [potential \<circ> snd, workload]"
proof -
  have p: "potential m' + started m' \<le> potential m" using assms(1) by (simp add: paid_def quiet_def potential_def)
  show ?thesis
  proof (cases "spawned (al_log m') = []")
    case True
    with p assms(2) show ?thesis by (auto simp: logged_def potential_def workload_def)
  next
    case False
    then have "started m' > 0" by simp
    with p have "potential m' < potential m" by linarith
    then show ?thesis by (simp add: logged_def potential_def)
  qed
qed

lemma pool_step_decreases:
  assumes "pool_step U s s'" "v_toupper V = U" "mgr_ok V (snd s)"
  shows "(s', s) \<in> measures [potential \<circ> snd, workload]" "mgr_ok V (snd s')"
proof -
  have "(s', s) \<in> measures [potential \<circ> snd, workload] \<and> mgr_ok V (snd s')"
    using assms
  proof (induction rule: pool_step.induct)
    case (resolve_task V' m' ids terminate m xs ys)
    then have ok: "mgr_ok V' (quiet m)" using mgr_ok_env [of V V'] by simp
    have "mgr_ok V m'" using ResolveAlarmsById_ok [OF ok] resolve_task mgr_ok_env [of V V'] by (simp add: ResolveAlarmsInBackground_def)
    moreover have "paid (quiet m) m'" using ResolveAlarmsById_paid [OF ok] resolve_task by (simp add: ResolveAlarmsInBackground_def)
    ultimately show ?case by (intro conjI paid_step) (simp_all add: workload_def)
  next
    case (ack_task V' m' i sticky t m xs ids ys)
    then have ok: "mgr_ok V' (quiet m)" using mgr_ok_env [of V V'] by simp
    have "mgr_ok V m'" using ack_task mgr_ok_env [of V V'] with_alarm_ok [OF soft_acknowledge ok] by (simp add: AckAlarmById_def)
    moreover have "paid (quiet m) m'" using AckAlarmById_paid [OF ok] ack_task by simp
    ultimately show ?case by (intro conjI paid_step) (simp_all add: workload_def)
  next
    case (ack_end xs sticky t ys m)
    then show ?case by (simp add: workload_def)
  qed
  then show "(s', s) \<in> measures [potential \<circ> snd, workload]" "mgr_ok V (snd s')" by simp_all
qed

text \<open>
  C18. Cascades end: in every reachable manager and with any tasks waiting, acknowledging and
  resolving alarms with their subordinates comes to an end under every schedule of the thread
  pool. No infinite sequence of steps exists, also when alarms are their own ancestors.
\<close>

theorem alarm_cascade_terminates:
  assumes "al_reachable U m"
  shows "\<nexists>run. run 0 = (q, m) \<and> (\<forall>n. pool_step U (run n) (run (Suc n)))"
proof
  assume "\<exists>run. run 0 = (q, m) \<and> (\<forall>n. pool_step U (run n) (run (Suc n)))"
  then obtain run where r: "run 0 = (q, m)" "\<And>n. pool_step U (run n) (run (Suc n))" by blast
  obtain V :: al_env where V: "v_toupper V = U" by (metis al_env.select_convs(2))
  have ok: "mgr_ok V (snd (run n))" for n
    by (induction n) (use r pool_step_decreases(2) [OF r(2) V] reachable_ok [OF assms V] in auto)
  have "(run (Suc n), run n) \<in> measures [potential \<circ> snd, workload]" for n
    by (rule pool_step_decreases(1) [OF r(2) V ok])
  then show False using wf_iff_no_infinite_down_chain [THEN iffD1, OF wf_measures] by blast
qed

theorem alarm_cascade_terminates_witness:
  "(\<exists>s. pool_step (\<lambda>c. c) ([Resolve_task [7] True], two_alarms) s) \<and>
   (\<nexists>run. run 0 = ([Resolve_task [7] True], two_alarms) \<and> (\<forall>n. pool_step (\<lambda>c. c) (run n) (run (Suc n))))"
  using pool_step.resolve_task [of quiet_env "\<lambda>c. c" _ "[7]" True two_alarms "[]" "[]", OF _ refl]
    alarm_cascade_terminates [OF two_alarms_reachable]
  by (auto simp: quiet_env_def)

end
