(* ===== verification/Nx_Index_Live.thy ===== *)
theory Nx_Index_Live
  imports Nx_Index_Sync
begin

text \<open>
  Progress of the reader/writer protocol of the object index: the wait loop of
  \<^verbatim>\<open>swapAndWait\<close> in \<^verbatim>\<open>src/src/server/core/index.cpp\<close> ends. A run is an infinite sequence of
  steps with pauses. A fair run never leaves a reader that is inside \<^verbatim>\<open>acquireIndex\<close> or holds a
  head without a next step, and never ignores a writer whose wait is over. New readers may
  arrive without end: they load the new primary head and do not delay the writer.
\<close>

section \<open>Runs\<close>

definition sync_run :: "(nat \<Rightarrow> sync) \<Rightarrow> bool" where
  "sync_run run \<longleftrightarrow> run 0 = init_sync \<and> (\<forall>n. sync_step (run n) (run (Suc n)) \<or> run (Suc n) = run n)"

definition fair_readers :: "(nat \<Rightarrow> sync) \<Rightarrow> bool" where
  "fair_readers run \<longleftrightarrow> (\<forall>n i. rpc (run n) i \<noteq> RIdle \<longrightarrow> (\<exists>m \<ge> n. rpc (run (Suc m)) i \<noteq> rpc (run m) i))"

definition fair_writer :: "(nat \<Rightarrow> sync) \<Rightarrow> bool" where
  "fair_writer run \<longleftrightarrow> (\<forall>n. \<exists>m \<ge> n. \<not> (wpc (run m) = WWaiting \<and> readers (run m) (secondary (run m)) = 0))"

lemma run_reachable: "sync_run run \<Longrightarrow> sync_reachable (run n)"
proof (induction n)
  case 0
  then show ?case by (simp add: sync_run_def sync_reachable.start)
next
  case (Suc n)
  then have "sync_reachable (run n)" "sync_step (run n) (run (Suc n)) \<or> run (Suc n) = run n" by (auto simp: sync_run_def)
  then show ?case by (auto intro: sync_reachable.step)
qed

section \<open>Stale readers\<close>

text \<open>The steps a reader still takes on a head it has loaded before the exchange.\<close>

fun distance :: "head_id \<Rightarrow> reader_pc \<Rightarrow> nat" where
  "distance h RIdle = 0"
| "distance h (RLoaded h') = (if h' = h then 3 else 0)"
| "distance h (RCounted h') = (if h' = h then 2 else 0)"
| "distance h (RHolding h') = (if h' = h then 1 else 0)"
| "distance h (RBackoff h') = (if h' = h then 1 else 0)"

definition busy :: "sync \<Rightarrow> nat set" where
  "busy s = {i. rpc s i \<noteq> RIdle}"

definition drain :: "sync \<Rightarrow> nat" where
  "drain s = (\<Sum>i \<in> busy s. distance (secondary s) (rpc s i))"

lemma busy_finite: "sync_reachable s \<Longrightarrow> finite (busy s)"
proof (induction rule: sync_reachable.induct)
  case start
  show ?case by (simp add: busy_def init_sync_def)
next
  case (step s t)
  have "\<exists>i. busy t \<subseteq> insert i (busy s)" using step.hyps(2)
    by (induction rule: sync_step.induct) (auto simp: busy_def)
  with step.IH show ?case by (metis finite.insertI finite_subset)
qed

lemma drain_on: "finite A \<Longrightarrow> busy s \<subseteq> A \<Longrightarrow> drain s = (\<Sum>i \<in> A. distance (secondary s) (rpc s i))"
  unfolding drain_def by (rule sum.mono_neutral_left) (auto simp: busy_def)

lemma drain_update:
  assumes "finite (busy s)" "rpc t = (rpc s)(i := x)" "primary t = primary s"
  shows "drain t + distance (secondary s) (rpc s i) = drain s + distance (secondary s) x"
proof -
  let ?A = "insert i (busy s)"
  have b: "busy t \<subseteq> ?A" using assms(2) by (auto simp: busy_def)
  have "drain t = (\<Sum>j \<in> ?A. distance (secondary s) (rpc t j))"
    using drain_on [OF _ b] assms(1,3) by simp
  also have "\<dots> = distance (secondary s) x + (\<Sum>j \<in> ?A - {i}. distance (secondary s) (rpc s j))"
    using assms(1) by (simp add: sum.remove [of ?A i] assms(2))
  finally show ?thesis
    using drain_on [of ?A s] assms(1) by (simp add: sum.remove [of ?A i] subset_insertI)
qed

lemma drain_zero:
  assumes "finite (busy s)" "sync_inv s" "drain s = 0"
  shows "readers s (secondary s) = 0"
proof -
  have d: "distance (secondary s) (rpc s i) = 0" for i
    using assms(1,3) by (cases "i \<in> busy s") (auto simp: drain_def busy_def)
  have "i \<notin> counted s (secondary s)" for i using d [of i] by (auto simp: counted_def)
  then have "counted s (secondary s) = {}" by blast
  then show ?thesis using assms(2) by (simp add: sync_inv_def)
qed

section \<open>While the writer waits\<close>

lemma waiting_steps:
  assumes "sync_step s t" "wpc s = WWaiting" "wpc t \<noteq> WEdit2"
  obtains i x where "rpc t = (rpc s)(i := x)" "primary t = primary s" "wpc t = WWaiting"
    "x \<noteq> rpc s i" "distance (secondary s) x < distance (secondary s) (rpc s i) \<or>
      distance (secondary s) x = 0 \<and> distance (secondary s) (rpc s i) = 0"
  using assms(1)
proof (cases rule: sync_step.cases)
  case (r_load i)
  then show ?thesis using that [of i "RLoaded (primary s)"] assms by simp
next
  case (r_count i h)
  then show ?thesis using that [of i "RCounted h"] assms by simp
next
  case (r_enter i h)
  then show ?thesis using that [of i "RHolding h"] assms by simp
next
  case (r_refuse i h)
  then show ?thesis using that [of i "RBackoff h"] assms by simp
next
  case (r_retry i h)
  then show ?thesis using that [of i RIdle] assms by simp
next
  case (r_release i h)
  then show ?thesis using that [of i RIdle] assms by simp
qed (use assms in auto)

lemma waiting_drain:
  assumes "sync_step s t \<or> t = s" "wpc s = WWaiting" "wpc t \<noteq> WEdit2" "finite (busy s)"
  shows "wpc t = WWaiting" "primary t = primary s" "drain t \<le> drain s"
    "rpc t i \<noteq> rpc s i \<Longrightarrow> distance (secondary s) (rpc s i) > 0 \<Longrightarrow> drain t < drain s"
proof -
  have "wpc t = WWaiting \<and> primary t = primary s \<and> drain t \<le> drain s \<and>
    (rpc t i \<noteq> rpc s i \<longrightarrow> distance (secondary s) (rpc s i) > 0 \<longrightarrow> drain t < drain s)"
  proof (cases "sync_step s t")
    case True
    from waiting_steps [OF True assms(2,3)] obtain j x where j: "rpc t = (rpc s)(j := x)" "primary t = primary s" "wpc t = WWaiting"
      "distance (secondary s) x < distance (secondary s) (rpc s j) \<or>
       distance (secondary s) x = 0 \<and> distance (secondary s) (rpc s j) = 0" by metis
    with drain_update [OF assms(4) j(1,2)] show ?thesis by auto
  qed (use assms in auto)
  then show "wpc t = WWaiting" "primary t = primary s" "drain t \<le> drain s"
    "rpc t i \<noteq> rpc s i \<Longrightarrow> distance (secondary s) (rpc s i) > 0 \<Longrightarrow> drain t < drain s" by auto
qed

text \<open>A run whose writer waits from some point on.\<close>

definition waits_from :: "(nat \<Rightarrow> sync) \<Rightarrow> nat \<Rightarrow> bool" where
  "waits_from run n \<longleftrightarrow> sync_run run \<and> (\<forall>m \<ge> n. wpc (run m) = WWaiting)"

lemma waits_forever:
  assumes "sync_run run" "wpc (run n) = WWaiting" "\<forall>m \<ge> n. wpc (run m) \<noteq> WEdit2"
  shows "waits_from run n"
proof -
  have "wpc (run m) = WWaiting" if "m \<ge> n" for m
    using that
  proof (induction rule: dec_induct)
    case (step m)
    have "sync_step (run m) (run (Suc m)) \<or> run (Suc m) = run m" using assms(1) by (simp add: sync_run_def)
    from waiting_drain(1) [OF this step.IH] assms(3) step.hyps busy_finite [OF run_reachable [OF assms(1)]]
    show ?case by simp
  qed (rule assms(2))
  with assms(1) show ?thesis by (simp add: waits_from_def)
qed

lemma waits_drain:
  assumes "waits_from run n" "m \<ge> n"
  shows "primary (run (Suc m)) = primary (run m)" "drain (run (Suc m)) \<le> drain (run m)"
    "rpc (run (Suc m)) i \<noteq> rpc (run m) i \<Longrightarrow> distance (secondary (run m)) (rpc (run m) i) > 0 \<Longrightarrow> drain (run (Suc m)) < drain (run m)"
proof -
  have s: "sync_step (run m) (run (Suc m)) \<or> run (Suc m) = run m" "wpc (run m) = WWaiting" "wpc (run (Suc m)) \<noteq> WEdit2"
    "finite (busy (run m))"
    using assms busy_finite [OF run_reachable] by (auto simp: waits_from_def sync_run_def)
  show "primary (run (Suc m)) = primary (run m)" "drain (run (Suc m)) \<le> drain (run m)"
    "rpc (run (Suc m)) i \<noteq> rpc (run m) i \<Longrightarrow> distance (secondary (run m)) (rpc (run m) i) > 0 \<Longrightarrow> drain (run (Suc m)) < drain (run m)"
    using waiting_drain [OF s] by blast+
qed

lemma waits_anti:
  assumes "waits_from run n" "m \<ge> n"
  shows "drain (run m) \<le> drain (run n) \<and> primary (run m) = primary (run n)"
  using assms(2)
proof (induction rule: dec_induct)
  case (step m)
  then show ?case using waits_drain(1,2) [OF assms(1) step.hyps(1)] by simp
qed simp

lemma waits_later: "waits_from run n \<Longrightarrow> m \<ge> n \<Longrightarrow> waits_from run m"
  by (simp add: waits_from_def)

lemma reader_leaves:
  assumes "waits_from run n" "fair_readers run" "drain (run n) > 0"
  shows "\<exists>m \<ge> n. drain (run m) < drain (run n)"
proof -
  have "drain (run n) = 0" if "\<forall>i. distance (secondary (run n)) (rpc (run n) i) = 0" using that by (simp add: drain_def)
  with assms(3) obtain i where i: "distance (secondary (run n)) (rpc (run n) i) > 0" by auto
  then have "rpc (run n) i \<noteq> RIdle" by auto
  with assms(2) obtain k where k: "k \<ge> n" "rpc (run (Suc k)) i \<noteq> rpc (run k) i" by (auto simp: fair_readers_def)
  define m where "m = (LEAST m. m \<ge> n \<and> rpc (run (Suc m)) i \<noteq> rpc (run m) i)"
  have m: "m \<ge> n" "rpc (run (Suc m)) i \<noteq> rpc (run m) i"
    using LeastI [of "\<lambda>m. m \<ge> n \<and> rpc (run (Suc m)) i \<noteq> rpc (run m) i" k] k by (auto simp: m_def)
  have same: "rpc (run j) i = rpc (run n) i" if "n \<le> j" "j \<le> m" for j
    using that
  proof (induction rule: dec_induct)
    case (step j)
    then show ?case using not_less_Least [of j "\<lambda>m. m \<ge> n \<and> rpc (run (Suc m)) i \<noteq> rpc (run m) i"] by (simp add: m_def)
  qed simp
  have "rpc (run m) i = rpc (run n) i" by (rule same [OF m(1) order_refl])
  with i waits_anti [OF assms(1) m(1)] have "distance (secondary (run m)) (rpc (run m) i) > 0" by simp
  from waits_drain(3) [OF assms(1) m this] waits_anti [OF assms(1) m(1)] m(1) show ?thesis
    by (intro exI [of _ "Suc m"]) simp
qed

lemma readers_drain:
  assumes "fair_readers run"
  shows "waits_from run n \<Longrightarrow> \<exists>m \<ge> n. drain (run m) = 0"
proof (induction "drain (run n)" arbitrary: n rule: less_induct)
  case less
  show ?case
  proof (cases "drain (run n) = 0")
    case False
    then obtain m where m: "m \<ge> n" "drain (run m) < drain (run n)" using reader_leaves [OF less.prems assms] by blast
    from less.hyps [OF m(2) waits_later [OF less.prems m(1)]] m(1) show ?thesis by (meson order_trans)
  qed blast
qed

section \<open>Property\<close>

text \<open>
  C22. The wait of a writer ends: in every fair run of the protocol, a writer that waits in
  \<^verbatim>\<open>swapAndWait\<close> for the readers of the former primary head reaches its second edit, however
  many readers come and go.
\<close>

theorem index_writer_proceeds:
  assumes "sync_run run" "fair_readers run" "fair_writer run" "wpc (run n) = WWaiting"
  shows "\<exists>m \<ge> n. wpc (run m) = WEdit2"
proof (rule ccontr)
  assume "\<not> ?thesis"
  then have w: "waits_from run n" using waits_forever [OF assms(1,4)] by blast
  from readers_drain [OF assms(2) w] obtain m where m: "m \<ge> n" "drain (run m) = 0" by blast
  have "wpc (run k) = WWaiting \<and> readers (run k) (secondary (run k)) = 0" if "k \<ge> m" for k
  proof -
    have "drain (run k) = 0" using waits_anti [OF waits_later [OF w m(1)] that] m(2) by simp
    then show ?thesis
      using drain_zero [OF busy_finite sync_reachable_inv] run_reachable [OF assms(1)] w m(1) that by (simp add: waits_from_def)
  qed
  then show False using assms(3) unfolding fair_writer_def by blast
qed

text \<open>A run in which a reader holds the former primary head while the writer waits for it.\<close>

definition held_by_zero :: "reader_pc \<Rightarrow> nat \<Rightarrow> head_id \<Rightarrow> nat \<Rightarrow> writer_pc \<Rightarrow> sync" where
  "held_by_zero x r p w pc = \<lparr>primary = p, readers = (\<lambda>h. if h = HeadA then r else 0),
     writers = (\<lambda>h. if h = HeadA then w else 0), rpc = (\<lambda>i. if i = 0 then x else RIdle), wpc = pc\<rparr>"

definition example_run :: "nat \<Rightarrow> sync" where
  "example_run n = [held_by_zero RIdle 0 HeadA 0 WIdle, held_by_zero (RLoaded HeadA) 0 HeadA 0 WIdle,
     held_by_zero (RCounted HeadA) 1 HeadA 0 WIdle, held_by_zero (RHolding HeadA) 1 HeadA 0 WIdle,
     held_by_zero (RHolding HeadA) 1 HeadA 0 WEdit, held_by_zero (RHolding HeadA) 1 HeadB 0 WSwapped,
     held_by_zero (RHolding HeadA) 1 HeadB 1 WWaiting, held_by_zero RIdle 0 HeadB 1 WWaiting,
     held_by_zero RIdle 0 HeadB 1 WEdit2, held_by_zero RIdle 0 HeadB 0 WIdle] ! min n 9"

lemma example_at:
  "example_run 0 = init_sync" "n \<ge> 9 \<Longrightarrow> example_run n = held_by_zero RIdle 0 HeadB 0 WIdle"
  "wpc (example_run 6) = WWaiting" "rpc (example_run 6) 0 = RHolding HeadA" "rpc (example_run (Suc 6)) 0 = RIdle"
  by (simp_all add: example_run_def held_by_zero_def init_sync_def fun_eq_iff)

lemma example_cases: "n \<in> {0, 1, 2, 3, 4, 5, 6} \<or> n = 7 \<or> n = 8 \<or> n \<ge> (9 :: nat)"
  by auto

lemma example_idle: "rpc (example_run n) i \<noteq> RIdle \<Longrightarrow> i = 0 \<and> n \<le> 6"
  using example_cases [of n] by (elim disjE insertE) (simp_all add: example_run_def held_by_zero_def split: if_splits)

lemma example_steps:
  "sync_step (held_by_zero RIdle 0 HeadA 0 WIdle) (held_by_zero (RLoaded HeadA) 0 HeadA 0 WIdle)"
  "sync_step (held_by_zero (RLoaded HeadA) 0 HeadA 0 WIdle) (held_by_zero (RCounted HeadA) 1 HeadA 0 WIdle)"
  "sync_step (held_by_zero (RCounted HeadA) 1 HeadA 0 WIdle) (held_by_zero (RHolding HeadA) 1 HeadA 0 WIdle)"
  "sync_step (held_by_zero x r p w WIdle) (held_by_zero x r p w WEdit)"
  "sync_step (held_by_zero x r p w WEdit) (held_by_zero x r (other p) w WSwapped)"
  "sync_step (held_by_zero x r HeadB 0 WSwapped) (held_by_zero x r HeadB 1 WWaiting)"
  "sync_step (held_by_zero (RHolding HeadA) 1 p w pc) (held_by_zero RIdle 0 p w pc)"
  "sync_step (held_by_zero x 0 HeadB w WWaiting) (held_by_zero x 0 HeadB w WEdit2)"
  "sync_step (held_by_zero x r HeadB 1 WEdit2) (held_by_zero x r HeadB 0 WIdle)"
proof -
  note h = held_by_zero_def fun_upd_def
  show "sync_step (held_by_zero RIdle 0 HeadA 0 WIdle) (held_by_zero (RLoaded HeadA) 0 HeadA 0 WIdle)"
    using r_load [of "held_by_zero RIdle 0 HeadA 0 WIdle" 0] by (simp add: h cong: if_cong)
  show "sync_step (held_by_zero (RLoaded HeadA) 0 HeadA 0 WIdle) (held_by_zero (RCounted HeadA) 1 HeadA 0 WIdle)"
    using r_count [of "held_by_zero (RLoaded HeadA) 0 HeadA 0 WIdle" 0 HeadA] by (simp add: h cong: if_cong)
  show "sync_step (held_by_zero (RCounted HeadA) 1 HeadA 0 WIdle) (held_by_zero (RHolding HeadA) 1 HeadA 0 WIdle)"
    using r_enter [of "held_by_zero (RCounted HeadA) 1 HeadA 0 WIdle" 0 HeadA] by (simp add: h cong: if_cong)
  show "sync_step (held_by_zero x r p w WIdle) (held_by_zero x r p w WEdit)"
    using w_begin [of "held_by_zero x r p w WIdle"] by (simp add: h cong: if_cong)
  show "sync_step (held_by_zero x r p w WEdit) (held_by_zero x r (other p) w WSwapped)"
    using w_swap [of "held_by_zero x r p w WEdit"] by (simp add: h cong: if_cong)
  show "sync_step (held_by_zero x r HeadB 0 WSwapped) (held_by_zero x r HeadB 1 WWaiting)"
    using w_mark [of "held_by_zero x r HeadB 0 WSwapped"] by (simp add: h cong: if_cong)
  show "sync_step (held_by_zero (RHolding HeadA) 1 p w pc) (held_by_zero RIdle 0 p w pc)"
    using r_release [of "held_by_zero (RHolding HeadA) 1 p w pc" 0 HeadA] by (simp add: h cong: if_cong)
  show "sync_step (held_by_zero x 0 HeadB w WWaiting) (held_by_zero x 0 HeadB w WEdit2)"
    using w_ready [of "held_by_zero x 0 HeadB w WWaiting"] by (simp add: h cong: if_cong)
  show "sync_step (held_by_zero x r HeadB 1 WEdit2) (held_by_zero x r HeadB 0 WIdle)"
    using w_done [of "held_by_zero x r HeadB 1 WEdit2"] by (simp add: h cong: if_cong)
qed

lemma example_step: "n < 9 \<Longrightarrow> sync_step (example_run n) (example_run (Suc n))"
proof -
  assume "n < 9"
  with example_cases [of n] show ?thesis
    using example_steps(5) [of "RHolding HeadA" 1 HeadA 0]
    by (elim disjE insertE) (simp_all add: example_run_def example_steps [unfolded One_nat_def])
qed

theorem index_writer_proceeds_witness: "\<exists>m \<ge> 6. wpc (example_run m) = WEdit2"
proof (rule index_writer_proceeds)
  show "sync_run example_run"
    unfolding sync_run_def
  proof (intro conjI allI)
    fix n
    show "sync_step (example_run n) (example_run (Suc n)) \<or> example_run (Suc n) = example_run n"
      using example_step [of n] example_at(2) [of n] example_at(2) [of "Suc n"] by (cases "n < 9") simp_all
  qed (rule example_at)
  show "fair_readers example_run"
    unfolding fair_readers_def using example_idle example_at(4,5) by (metis reader_pc.distinct(5))
  show "fair_writer example_run"
    unfolding fair_writer_def
  proof
    fix n
    have "wpc (example_run (max n 9)) = WIdle" by (simp add: example_at(2) held_by_zero_def)
    then show "\<exists>m \<ge> n. \<not> (wpc (example_run m) = WWaiting \<and> readers (example_run m) (secondary (example_run m)) = 0)"
      by (intro exI [of _ "max n 9"]) simp
  qed
qed (rule example_at)

end
