(* ===== verification/Nx_Oid.thy ===== *)
theory Nx_Oid
  imports Nx_Prelude "HOL-Library.Sublist"
begin

text \<open>
  SNMP object identifiers (\<^verbatim>\<open>SNMP_ObjectId\<close> in \<^verbatim>\<open>src/include/nxsnmp.h\<close> and
  \<^verbatim>\<open>src/src/snmp/libnxsnmp/oid.cpp\<close>) and their text form (\<^verbatim>\<open>src/src/snmp/libnxsnmp/main.cpp\<close>). Short
  identifiers lie in a buffer inside the object, long ones in a block on the heap. The contents
  of memory that was allocated and not written are a parameter. Access outside a block is the
  fault \<open>Bad_access\<close>.
\<close>

section \<open>Representation\<close>

abbreviation (input) "OID_BUFFER_SIZE \<equiv> (32 :: nat)"
abbreviation (input) "MAX_OID_LEN \<equiv> (128 :: nat)"

text \<open>\<open>o_heap\<close> is the block \<^verbatim>\<open>m_value\<close> points to, or None when it points to the internal buffer.\<close>

record oid =
  o_length :: nat
  o_heap :: "u32 list option"
  o_internal :: "u32 list"

definition o_block :: "oid \<Rightarrow> u32 list" where
  "o_block x = (case o_heap x of Some b \<Rightarrow> b | None \<Rightarrow> o_internal x)"

definition set_block :: "u32 list \<Rightarrow> oid \<Rightarrow> oid" where
  "set_block b x = (case o_heap x of Some _ \<Rightarrow> x\<lparr> o_heap := Some b \<rparr> | None \<Rightarrow> x\<lparr> o_internal := b \<rparr>)"

definition read_ids :: "nat \<Rightarrow> oid \<Rightarrow> fault + u32 list" where
  "read_ids n x = (if n \<le> length (o_block x) then Inr (take n (o_block x)) else Inl Bad_access)"

text \<open>\<^verbatim>\<open>memcpy\<close> into \<^verbatim>\<open>m_value\<close> at an offset.\<close>

definition write_ids :: "nat \<Rightarrow> u32 list \<Rightarrow> oid \<Rightarrow> fault + oid" where
  "write_ids off vs x =
     (if off + length vs \<le> length (o_block x)
      then Inr (set_block (take off (o_block x) @ vs @ drop (off + length vs) (o_block x)) x)
      else Inl Bad_access)"

definition oid_elements :: "oid \<Rightarrow> u32 list" where
  "oid_elements x = take (o_length x) (o_block x)"

definition oid_ok :: "oid \<Rightarrow> bool" where
  [nx_inv]: "oid_ok x \<longleftrightarrow> length (o_internal x) = OID_BUFFER_SIZE \<and> o_length x \<le> length (o_block x)"

section \<open>Construction and assignment\<close>

definition empty_oid :: "(nat \<Rightarrow> u32 list) \<Rightarrow> oid" where
  "empty_oid junk = \<lparr> o_length = 0, o_heap = None, o_internal = junk OID_BUFFER_SIZE \<rparr>"

definition oid_of :: "(nat \<Rightarrow> u32 list) \<Rightarrow> u32 list \<Rightarrow> fault + oid" where
  "oid_of junk vs =
     (let x = (empty_oid junk)\<lparr> o_length := length vs \<rparr> in
      if length vs \<le> OID_BUFFER_SIZE then write_ids 0 vs x else Inr (x\<lparr> o_heap := Some vs \<rparr>))"

definition copy_oid :: "(nat \<Rightarrow> u32 list) \<Rightarrow> oid \<Rightarrow> fault + oid" where
  "copy_oid junk src = sum_bind (read_ids (o_length src) src) (oid_of junk)"

text \<open>A move returns the new object and the source after it.\<close>

definition move_oid :: "(nat \<Rightarrow> u32 list) \<Rightarrow> oid \<Rightarrow> fault + oid \<times> oid" where
  "move_oid junk src =
     (let x = (empty_oid junk)\<lparr> o_length := o_length src \<rparr> in
      case o_heap src of
        Some b \<Rightarrow> Inr (x\<lparr> o_heap := Some b \<rparr>, src\<lparr> o_heap := None, o_length := 0 \<rparr>)
      | None \<Rightarrow> sum_bind (read_ids (o_length src) src) (\<lambda>vs.
          sum_bind (write_ids 0 vs x) (\<lambda>x'. Inr (x', src\<lparr> o_length := 0 \<rparr>))))"

definition oid_suffix :: "(nat \<Rightarrow> u32 list) \<Rightarrow> oid \<Rightarrow> u32 list \<Rightarrow> fault + oid" where
  "oid_suffix junk base sfx =
     (let n = o_length base + length sfx;
          x = (empty_oid junk)\<lparr> o_length := n, o_heap := (if n \<le> OID_BUFFER_SIZE then None else Some (junk n)) \<rparr>
      in sum_bind (read_ids (o_length base) base) (\<lambda>vs.
         sum_bind (write_ids 0 vs x) (write_ids (o_length base) sfx)))"

definition assign_oid :: "(nat \<Rightarrow> u32 list) \<Rightarrow> oid \<Rightarrow> oid \<Rightarrow> fault + oid" where
  "assign_oid junk src x =
     (let x1 = x\<lparr> o_length := o_length src \<rparr> in
      if o_length src \<le> OID_BUFFER_SIZE
      then sum_bind (read_ids (o_length src) src) (\<lambda>vs. write_ids 0 vs (x1\<lparr> o_heap := None \<rparr>))
      else Inr (x1\<lparr> o_heap := Some (junk (o_length src)) \<rparr>))"

definition move_assign_oid :: "oid \<Rightarrow> oid \<Rightarrow> fault + oid \<times> oid" where
  "move_assign_oid src x =
     (let x1 = x\<lparr> o_length := o_length src \<rparr>; src' = src\<lparr> o_length := 0, o_heap := None \<rparr> in
      case o_heap src of
        None \<Rightarrow> sum_bind (read_ids (o_length src) src) (\<lambda>vs.
          sum_bind (write_ids 0 vs (x1\<lparr> o_heap := None \<rparr>)) (\<lambda>x'. Inr (x', src')))
      | Some b \<Rightarrow> Inr (x1\<lparr> o_heap := Some b \<rparr>, src'))"

definition setValue :: "u32 list \<Rightarrow> oid \<Rightarrow> fault + oid" where
  "setValue vs x =
     (let x1 = x\<lparr> o_length := length vs \<rparr> in
      if length vs \<le> OID_BUFFER_SIZE then write_ids 0 vs (x1\<lparr> o_heap := None \<rparr>)
      else Inr (x1\<lparr> o_heap := Some vs \<rparr>))"

text \<open>\<^verbatim>\<open>MemReallocArray\<close> keeps the common part of the block.\<close>

definition realloc :: "(nat \<Rightarrow> u32 list) \<Rightarrow> u32 list \<Rightarrow> nat \<Rightarrow> u32 list" where
  "realloc junk b n = take n b @ drop (length b) (junk n)"

definition extend :: "(nat \<Rightarrow> u32 list) \<Rightarrow> u32 \<Rightarrow> oid \<Rightarrow> fault + oid" where
  "extend junk subId x =
     (let n = o_length x; put = (\<lambda>y. sum_bind (write_ids n [subId] y) (\<lambda>y'. Inr (y'\<lparr> o_length := n + 1 \<rparr>))) in
      case o_heap x of
        None \<Rightarrow>
          if n < OID_BUFFER_SIZE then put x
          else sum_bind (read_ids n x) (\<lambda>vs.
            sum_bind (write_ids 0 vs (x\<lparr> o_heap := Some (junk (n + 1)) \<rparr>)) put)
      | Some b \<Rightarrow> put (x\<lparr> o_heap := Some (realloc junk b (n + 1)) \<rparr>))"

definition extend_by :: "(nat \<Rightarrow> u32 list) \<Rightarrow> u32 list \<Rightarrow> oid \<Rightarrow> fault + oid" where
  "extend_by junk subId x =
     (let n = o_length x; k = length subId;
          put = (\<lambda>y. sum_bind (write_ids n subId y) (\<lambda>y'. Inr (y'\<lparr> o_length := n + k \<rparr>))) in
      case o_heap x of
        None \<Rightarrow>
          if n + k > OID_BUFFER_SIZE
          then sum_bind (read_ids n x) (\<lambda>vs. sum_bind (write_ids 0 vs (x\<lparr> o_heap := Some (junk (n + k)) \<rparr>)) put)
          else put x
      | Some b \<Rightarrow> sum_bind (write_ids n subId (x\<lparr> o_heap := Some (realloc junk b (n + k)) \<rparr>)) put)"

definition truncate :: "nat \<Rightarrow> oid \<Rightarrow> oid" where
  "truncate n x = x\<lparr> o_length := (if n < o_length x then o_length x - n else 0) \<rparr>"

definition changeElement :: "nat \<Rightarrow> u32 \<Rightarrow> oid \<Rightarrow> fault + oid" where
  "changeElement pos v x = (if pos < o_length x then write_ids pos [v] x else Inr x)"

definition getElement :: "nat \<Rightarrow> oid \<Rightarrow> fault + u32" where
  "getElement i x =
     (if i < o_length x then (if i < length (o_block x) then Inr (o_block x ! i) else Inl Bad_access) else Inr 0)"

definition getLastElement :: "oid \<Rightarrow> fault + u32" where
  "getLastElement x = (if o_length x > 0 then getElement (o_length x - 1) x else Inr 0)"

section \<open>Comparison\<close>

datatype oid_order = OID_ERROR | OID_EQUAL | OID_PRECEDING | OID_FOLLOWING | OID_SHORTER | OID_LONGER

fun compare_ids :: "u32 list \<Rightarrow> u32 list \<Rightarrow> oid_order" where
  "compare_ids (a # as) (b # bs) = (if a \<noteq> b then (if a < b then OID_PRECEDING else OID_FOLLOWING) else compare_ids as bs)"
| "compare_ids [] [] = OID_EQUAL"
| "compare_ids (a # as) [] = OID_LONGER"
| "compare_ids [] (b # bs) = OID_SHORTER"

definition compare_oid :: "u32 list \<Rightarrow> u32 list \<Rightarrow> oid_order" where
  "compare_oid this other = (if other = [] then OID_ERROR else compare_ids this other)"

definition equals_oid :: "u32 list \<Rightarrow> u32 list \<Rightarrow> bool" where
  "equals_oid this other \<longleftrightarrow> length this = length other \<and> compare_oid this other = OID_EQUAL"

definition startsWith :: "u32 list \<Rightarrow> u32 list \<Rightarrow> bool" where
  "startsWith this other \<longleftrightarrow> length this \<ge> length other \<and> compare_oid this other \<in> {OID_LONGER, OID_EQUAL}"

definition follows :: "u32 list \<Rightarrow> u32 list \<Rightarrow> bool" where
  "follows this other \<longleftrightarrow> compare_oid this other \<in> {OID_LONGER, OID_FOLLOWING}"

section \<open>Every operation keeps the representation\<close>

lemma block_set_block [simp]: "o_block (set_block b x) = b"
  by (simp add: o_block_def set_block_def split: option.split)

lemma set_block_length [simp]: "o_length (set_block b x) = o_length x"
  by (simp add: set_block_def split: option.split)

lemma set_block_internal:
  "length (o_internal (set_block b x)) = (if o_heap x = None then length b else length (o_internal x))"
  by (simp add: set_block_def split: option.split)

lemma set_block_twice: "set_block b (set_block b' x) = set_block b x"
  by (simp add: set_block_def split: option.split)

lemma block_length_update [simp]: "o_block (x\<lparr> o_length := n \<rparr>) = o_block x"
  by (simp add: o_block_def split: option.split)

lemma block_heap_update [simp]: "o_block (x\<lparr> o_heap := h \<rparr>) = (case h of Some b \<Rightarrow> b | None \<Rightarrow> o_internal x)"
  by (simp add: o_block_def split: option.split)

lemma read_ids_ok: "oid_ok x \<Longrightarrow> read_ids (o_length x) x = Inr (oid_elements x)"
  by (simp add: read_ids_def oid_ok_def oid_elements_def)

lemma length_elements: "oid_ok x \<Longrightarrow> length (oid_elements x) = o_length x"
  by (simp add: oid_ok_def oid_elements_def)

text \<open>What a write of \<open>vs\<close> behind the first \<open>off\<close> elements leaves, when the block is large enough.\<close>

lemma write_ids_ok:
  assumes "off + length vs \<le> length (o_block x)" and "length (o_internal x) = OID_BUFFER_SIZE"
  obtains y where "write_ids off vs x = Inr y" and "o_length y = o_length x"
    and "o_heap y = None \<longleftrightarrow> o_heap x = None" and "length (o_internal y) = OID_BUFFER_SIZE"
    and "length (o_block y) = length (o_block x)" and "take (off + length vs) (o_block y) = take off (o_block x) @ vs"
proof
  let ?b = "take off (o_block x) @ vs @ drop (off + length vs) (o_block x)"
  show "write_ids off vs x = Inr (set_block ?b x)" using assms(1) by (simp add: write_ids_def)
  show "o_length (set_block ?b x) = o_length x" by simp
  show "o_heap (set_block ?b x) = None \<longleftrightarrow> o_heap x = None" by (simp add: set_block_def split: option.split)
  have "length ?b = length (o_block x)" using assms(1) by simp
  then show "length (o_block (set_block ?b x)) = length (o_block x)" by simp
  show "length (o_internal (set_block ?b x)) = OID_BUFFER_SIZE"
    using assms by (cases "o_heap x") (simp_all add: set_block_internal o_block_def)
  show "take (off + length vs) (o_block (set_block ?b x)) = take off (o_block x) @ vs"
    using assms(1) by (cases vs) (simp_all add: min_def)
qed

text \<open>The result of an operation is a well-formed identifier with the given elements.\<close>

definition yields :: "fault + oid \<Rightarrow> u32 list \<Rightarrow> bool" where
  "yields r vs \<longleftrightarrow> (\<exists>y. r = Inr y \<and> oid_ok y \<and> oid_elements y = vs)"

text \<open>Allocation returns a block of the size asked for.\<close>

definition alloc_ok :: "(nat \<Rightarrow> u32 list) \<Rightarrow> bool" where
  "alloc_ok junk \<longleftrightarrow> (\<forall>n. length (junk n) = n)"

lemma alloc_length: "alloc_ok junk \<Longrightarrow> length (junk n) = n"
  by (simp add: alloc_ok_def)

lemma write_yields:
  assumes "off + length vs \<le> length (o_block x)" and "length (o_internal x) = OID_BUFFER_SIZE"
    and "o_length x = off + length vs"
  shows "yields (write_ids off vs x) (take off (o_block x) @ vs)"
  using assms by - (rule write_ids_ok [of off vs x], auto simp: yields_def oid_ok_def oid_elements_def)

lemma write_extend_yields:
  assumes "off + length vs \<le> length (o_block x)" and "length (o_internal x) = OID_BUFFER_SIZE"
  shows "yields (sum_bind (write_ids off vs x) (\<lambda>y. Inr (y\<lparr> o_length := off + length vs \<rparr>))) (take off (o_block x) @ vs)"
  using assms by - (rule write_ids_ok [of off vs x], auto simp: yields_def oid_ok_def oid_elements_def)

lemma oid_of_yields: "alloc_ok junk \<Longrightarrow> yields (oid_of junk vs) vs"
proof (cases "length vs \<le> OID_BUFFER_SIZE")
  case True
  assume "alloc_ok junk"
  with True show ?thesis
    using write_yields [of 0 vs "(empty_oid junk)\<lparr> o_length := length vs \<rparr>"]
    by (simp add: oid_of_def empty_oid_def o_block_def alloc_length)
qed (simp add: oid_of_def empty_oid_def yields_def oid_ok_def oid_elements_def o_block_def alloc_length)

lemma copy_yields: "alloc_ok junk \<Longrightarrow> oid_ok src \<Longrightarrow> yields (copy_oid junk src) (oid_elements src)"
  by (simp add: copy_oid_def read_ids_ok oid_of_yields)

lemma setValue_yields: "oid_ok x \<Longrightarrow> yields (setValue vs x) vs"
proof (cases "length vs \<le> OID_BUFFER_SIZE")
  case True
  assume "oid_ok x"
  with True show ?thesis
    using write_yields [of 0 vs "x\<lparr> o_length := length vs, o_heap := None \<rparr>"]
    by (simp add: setValue_def oid_ok_def o_block_def)
qed (simp add: setValue_def yields_def oid_ok_def oid_elements_def)

lemma assign_yields:
  assumes "alloc_ok junk" and "oid_ok src" and "oid_ok x"
  shows "yields (assign_oid junk src x) (if o_length src \<le> OID_BUFFER_SIZE then oid_elements src else junk (o_length src))"
proof (cases "o_length src \<le> OID_BUFFER_SIZE")
  case True
  then show ?thesis
    using assms write_yields [of 0 "oid_elements src" "x\<lparr> o_length := o_length src, o_heap := None \<rparr>"]
    by (simp add: assign_oid_def read_ids_ok length_elements o_block_def) (simp add: oid_ok_def)
next
  case False
  then show ?thesis using assms by (simp add: assign_oid_def yields_def oid_ok_def oid_elements_def alloc_length)
qed

lemma move_yields:
  assumes "alloc_ok junk" and "oid_ok src"
  obtains y src' where "move_oid junk src = Inr (y, src')" and "oid_ok y" and "oid_elements y = oid_elements src"
    and "oid_ok src'" and "oid_elements src' = []"
proof (cases "o_heap src")
  case None
  let ?x = "(empty_oid junk)\<lparr> o_length := o_length src \<rparr>"
  have "yields (write_ids 0 (oid_elements src) ?x) (oid_elements src)"
    using assms None write_yields [of 0 "oid_elements src" ?x]
    by (simp add: length_elements empty_oid_def alloc_length o_block_def) (simp add: oid_ok_def o_block_def)
  then obtain y where y: "write_ids 0 (oid_elements src) ?x = Inr y" "oid_ok y" "oid_elements y = oid_elements src"
    by (auto simp: yields_def)
  show ?thesis
    by (rule that [of y "src\<lparr> o_length := 0 \<rparr>"])
      (use assms None y in \<open>simp_all add: move_oid_def read_ids_ok oid_elements_def oid_ok_def\<close>)
next
  case (Some b)
  show ?thesis
    by (rule that [of "(empty_oid junk)\<lparr> o_length := o_length src, o_heap := Some b \<rparr>" "src\<lparr> o_heap := None, o_length := 0 \<rparr>"])
      (use assms Some in \<open>simp_all add: move_oid_def oid_elements_def oid_ok_def o_block_def empty_oid_def alloc_length\<close>)
qed

lemma move_assign_yields:
  assumes "oid_ok src" and "oid_ok x"
  obtains y src' where "move_assign_oid src x = Inr (y, src')" and "oid_ok y" and "oid_elements y = oid_elements src"
    and "oid_ok src'" and "oid_elements src' = []"
proof (cases "o_heap src")
  case None
  let ?x = "x\<lparr> o_length := o_length src, o_heap := None \<rparr>"
  have "yields (write_ids 0 (oid_elements src) ?x) (oid_elements src)"
    using assms None write_yields [of 0 "oid_elements src" ?x]
    by (simp add: length_elements) (simp add: oid_ok_def o_block_def)
  then obtain y where y: "write_ids 0 (oid_elements src) ?x = Inr y" "oid_ok y" "oid_elements y = oid_elements src"
    by (auto simp: yields_def)
  show ?thesis
    by (rule that [of y "src\<lparr> o_length := 0, o_heap := None \<rparr>"])
      (use assms None y in \<open>simp_all add: move_assign_oid_def read_ids_ok oid_elements_def oid_ok_def o_block_def\<close>)
next
  case (Some b)
  show ?thesis
    by (rule that [of "x\<lparr> o_length := o_length src, o_heap := Some b \<rparr>" "src\<lparr> o_length := 0, o_heap := None \<rparr>"])
      (use assms Some in \<open>simp_all add: move_assign_oid_def oid_elements_def oid_ok_def o_block_def\<close>)
qed

lemma suffix_yields:
  assumes "alloc_ok junk" and "oid_ok base"
  shows "yields (oid_suffix junk base sfx) (oid_elements base @ sfx)"
proof -
  let ?n = "o_length base + length sfx"
  let ?x = "(empty_oid junk)\<lparr> o_length := ?n, o_heap := (if ?n \<le> OID_BUFFER_SIZE then None else Some (junk ?n)) \<rparr>"
  have x: "?n \<le> length (o_block ?x)" "length (o_internal ?x) = OID_BUFFER_SIZE"
    using assms(1) by (simp_all add: empty_oid_def alloc_length o_block_def)
  obtain y where y: "write_ids 0 (oid_elements base) ?x = Inr y" "o_length y = ?n"
      "length (o_internal y) = OID_BUFFER_SIZE" "length (o_block y) = length (o_block ?x)"
      "take (o_length base) (o_block y) = oid_elements base"
    using write_ids_ok [of 0 "oid_elements base" ?x] x assms(2) by (auto simp: length_elements)
  have "yields (write_ids (o_length base) sfx y) (oid_elements base @ sfx)"
    using write_yields [of "o_length base" sfx y] y x(1) by simp
  then show ?thesis using assms(2) y(1) by (simp add: oid_suffix_def read_ids_ok Let_def)
qed

lemma extend_by_yields:
  assumes "alloc_ok junk" and "oid_ok x"
  shows "yields (extend_by junk vs x) (oid_elements x @ vs)"
proof -
  let ?n = "o_length x" let ?k = "length vs"
  let ?put = "\<lambda>y. sum_bind (write_ids ?n vs y) (\<lambda>y'. Inr (y'\<lparr> o_length := ?n + ?k \<rparr>))"
  have put: "yields (?put y) (oid_elements x @ vs)"
    if "?n + ?k \<le> length (o_block y)" "length (o_internal y) = OID_BUFFER_SIZE"
      "take ?n (o_block y) = oid_elements x" for y
    using write_extend_yields [of ?n vs y] that by simp
  show ?thesis
  proof (cases "o_heap x")
    case None
    show ?thesis
    proof (cases "?n + ?k > OID_BUFFER_SIZE")
      case True
      let ?x = "x\<lparr> o_heap := Some (junk (?n + ?k)) \<rparr>"
      obtain y where "write_ids 0 (oid_elements x) ?x = Inr y" "length (o_internal y) = OID_BUFFER_SIZE"
          "length (o_block y) = ?n + ?k" "take ?n (o_block y) = oid_elements x"
        using write_ids_ok [of 0 "oid_elements x" ?x] assms
        by (auto simp: length_elements alloc_length) (auto simp: oid_ok_def)
      then show ?thesis using None True put [of y] assms(2) by (simp add: extend_by_def read_ids_ok Let_def)
    next
      case False
      then show ?thesis
        using None put [of x] assms(2) by (simp add: extend_by_def oid_ok_def oid_elements_def o_block_def Let_def)
    qed
  next
    case (Some b)
    let ?x = "x\<lparr> o_heap := Some (realloc junk b (?n + ?k)) \<rparr>"
    have l: "?n \<le> length b" "?n + ?k \<le> length (realloc junk b (?n + ?k))" "take ?n (realloc junk b (?n + ?k)) = oid_elements x"
      using assms Some by (simp_all add: oid_ok_def o_block_def realloc_def alloc_length oid_elements_def)
    obtain y where "write_ids ?n vs ?x = Inr y" "length (o_internal y) = OID_BUFFER_SIZE"
        "length (o_block y) = length (realloc junk b (?n + ?k))" "take (?n + ?k) (o_block y) = oid_elements x @ vs"
      using write_ids_ok [of ?n vs ?x] assms(2) l by (auto simp: oid_ok_def)
    moreover from this have "take ?n (o_block y) = oid_elements x"
      using assms(2) by (metis length_elements append_eq_conv_conj le_add1 min.absorb1 take_take)
    ultimately show ?thesis using Some put [of y] l by (simp add: extend_by_def Let_def)
  qed
qed

text \<open>Appending one element by \<^verbatim>\<open>extend\<close> is appending a list of one.\<close>

lemma write_again:
  assumes "write_ids off vs x = Inr y"
  shows "write_ids off vs y = Inr y"
proof -
  have "off + length vs \<le> length (o_block x)"
    and y: "y = set_block (take off (o_block x) @ vs @ drop (off + length vs) (o_block x)) x"
    using assms by (auto simp: write_ids_def split: if_splits)
  then show ?thesis by (cases vs) (simp_all add: write_ids_def min_def set_block_twice)
qed

lemma extend_is_extend_by: "extend junk v x = extend_by junk [v] x"
proof (cases "o_heap x")
  case (Some b)
  show ?thesis
    by (cases "write_ids (o_length x) [v] (x\<lparr> o_heap := Some (realloc junk b (o_length x + 1)) \<rparr>)")
      (use Some in \<open>simp_all add: extend_def extend_by_def Let_def write_again\<close>)
qed (simp add: extend_def extend_by_def Let_def not_less less_Suc_eq_le)

lemma truncate_ok: "oid_ok x \<Longrightarrow> oid_ok (truncate n x)"
  by (auto simp: truncate_def oid_ok_def)

lemma truncate_elements: "oid_ok x \<Longrightarrow> oid_elements (truncate n x) = take (o_length x - n) (oid_elements x)"
  by (simp add: truncate_def oid_elements_def)

lemma changeElement_yields:
  assumes "oid_ok x"
  shows "yields (changeElement pos v x) ((oid_elements x)[pos := v])"
proof (cases "pos < o_length x")
  case True
  let ?y = "set_block ((o_block x)[pos := v]) x"
  have l: "pos < length (o_block x)" using assms True by (simp add: oid_ok_def)
  have "changeElement pos v x = Inr ?y"
    using True l by (simp add: changeElement_def write_ids_def upd_conv_take_nth_drop)
  moreover have "oid_ok ?y" using assms by (cases "o_heap x") (simp_all add: oid_ok_def set_block_internal, simp_all add: o_block_def)
  moreover have "oid_elements ?y = (oid_elements x)[pos := v]" by (simp add: oid_elements_def take_update_swap)
  ultimately show ?thesis by (simp add: yields_def)
next
  case False
  then show ?thesis using assms by (simp add: changeElement_def yields_def length_elements list_update_beyond)
qed

lemma getElement_elements:
  "oid_ok x \<Longrightarrow> getElement i x = Inr (if i < o_length x then oid_elements x ! i else 0)"
  by (simp add: getElement_def oid_ok_def oid_elements_def)

lemma getLastElement_elements:
  "oid_ok x \<Longrightarrow> getLastElement x = Inr (if oid_elements x = [] then 0 else last (oid_elements x))"
  by (auto simp: getLastElement_def getElement_elements last_conv_nth length_elements simp flip: length_0_conv)

section \<open>The order of identifiers\<close>

lemma compare_equal: "compare_ids xs ys = OID_EQUAL \<longleftrightarrow> xs = ys"
  by (induction xs ys rule: compare_ids.induct) auto

lemma compare_shorter: "compare_ids xs ys = OID_SHORTER \<longleftrightarrow> strict_prefix xs ys"
  by (induction xs ys rule: compare_ids.induct) auto

lemma compare_longer: "compare_ids xs ys = OID_LONGER \<longleftrightarrow> strict_prefix ys xs"
  by (induction xs ys rule: compare_ids.induct) auto

text \<open>A name comes earlier in the lexicographic order exactly when it precedes or is shorter.\<close>

lemma compare_before:
  "compare_ids xs ys \<in> {OID_PRECEDING, OID_SHORTER} \<longleftrightarrow> (xs, ys) \<in> lexord {(a, b). a < b}"
  by (induction xs ys rule: compare_ids.induct) auto

lemma compare_after:
  "compare_ids xs ys \<in> {OID_FOLLOWING, OID_LONGER} \<longleftrightarrow> (ys, xs) \<in> lexord {(a, b). a < b}"
  by (induction xs ys rule: compare_ids.induct) auto

lemma startsWith_prefix: "startsWith xs ys \<longleftrightarrow> ys \<noteq> [] \<and> prefix ys xs"
  by (auto simp: startsWith_def compare_oid_def compare_equal compare_longer strict_prefix_def prefix_length_le)

lemma equals_oid_eq: "equals_oid xs ys \<longleftrightarrow> ys \<noteq> [] \<and> xs = ys"
  by (auto simp: equals_oid_def compare_oid_def compare_equal)

lemma follows_lexord: "follows xs ys \<longleftrightarrow> ys \<noteq> [] \<and> (ys, xs) \<in> lexord {(a, b). a < b}"
  using compare_after [of xs ys] by (auto simp: follows_def compare_oid_def)

end
