(* ===== verification/Nx_Oid_Text.thy ===== *)
theory Nx_Oid_Text
  imports Nx_Oid Nx_Itoa
begin

text \<open>
  The dotted text form of SNMP object identifiers (\<^verbatim>\<open>src/src/snmp/libnxsnmp/main.cpp\<close>): printing into a
  buffer of a given size and parsing into an array of a given size. Texts are lists of
  character codes without the terminating zero.
\<close>

section \<open>Printing\<close>

text \<open>The digit loop is the one of the unsigned integer formatter with base ten.\<close>

definition OIDElementToString :: "u32 \<Rightarrow> wstr" where
  "OIDElementToString v = rev (digit_char (uint v mod 10) # digits_rev (uint v div 10) 10)"

fun oid_text :: "u32 list \<Rightarrow> wstr" where
  "oid_text [] = []"
| "oid_text [v] = OIDElementToString v"
| "oid_text (v # w # vs) = OIDElementToString v @ 46 # oid_text (w # vs)"

text \<open>
  The loop is guarded by \<^verbatim>\<open>count < bufferSize\<close>, where \<^verbatim>\<open>count\<close> stays zero. All characters and the
  terminating zero are written without another test.
\<close>

definition SnmpConvertOIDToText :: "u32 list \<Rightarrow> nat \<Rightarrow> fault + wstr" where
  "SnmpConvertOIDToText vs bufferSize =
     (let text = (if 0 < bufferSize then oid_text vs else []) in
      if length text < bufferSize then Inr text else Inl Bad_access)"

definition toString_oid :: "u32 list \<Rightarrow> fault + wstr" where
  "toString_oid vs = SnmpConvertOIDToText vs (MAX_OID_LEN * 5)"

section \<open>Parsing\<close>

definition is_digit_char :: "wchar \<Rightarrow> bool" where
  "is_digit_char c \<longleftrightarrow> 48 \<le> c \<and> c \<le> 57"

text \<open>
  \<^verbatim>\<open>strtoul\<close> with base ten on at most fifteen digits, cut to 32 bits. The text of no digits is zero.
\<close>

definition ParseNumber :: "wstr \<Rightarrow> u32" where
  "ParseNumber s = word_of_int (accum 10 0 s)"

text \<open>The loop, from the character after a dot, with the room left in the array; None is the early return.\<close>

fun parse_numbers :: "nat \<Rightarrow> wstr \<Rightarrow> u32 list option" where
  "parse_numbers 0 cur = Some []"
| "parse_numbers (Suc room) cur =
     (let num = takeWhile is_digit_char cur; rest = dropWhile is_digit_char cur in
      if length num > 15 \<or> (rest \<noteq> [] \<and> hd rest \<noteq> 46) then None
      else if rest = [] then Some [ParseNumber num]
      else map_option (Cons (ParseNumber num)) (parse_numbers room (tl rest)))"

definition SnmpParseOID :: "wstr \<Rightarrow> nat \<Rightarrow> u32 list" where
  "SnmpParseOID text bufferSize =
     (if text = [] then []
      else let cur = (if hd text = 46 then tl text else text) in
        if cur = [] then []
        else case parse_numbers bufferSize cur of None \<Rightarrow> [] | Some vs \<Rightarrow> vs)"

definition SnmpIsCorrectOID :: "wstr \<Rightarrow> bool" where
  "SnmpIsCorrectOID text \<longleftrightarrow> SnmpParseOID text MAX_OID_LEN \<noteq> []"

definition SnmpGetOIDLength :: "wstr \<Rightarrow> nat" where
  "SnmpGetOIDLength text = length (SnmpParseOID text MAX_OID_LEN)"

definition compare_text :: "u32 list \<Rightarrow> wstr \<Rightarrow> oid_order" where
  "compare_text this text =
     (let vs = SnmpParseOID text MAX_OID_LEN in if vs = [] then OID_ERROR else compare_oid this vs)"

definition parse_oid :: "(nat \<Rightarrow> u32 list) \<Rightarrow> wstr \<Rightarrow> fault + oid" where
  "parse_oid junk text = oid_of junk (SnmpParseOID text MAX_OID_LEN)"

section \<open>Round trip\<close>

lemma element_digits: "\<forall>c \<in> set (OIDElementToString v). is_digit_char c"
  using digits_rev_set [of _ "uint v div 10"] digit_char_range [of "uint v mod 10"]
  by (auto simp: OIDElementToString_def is_digit_char_def)

lemma element_nonempty: "OIDElementToString v \<noteq> []"
  by (simp add: OIDElementToString_def)

lemma digits_rev_length_10: "0 \<le> v \<Longrightarrow> v < 10 ^ n \<Longrightarrow> length (digits_rev v 10) \<le> n"
proof (induction n arbitrary: v)
  case 0
  then show ?case by (subst digits_rev.simps) simp
next
  case (Suc n)
  have "length (digits_rev (v div 10) 10) \<le> n" using Suc.prems by (intro Suc.IH) auto
  then show ?case by (subst digits_rev.simps) simp
qed

lemma element_length: "length (OIDElementToString v) \<le> 10"
proof -
  have "uint v < 2 ^ 32" using uint_lt2p [of v] by simp
  then have "length (digits_rev (uint v div 10) 10) \<le> 9"
    by (intro digits_rev_length_10) (auto simp: pos_imp_zdiv_nonneg_iff)
  then show ?thesis by (simp add: OIDElementToString_def)
qed

lemma parse_element: "ParseNumber (OIDElementToString v) = v"
proof (cases "v = 0")
  case True
  have "digits_rev 0 10 = []" by (subst digits_rev.simps) simp
  with True show ?thesis
    by (simp add: OIDElementToString_def ParseNumber_def digit_char_def digit_val_def)
next
  case False
  then have "0 < uint v" by (simp add: less_le uint_0_iff)
  then show ?thesis
    using digits_step [of "uint v"] accum_digits [of "uint v"]
    by (simp only: OIDElementToString_def ParseNumber_def) simp
qed

lemma parse_head:
  assumes "rest = [] \<or> hd rest = 46"
  shows "takeWhile is_digit_char (OIDElementToString v @ rest) = OIDElementToString v"
    and "dropWhile is_digit_char (OIDElementToString v @ rest) = rest"
  using assms element_digits [of v]
  by (cases rest; simp add: takeWhile_append dropWhile_append is_digit_char_def takeWhile_eq_all_conv)+

lemma parse_numbers_text: "vs \<noteq> [] \<Longrightarrow> length vs \<le> n \<Longrightarrow> parse_numbers n (oid_text vs) = Some vs"
proof (induction vs arbitrary: n rule: oid_text.induct)
  case (2 v)
  then obtain m where "n = Suc m" by (cases n) auto
  then show ?case
    using element_length [of v] by (simp add: parse_head [of "[]" v, unfolded append_Nil2] parse_element)
next
  case (3 v w vs)
  then obtain m where m: "n = Suc m" "length (w # vs) \<le> m" by (cases n) auto
  have "parse_numbers m (oid_text (w # vs)) = Some (w # vs)" using 3 m by simp
  then show ?case
    using parse_head [of "46 # oid_text (w # vs)" v] element_length [of v] m(1) by (simp add: parse_element)
qed simp

lemma oid_text_head: "vs \<noteq> [] \<Longrightarrow> oid_text vs \<noteq> [] \<and> hd (oid_text vs) \<noteq> 46"
proof (induction vs rule: oid_text.induct)
  case (2 v)
  then show ?case using element_digits [of v] element_nonempty [of v]
    by (auto simp: is_digit_char_def dest!: hd_in_set)
next
  case (3 v w vs)
  then show ?case using element_digits [of v] element_nonempty [of v]
    by (auto simp: is_digit_char_def dest!: hd_in_set)
qed simp

text \<open>The printed text, with or without a leading dot, parses to the identifier.\<close>

lemma oid_text_round_trip:
  assumes "vs \<noteq> []" and "length vs \<le> n"
  shows "SnmpParseOID (oid_text vs) n = vs" and "SnmpParseOID (46 # oid_text vs) n = vs"
  using oid_text_head [OF assms(1)] parse_numbers_text [OF assms] by (auto simp: SnmpParseOID_def)

lemma parse_numbers_bound: "parse_numbers n s = Some vs \<Longrightarrow> length vs \<le> n"
  by (induction n s arbitrary: vs rule: parse_numbers.induct) (auto simp: Let_def split: if_splits)

lemma SnmpParseOID_bound: "length (SnmpParseOID s n) \<le> n"
  using parse_numbers_bound by (fastforce simp: SnmpParseOID_def Let_def split: option.split)

lemma parse_oid_yields: "alloc_ok junk \<Longrightarrow> yields (parse_oid junk text) (SnmpParseOID text MAX_OID_LEN)"
  by (simp add: parse_oid_def oid_of_yields)

section \<open>The buffer\<close>

text \<open>Eleven characters per element are always enough.\<close>

lemma oid_text_length: "vs \<noteq> [] \<Longrightarrow> length (oid_text vs) < 11 * length vs"
proof (induction vs rule: oid_text.induct)
  case (2 v)
  then show ?case using element_length [of v] by simp
next
  case (3 v w vs)
  then show ?case using element_length [of v] by simp
qed simp

lemma convert_safe:
  "11 * length vs \<le> bufferSize \<Longrightarrow> 0 < bufferSize \<Longrightarrow> SnmpConvertOIDToText vs bufferSize = Inr (oid_text vs)"
  using oid_text_length [of vs] by (cases "vs = []") (auto simp: SnmpConvertOIDToText_def)

text \<open>
  \<^verbatim>\<open>toString\<close> prints into five characters per element of the longest identifier, and the size of the
  buffer does not stop the loop: an identifier of 60 ten-digit elements runs past the buffer.
\<close>

lemma long_element: "OIDElementToString 4294967295 = [52, 50, 57, 52, 57, 54, 55, 50, 57, 53]"
  by (simp add: OIDElementToString_def digits_rev.simps digit_char_def)

lemma oid_text_replicate: "length (oid_text (replicate (Suc n) 4294967295)) = 11 * n + 10"
  by (induction n) (simp_all add: long_element)

lemma toString_overflows: "toString_oid (replicate 60 4294967295) = Inl Bad_access"
  using oid_text_replicate [of 59] by (simp add: toString_oid_def SnmpConvertOIDToText_def)

end
