(* ===== verification/Nx_Ber.thy ===== *)
theory Nx_Ber
  imports Nx_Prelude
begin

text \<open>
  The BER codec of the SNMP library (\<^verbatim>\<open>src/src/snmp/libnxsnmp/ber.cpp\<close>). Memory is a list of bytes.
  Numbers lie in memory in the byte order of the host, which is a parameter: on a little endian
  host the conversions \<^verbatim>\<open>htonl\<close>, \<^verbatim>\<open>htonq\<close>, \<^verbatim>\<open>htonf\<close>, \<^verbatim>\<open>htond\<close> and their inverses
  reverse the bytes. A pointer into a packet is the list of the bytes from there to the end of
  the buffer, so that a read past the end is the fault \<open>Bad_access\<close>; this also holds for writes
  past the end of a block.
\<close>

section \<open>Numbers in memory\<close>

abbreviation (input) "ASN_INTEGER \<equiv> (0x02 :: u32)"
abbreviation (input) "ASN_NULL \<equiv> (0x05 :: u32)"
abbreviation (input) "ASN_OBJECT_ID \<equiv> (0x06 :: u32)"
abbreviation (input) "ASN_COUNTER32 \<equiv> (0x41 :: u32)"
abbreviation (input) "ASN_GAUGE32 \<equiv> (0x42 :: u32)"
abbreviation (input) "ASN_TIMETICKS \<equiv> (0x43 :: u32)"
abbreviation (input) "ASN_COUNTER64 \<equiv> (0x46 :: u32)"
abbreviation (input) "ASN_UINTEGER32 \<equiv> (0x47 :: u32)"
abbreviation (input) "ASN_FLOAT \<equiv> (0x48 :: u32)"
abbreviation (input) "ASN_DOUBLE \<equiv> (0x49 :: u32)"
abbreviation (input) "ASN_INTEGER64 \<equiv> (0x4A :: u32)"
abbreviation (input) "ASN_UINTEGER64 \<equiv> (0x4B :: u32)"
abbreviation (input) "SNMP_OID_INTERNAL_BUFFER_SIZE \<equiv> (32 :: nat)"

definition byte_swap :: "bool \<Rightarrow> u8 list \<Rightarrow> u8 list" where
  "byte_swap le bs = (if le then rev bs else bs)"

definition be_value :: "u8 list \<Rightarrow> nat" where
  "be_value bs = foldl (\<lambda>n b. n * 256 + unat b) 0 bs"

fun be_bytes :: "nat \<Rightarrow> nat \<Rightarrow> u8 list" where
  "be_bytes 0 n = []"
| "be_bytes (Suc k) n = be_bytes k (n div 256) @ [of_nat n]"

text \<open>The 32 bit numbers in a block of memory.\<close>

fun words_of :: "bool \<Rightarrow> u8 list \<Rightarrow> u32 list" where
  "words_of le (a # b # c # d # bs) = of_nat (be_value (byte_swap le [a, b, c, d])) # words_of le bs"
| "words_of le bs = []"

section \<open>Decoding\<close>

definition BER_DecodeIdentifier :: "u8 list \<Rightarrow> (u32 \<times> nat \<times> u8 list \<times> nat) option" where
  "BER_DecodeIdentifier raw =
     (if length raw < 2 then None
      else
        (let type = ucast (raw ! 0); b = raw ! 1;
             finish = (\<lambda>dataLength idLength.
               if dataLength > length raw - idLength then None
               else Some (type, dataLength, drop idLength raw, idLength))
         in if b AND 0x80 = 0 then finish (unat b) 2
            else (let numBytes = unat (b AND 0x7F) in
              if numBytes < 1 \<or> numBytes > 4 then None
              else if length raw < 2 + numBytes then None
              else finish (be_value (replicate (4 - numBytes) 0 @ take numBytes (drop 2 raw))) (2 + numBytes))))"

definition read_bytes :: "u8 list \<Rightarrow> nat \<Rightarrow> fault + u8 list" where
  "read_bytes mem n = (if n \<le> length mem then Inr (take n mem) else Inl Bad_access)"

text \<open>The integer branches of \<^verbatim>\<open>BER_DecodeContent\<close> for a result of \<open>n\<close> bytes.\<close>

definition decode_int :: "bool \<Rightarrow> nat \<Rightarrow> u8 list \<Rightarrow> nat \<Rightarrow> fault + u8 list option" where
  "decode_int le n mem len =
     (if 1 \<le> len \<and> len \<le> n + 1 then
        sum_bind (read_bytes mem len) (\<lambda>bs.
          let fill = (if hd bs AND 0x80 \<noteq> 0 then 0xFF else 0);
              bs' = (if len = n + 1 then tl bs else bs)
          in Inr (Some (byte_swap le (replicate (n - length bs') fill @ bs'))))
      else Inr None)"

text \<open>
  The inner loop over the octets with the eighth bit set tests the octet before the remaining
  length, so that it reads one octet more than the length allows.
\<close>

fun oid_octets :: "u32 \<Rightarrow> u8 list \<Rightarrow> nat \<Rightarrow> fault + (u32 \<times> u8 list \<times> nat)" where
  "oid_octets v [] len = Inl Bad_access"
| "oid_octets v (b # mem) len =
     (if b AND 0x80 \<noteq> 0 \<and> len > 0 then oid_octets (push_bit 7 v OR ucast (b AND 0x7F)) mem (len - 1)
      else Inr (v, b # mem, len))"

lemma oid_octets_len: "oid_octets v mem len = Inr (v', mem', len') \<Longrightarrow> len' \<le> len \<and> mem' \<noteq> []"
  by (induction v mem len rule: oid_octets.induct) (fastforce split: if_splits)+

function decode_oid :: "nat \<Rightarrow> u32 list \<Rightarrow> u8 list \<Rightarrow> nat \<Rightarrow> fault + u32 list" where
  "decode_oid capacity ids mem len =
     (if len = 0 then Inr ids
      else case oid_octets 0 mem len of
        Inl e \<Rightarrow> Inl e
      | Inr (v, mem', len') \<Rightarrow>
          if len' > 0 then
            (let capacity' = (if length ids = SNMP_OID_INTERNAL_BUFFER_SIZE
                              then len' + SNMP_OID_INTERNAL_BUFFER_SIZE else capacity)
             in if length ids < capacity'
                then decode_oid capacity' (ids @ [push_bit 7 v OR ucast (hd mem')]) (tl mem') (len' - 1)
                else Inl Bad_access)
          else Inr ids)"
  by pat_completeness auto

termination
  by (relation "measure (\<lambda>(capacity, ids, mem, len). len)") (auto dest: oid_octets_len)

declare decode_oid.simps [simp del]

datatype ber_content = Memory "u8 list" | Oid "u32 list"

definition BER_DecodeContent :: "bool \<Rightarrow> u32 \<Rightarrow> u8 list \<Rightarrow> nat \<Rightarrow> fault + ber_content option" where
  "BER_DecodeContent le type mem len =
     (let memory = (\<lambda>r. sum_bind r (\<lambda>v. Inr (map_option Memory v)));
          swapped = (\<lambda>n. if len = n then sum_bind (read_bytes mem n) (\<lambda>bs. Inr (Some (Memory (byte_swap le bs)))) else Inr None) in
      if type \<in> {ASN_INTEGER, ASN_COUNTER32, ASN_GAUGE32, ASN_TIMETICKS, ASN_UINTEGER32} then memory (decode_int le 4 mem len)
      else if type \<in> {ASN_COUNTER64, ASN_INTEGER64, ASN_UINTEGER64} then memory (decode_int le 8 mem len)
      else if type = ASN_FLOAT then swapped 4
      else if type = ASN_DOUBLE then swapped 8
      else if type = ASN_OBJECT_ID then
        (if len > 0 then
           sum_bind (read_bytes mem 1) (\<lambda>bs.
             sum_bind (decode_oid SNMP_OID_INTERNAL_BUFFER_SIZE [ucast (hd bs div 40), ucast (hd bs mod 40)] (tl mem) (len - 1))
               (\<lambda>ids. Inr (Some (Oid ids))))
         else Inr None)
      else sum_bind (read_bytes mem len) (\<lambda>bs. Inr (Some (Memory bs))))"

section \<open>Encoding\<close>

fun skip_bytes :: "u8 \<Rightarrow> u8 list \<Rightarrow> u8 list" where
  "skip_bytes s (b # c # bs) = (if b = s then skip_bytes s (c # bs) else b # c # bs)"
| "skip_bytes s bs = bs"

definition encode_signed :: "u8 list \<Rightarrow> u8 list" where
  "encode_signed bs =
     (let sign = (if hd bs AND 0x80 \<noteq> 0 then 0xFF else 0); p = skip_bytes sign bs
      in if hd p AND 0x80 \<noteq> sign AND 0x80 then sign # p else p)"

definition encode_unsigned :: "u8 list \<Rightarrow> u8 list" where
  "encode_unsigned bs = (let p = skip_bytes 0 bs in if hd p AND 0x80 \<noteq> 0 then 0 # p else p)"

fun size_loop :: "u32 list \<Rightarrow> u32 \<Rightarrow> nat" where
  "size_loop [] v = 0"
| "size_loop (mask' # masks) v = (if mask' AND v \<noteq> v then Suc (size_loop masks v) else 0)"

fun high_groups :: "nat \<Rightarrow> u32 \<Rightarrow> u8 list \<Rightarrow> u8 list" where
  "high_groups 0 v acc = acc"
| "high_groups (Suc j) v acc = (let v' = drop_bit 7 v in high_groups j v' ((ucast (v' AND 0x7F) OR 0x80) # acc))"

definition encode_subid :: "u32 \<Rightarrow> u8 list" where
  "encode_subid v =
     high_groups (size_loop [0x7F, 0x3FFF, 0x1FFFFF, 0xFFFFFFF, 0xFFFFFFFF] v) v [ucast (v AND 0x7F)]"

definition encode_oid :: "u32 list \<Rightarrow> u8 list" where
  "encode_oid ids =
     (case ids of
        [] \<Rightarrow> []
      | [a] \<Rightarrow> [ucast a * 40]
      | a # b # rest \<Rightarrow> (ucast a * 40 + ucast b) # concat (map encode_subid rest))"

definition EncodeContent :: "bool \<Rightarrow> u32 \<Rightarrow> u8 list \<Rightarrow> fault + u8 list" where
  "EncodeContent le type data =
     (let number = (\<lambda>n f. if length data < n then Inl Bad_access else Inr (f (byte_swap le (take n data)))) in
      if type = ASN_NULL then Inr []
      else if type = ASN_INTEGER then number 4 encode_signed
      else if type \<in> {ASN_COUNTER32, ASN_GAUGE32, ASN_TIMETICKS, ASN_UINTEGER32} then number 4 encode_unsigned
      else if type = ASN_INTEGER64 then number 8 encode_signed
      else if type \<in> {ASN_COUNTER64, ASN_UINTEGER64} then number 8 encode_unsigned
      else if type = ASN_FLOAT then number 4 id
      else if type = ASN_DOUBLE then number 8 id
      else if type = ASN_OBJECT_ID then Inr (encode_oid (words_of le data))
      else Inr data)"

text \<open>
  The content is encoded into a block allocated for as many bytes as the value has in memory. The
  allocator may give out more; \<open>usable\<close> is the size of the block it returns for a request.
\<close>

definition BER_Encode :: "bool \<Rightarrow> (nat \<Rightarrow> nat) \<Rightarrow> u32 \<Rightarrow> u8 list \<Rightarrow> nat \<Rightarrow> fault + u8 list" where
  "BER_Encode le usable type data bufferSize =
     (if bufferSize < 2 then Inr []
      else sum_bind (EncodeContent le type data) (\<lambda>content.
        if length content > usable (length data) then Inl Bad_access
        else
          (let n = length content; hdr = skip_bytes 0 (be_bytes 4 n) in
           if n < 128 then
             Inr (if bufferSize \<ge> 2 + n then ucast type # of_nat n # content else [])
           else if bufferSize < length hdr + 2 then Inr []
           else Inr (if bufferSize \<ge> length hdr + 2 + n
                     then ucast type # (0x80 OR of_nat (length hdr)) # hdr @ content else []))))"

section \<open>Integers\<close>

lemma bit_high: "bit (0x80 :: u8) n \<longleftrightarrow> n = 7"
proof -
  have "(0x80 :: u8) = 2 ^ 7" by simp
  then show ?thesis by (simp only: bit_2_iff bit_exp_iff) auto
qed

lemma and_high: "b AND 0x80 = (if bit b 7 then 0x80 else 0 :: u8)"
proof (cases "bit b 7")
  case True
  then show ?thesis by (intro bit_word_eqI) (auto simp only: bit_and_iff bit_high if_True)
next
  case False
  then have "\<not> bit (b AND 0x80) n" for n by (auto simp only: bit_and_iff bit_high)
  then have "b AND 0x80 = 0" by (intro bit_word_eqI) simp
  with False show ?thesis by simp
qed

lemma skip_bytes_split: "bs \<noteq> [] \<Longrightarrow> \<exists>k p. bs = replicate k s @ p \<and> skip_bytes s bs = p \<and> p \<noteq> []"
proof (induction s bs rule: skip_bytes.induct)
  case (1 s b c bs)
  show ?case
  proof (cases "b = s")
    case True
    with 1 obtain k p where "c # bs = replicate k s @ p" "skip_bytes s (c # bs) = p" "p \<noteq> []" by auto
    with True show ?thesis by (intro exI [of _ "Suc k"] exI [of _ p]) (simp flip: \<open>c # bs = _\<close>)
  next
    case False
    then show ?thesis by (intro exI [of _ 0] exI [of _ "b # c # bs"]) simp
  qed
qed (auto intro: exI [of _ 0])

text \<open>Padding on the left with the sign restores the bytes that were skipped.\<close>

lemma decode_padded:
  assumes "bs = replicate k s @ p" "p \<noteq> []" "length bs = n" "hd p AND 0x80 = s AND 0x80" "s = 0 \<or> s = 0xFF"
  shows "decode_int le n (p @ rest) (length p) = Inr (Some (byte_swap le bs))"
proof -
  have "(if hd p AND 0x80 \<noteq> 0 then 0xFF else 0) = s" using assms(4,5) by auto
  moreover have "length p \<le> n" "n - length p = k" using assms(1,3) by auto
  ultimately show ?thesis
    using assms(1,2) by (cases p) (auto simp: decode_int_def read_bytes_def Let_def)
qed

lemma decode_prefixed:
  assumes "bs = replicate k s @ p" "p \<noteq> []" "length bs = n" "s = 0 \<or> s = 0xFF" "k > 0 \<or> s = 0"
  shows "decode_int le n (s # p @ rest) (Suc (length p)) = Inr (Some (byte_swap le bs))"
proof (cases k)
  case 0
  then show ?thesis using assms by (auto simp: decode_int_def read_bytes_def Let_def)
next
  case (Suc j)
  have "bs = replicate j s @ s # p" using assms(1) Suc by (simp add: replicate_app_Cons_same)
  from decode_padded [OF this _ assms(3) _ assms(4)] show ?thesis by simp
qed

lemma encode_signed_decodes:
  assumes "length bs = n" "n > 0"
  shows "decode_int le n (encode_signed bs @ rest) (length (encode_signed bs)) = Inr (Some (byte_swap le bs))"
proof -
  define s where "s = (if hd bs AND 0x80 \<noteq> 0 then 0xFF else 0 :: u8)"
  have s: "s = 0 \<or> s = 0xFF" by (simp add: s_def)
  obtain k p where p: "bs = replicate k s @ p" "skip_bytes s bs = p" "p \<noteq> []"
    using skip_bytes_split [of bs s] assms by auto
  have "k > 0" if "hd p AND 0x80 \<noteq> s AND 0x80"
  proof (rule ccontr)
    assume "\<not> k > 0"
    then have "hd p = hd bs" using p(1) by simp
    moreover have "hd bs AND 0x80 = s AND 0x80"
      by (auto simp: s_def and_high)
    ultimately show False using that by simp
  qed
  then show ?thesis
    using decode_padded [OF p(1,3) assms(1) _ s] decode_prefixed [OF p(1,3) assms(1) s]
    by (simp add: encode_signed_def Let_def s_def [symmetric] p(2))
qed

lemma encode_unsigned_decodes:
  assumes "length bs = n" "n > 0"
  shows "decode_int le n (encode_unsigned bs @ rest) (length (encode_unsigned bs)) = Inr (Some (byte_swap le bs))"
proof -
  obtain k p where p: "bs = replicate k 0 @ p" "skip_bytes 0 bs = p" "p \<noteq> []"
    using skip_bytes_split [of bs 0] assms by auto
  then show ?thesis
    using decode_padded [OF p(1,3) assms(1)] decode_prefixed [OF p(1,3) assms(1)]
    by (simp add: encode_unsigned_def Let_def)
qed

lemma skip_bytes_length: "length (skip_bytes s bs) \<le> length bs"
  by (induction s bs rule: skip_bytes.induct) auto

lemma encode_int_short:
  "bs \<noteq> [] \<Longrightarrow> length (encode_signed bs) \<le> Suc (length bs)" "bs \<noteq> [] \<Longrightarrow> length (encode_unsigned bs) \<le> Suc (length bs)"
  using skip_bytes_length [of 0 bs] skip_bytes_length [of "0xFF" bs]
  by (auto simp: encode_signed_def encode_unsigned_def Let_def)

section \<open>Object identifiers\<close>

text \<open>The groups of seven bits of a number, the highest first, all with the eighth bit set.\<close>

fun groups :: "nat \<Rightarrow> u32 \<Rightarrow> u8 list" where
  "groups 0 v = []"
| "groups (Suc j) v = groups j (drop_bit 7 v) @ [ucast (v AND 0x7F) OR 0x80]"

lemma high_groups_eq: "high_groups j v acc = groups j (drop_bit 7 v) @ acc"
  by (induction j arbitrary: v acc) (simp_all add: Let_def)

lemma bit_low: "bit (0x7F :: 'a::len word) n \<longleftrightarrow> n < 7 \<and> n < LENGTH('a)"
proof -
  have "(0x7F :: 'a word) = mask 7" by (simp add: mask_eq_exp_minus_1)
  then show ?thesis by (simp only: bit_mask_iff) auto
qed

lemma group_octet:
  "(ucast (v AND 0x7F :: u32) OR 0x80 :: u8) AND 0x80 \<noteq> 0"
  "ucast ((ucast (v AND 0x7F) OR 0x80 :: u8) AND 0x7F) = (v AND 0x7F :: u32)"
  "(ucast (v AND 0x7F :: u32) :: u8) AND 0x80 = 0"
  "ucast (ucast (v AND 0x7F :: u32) :: u8) = (v AND 0x7F :: u32)"
  "push_bit 7 (drop_bit 7 v) OR (v AND 0x7F) = (v :: u32)"
proof -
  note b = bit_or_iff bit_and_iff bit_unsigned_iff bit_high bit_low bit_push_bit_iff bit_drop_bit_eq comp_def
  have "bit (ucast (v AND 0x7F :: u32) OR 0x80 :: u8) 7" by (simp only: b) simp
  then show "(ucast (v AND 0x7F :: u32) OR 0x80 :: u8) AND 0x80 \<noteq> 0" by (simp add: and_high)
  show "ucast ((ucast (v AND 0x7F) OR 0x80 :: u8) AND 0x7F) = (v AND 0x7F :: u32)"
    by (rule bit_word_eqI) (simp only: b, auto)
  have "\<not> bit (ucast (v AND 0x7F :: u32) :: u8) 7" by (simp only: b) simp
  then show "(ucast (v AND 0x7F :: u32) :: u8) AND 0x80 = 0" by (simp add: and_high)
  show "ucast (ucast (v AND 0x7F :: u32) :: u8) = (v AND 0x7F :: u32)"
    by (rule bit_word_eqI) (simp only: b, auto)
  show "push_bit 7 (drop_bit 7 v) OR (v AND 0x7F) = v"
    by (rule bit_word_eqI) (simp only: b, auto)
qed

lemma octets_append:
  assumes "\<forall>b \<in> set hi. b AND 0x80 \<noteq> 0" "lo AND 0x80 = 0" "length hi < len"
  shows "oid_octets v (hi @ lo # rest) len =
    Inr (foldl (\<lambda>v b. push_bit 7 v OR ucast (b AND 0x7F)) v hi, lo # rest, len - length hi)"
  using assms by (induction hi arbitrary: v len) auto

lemma groups_high: "\<forall>b \<in> set (groups j v). b AND 0x80 \<noteq> 0" "length (groups j v) = j"
  by (induction j arbitrary: v) (auto simp: group_octet)

lemma groups_value: "drop_bit (7 * j) v = 0 \<Longrightarrow> foldl (\<lambda>v b. push_bit 7 v OR ucast (b AND 0x7F)) 0 (groups j v) = v"
proof (induction j arbitrary: v)
  case (Suc j)
  have "drop_bit (7 * j) (drop_bit 7 v) = 0" using Suc.prems by (simp add: add.commute)
  from Suc.IH [OF this] show ?case by (simp add: group_octet)
qed simp

lemma mask_drop: "mask n AND v = v \<Longrightarrow> drop_bit n v = (0 :: u32)"
proof -
  assume a: "mask n AND v = v"
  have "\<not> bit v (n + k)" for k
    by (subst a [symmetric]) (simp add: bit_and_iff bit_mask_iff)
  then show "drop_bit n v = 0" by (intro bit_word_eqI) (simp add: bit_drop_bit_eq)
qed

lemma encode_subid_groups:
  obtains j where "encode_subid v = groups j (drop_bit 7 v) @ [ucast (v AND 0x7F)]" "drop_bit (7 * j) (drop_bit 7 v) = 0"
proof -
  define j where "j = size_loop [0x7F, 0x3FFF, 0x1FFFFF, 0xFFFFFFF, 0xFFFFFFFF] v"
  have m: "(0x7F :: u32) = mask 7" "(0x3FFF :: u32) = mask 14" "(0x1FFFFF :: u32) = mask 21" "(0xFFFFFFF :: u32) = mask 28"
    by (simp_all add: mask_eq_exp_minus_1)
  have "drop_bit 35 v = 0" "drop_bit 42 v = 0" by (rule bit_word_eqI, simp add: bit_simps)+
  then have "drop_bit (7 * Suc j) v = 0"
    unfolding j_def m size_loop.simps using mask_drop [of 7 v] mask_drop [of 14 v] mask_drop [of 21 v] mask_drop [of 28 v]
    by (simp split: if_split)
  then have "drop_bit (7 * j) (drop_bit 7 v) = 0" by (simp add: add.commute)
  with that show ?thesis by (simp add: encode_subid_def high_groups_eq j_def)
qed

lemma decode_subid:
  assumes "length ids \<noteq> 32 \<longrightarrow> length ids < cap"
  shows "decode_oid cap ids (encode_subid v @ rest) (length (encode_subid v) + more) =
    decode_oid (if length ids = 32 then Suc more + 32 else cap) (ids @ [v]) rest more"
proof -
  obtain j where j: "encode_subid v = groups j (drop_bit 7 v) @ [ucast (v AND 0x7F)]" "drop_bit (7 * j) (drop_bit 7 v) = 0"
    by (rule encode_subid_groups)
  have "oid_octets 0 (encode_subid v @ rest) (length (encode_subid v) + more) =
      Inr (drop_bit 7 v, ucast (v AND 0x7F) # rest, Suc more)"
    using octets_append [OF groups_high(1) group_octet(3) [of v], of j "drop_bit 7 v" "Suc (j + more)" 0 rest] groups_value [OF j(2)]
    by (simp add: j(1) groups_high(2))
  then show ?thesis
    using assms by (subst decode_oid.simps) (simp add: j(1) group_octet Let_def)
qed

text \<open>The block for the identifiers has room for one more as long as octets remain.\<close>

definition room :: "nat \<Rightarrow> u32 list \<Rightarrow> nat \<Rightarrow> bool" where
  "room cap ids len \<longleftrightarrow> length ids \<le> 32 \<and> 32 \<le> cap \<or> length ids + len \<le> cap"

lemma encode_subid_length: "length (encode_subid v) \<ge> 1"
  by (rule encode_subid_groups [of v]) simp

lemma decode_subids:
  "room cap ids (length (concat (map encode_subid vs))) \<Longrightarrow>
   decode_oid cap ids (concat (map encode_subid vs) @ rest) (length (concat (map encode_subid vs))) = Inr (ids @ vs)"
proof (induction vs arbitrary: cap ids)
  case Nil
  then show ?case by (simp add: decode_oid.simps)
next
  case (Cons v vs)
  let ?n = "length (concat (map encode_subid vs))"
  have r: "length ids \<noteq> 32 \<longrightarrow> length ids < cap" "room (if length ids = 32 then Suc ?n + 32 else cap) (ids @ [v]) ?n"
    using Cons.prems encode_subid_length [of v] by (auto simp: room_def)
  from decode_subid [OF r(1), of v "concat (map encode_subid vs) @ rest" ?n] Cons.IH [OF r(2)] show ?case by simp
qed

text \<open>With one readable octet after the content the decoder never leaves the memory it may use.\<close>

lemma octets_safe:
  "len < length mem \<Longrightarrow> \<exists>v' mem' len'. oid_octets v mem len = Inr (v', mem', len') \<and> len' < length mem'"
  by (induction v mem len rule: oid_octets.induct) auto

lemma decode_oid_safe:
  "len < length mem \<Longrightarrow> room cap ids len \<Longrightarrow> \<exists>ids'. decode_oid cap ids mem len = Inr ids'"
proof (induction cap ids mem len rule: decode_oid.induct)
  case (1 cap ids mem len)
  show ?case
  proof (cases "len = 0")
    case False
    obtain v mem' len' where o: "oid_octets 0 mem len = Inr (v, mem', len')" "len' < length mem'"
      using octets_safe [OF 1(2)] by blast
    define cap' where "cap' = (if length ids = 32 then len' + 32 else cap)"
    have r: "length ids < cap'" "room cap' (ids @ [x]) (len' - 1)" if "len' > 0" for x
      using that 1(3) oid_octets_len [OF o(1)] by (auto simp: room_def cap'_def)
    show ?thesis
    proof (cases "len' > 0")
      case True
      have "\<exists>ids'. decode_oid cap' (ids @ [push_bit 7 v OR ucast (hd mem')]) (tl mem') (len' - 1) = Inr ids'"
        by (rule 1(1) [OF False o(1) refl refl True cap'_def r(1) [OF True] _ r(2) [OF True]]) (use o(2) True in auto)
      then show ?thesis
        using False o(1) True r(1) by (subst decode_oid.simps) (simp add: Let_def cap'_def [symmetric])
    qed (use False o(1) in \<open>simp add: decode_oid.simps\<close>)
  qed (simp add: decode_oid.simps)
qed

section \<open>The identifier\<close>

lemma be_value_snoc: "be_value (bs @ [b]) = be_value bs * 256 + unat b"
  by (simp add: be_value_def)

lemma be_bytes_length [simp]: "length (be_bytes k n) = k"
  by (induction k arbitrary: n) simp_all

lemma be_round_trip: "be_value (be_bytes k n) = n mod 256 ^ k"
proof (induction k arbitrary: n)
  case (Suc k)
  have "be_value (be_bytes (Suc k) n) = (n div 256 mod 256 ^ k) * 256 + n mod 256"
    by (simp add: be_value_snoc Suc.IH unat_of_nat)
  then show ?case by (simp add: mod_mult2_eq mult.commute)
qed (simp add: be_value_def)

lemma length_octet:
  assumes "n < 128"
  shows "(of_nat n :: u8) AND 0x80 = 0" "unat (of_nat n :: u8) = n"
proof -
  show u: "unat (of_nat n :: u8) = n" using assms by (simp add: unat_of_nat)
  have "\<not> bit n 7" using assms by (simp add: bit_iff_odd)
  then have "\<not> bit (of_nat n :: u8) 7" by (simp add: bit_of_nat_iff)
  then show "(of_nat n :: u8) AND 0x80 = 0" by (simp add: and_high)
qed

lemma header_octet:
  assumes "1 \<le> h" "h \<le> 4"
  shows "(0x80 OR of_nat h :: u8) AND 0x80 \<noteq> 0" "unat ((0x80 OR of_nat h :: u8) AND 0x7F) = h"
proof -
  have "h = 1 \<or> h = 2 \<or> h = 3 \<or> h = 4" using assms by auto
  then show "(0x80 OR of_nat h :: u8) AND 0x80 \<noteq> 0" "unat ((0x80 OR of_nat h :: u8) AND 0x7F) = h" by auto
qed

lemma type_octet: "type < 256 \<Longrightarrow> ucast (ucast type :: u8) = (type :: u32)"
proof -
  assume "type < 256"
  then have "unat type < 2 ^ 8" by (simp add: word_less_nat_alt)
  then have "unat (ucast (ucast type :: u8) :: u32) = unat type" by (simp add: unsigned_ucast_eq unsigned_take_bit_eq take_bit_nat_eq_self)
  then show "ucast (ucast type :: u8) = type" by (rule unsigned_word_eqI)
qed

lemma decode_short:
  assumes "type < 256" "length content = n" "n < 128"
  shows "BER_DecodeIdentifier (ucast type # of_nat n # content @ rest) = Some (type, n, content @ rest, 2)"
proof -
  have "ucast (ucast type :: u8) = type" by (rule type_octet [OF assms(1)])
  then show ?thesis using assms(2,3) by (simp add: BER_DecodeIdentifier_def Let_def length_octet)
qed

lemma decode_long:
  assumes "type < 256" "length content = n" "n < 2 ^ 32" "hdr = skip_bytes 0 (be_bytes 4 n)"
  shows "BER_DecodeIdentifier (ucast type # (0x80 OR of_nat (length hdr)) # hdr @ content @ rest) =
    Some (type, n, content @ rest, 2 + length hdr)"
proof -
  have t: "ucast (ucast type :: u8) = type" by (rule type_octet [OF assms(1)])
  have "be_bytes 4 n \<noteq> []" by (metis be_bytes_length list.size(3) zero_neq_numeral)
  then obtain k where k: "be_bytes 4 n = replicate k 0 @ hdr" "hdr \<noteq> []"
    using skip_bytes_split [of "be_bytes 4 n" 0] assms(4) by metis
  have "k + length hdr = 4" using arg_cong [OF k(1), of length] be_bytes_length [of 4 n] by simp
  then have h: "1 \<le> length hdr" "length hdr \<le> 4" "k = 4 - length hdr" using k(2) by (auto simp: Suc_le_eq)
  have "be_value (replicate (4 - length hdr) 0 @ hdr) = n"
    using be_round_trip [of 4 n] assms(3) k(1) h(3) by simp
  then show ?thesis
    using h(1,2) assms(2) t k(2) by (simp add: BER_DecodeIdentifier_def Let_def header_octet [OF h(1,2)])
qed

section \<open>Round trip\<close>

abbreviation (input) "int32_types \<equiv> {ASN_INTEGER, ASN_COUNTER32, ASN_GAUGE32, ASN_TIMETICKS, ASN_UINTEGER32}"
abbreviation (input) "int64_types \<equiv> {ASN_COUNTER64, ASN_INTEGER64, ASN_UINTEGER64}"

text \<open>
  Data that has the size of its type. The first two elements of an object identifier share one
  octet.
\<close>

definition well_sized :: "bool \<Rightarrow> u32 \<Rightarrow> u8 list \<Rightarrow> bool" where
  "well_sized le type data \<longleftrightarrow>
     (type \<in> int32_types \<or> type = ASN_FLOAT \<longrightarrow> length data = 4) \<and>
     (type \<in> int64_types \<or> type = ASN_DOUBLE \<longrightarrow> length data = 8) \<and>
     (type = ASN_NULL \<longrightarrow> data = []) \<and>
     (type = ASN_OBJECT_ID \<longrightarrow> (case words_of le data of
        a # b # rest \<Rightarrow> unat b < 40 \<and> unat a * 40 + unat b < 256 | _ \<Rightarrow> False))"

definition content_of :: "bool \<Rightarrow> u32 \<Rightarrow> u8 list \<Rightarrow> ber_content" where
  "content_of le type data = (if type = ASN_OBJECT_ID then Oid (words_of le data) else Memory data)"

lemma byte_swap_twice [simp]: "byte_swap le (byte_swap le bs) = bs" "length (byte_swap le bs) = length bs"
  by (simp_all add: byte_swap_def)

lemma first_octet:
  fixes a b :: u32
  assumes "unat b < 40" "unat a * 40 + unat b < 256" "o' = (ucast a * 40 + ucast b :: u8)"
  shows "ucast (o' div 40) = a" "ucast (o' mod 40) = b"
proof -
  have s: "unat a < 256" "unat b < 256" using assms(1,2) by linarith+
  have "unat (ucast a :: u8) = unat a" "unat (ucast b :: u8) = unat b"
    using s by (simp_all add: unsigned_ucast_eq unsigned_take_bit_eq take_bit_nat_eq_self)
  then have "unat o' = (unat a * 40 + unat b) mod 256" using assms(3) by (simp add: unat_word_ariths mod_simps)
  then have o: "unat o' = unat a * 40 + unat b" using assms(2) by simp
  then have "unat (o' div 40) = unat a" "unat (o' mod 40) = unat b"
    using assms(1) by (simp_all add: unat_div unat_mod)
  then have "unat (ucast (o' div 40) :: u32) = unat a" "unat (ucast (o' mod 40) :: u32) = unat b"
    using s by (simp_all add: unsigned_ucast_eq take_bit_nat_eq_self)
  then show "ucast (o' div 40) = a" "ucast (o' mod 40) = b" by (auto intro: unsigned_word_eqI)
qed

lemma oid_decodes:
  assumes "ids = a # b # vs" "unat b < 40" "unat a * 40 + unat b < 256" "content = encode_oid ids"
  shows "BER_DecodeContent le ASN_OBJECT_ID (content @ rest) (length content) = Inr (Some (Oid ids))"
proof -
  let ?o = "ucast a * 40 + ucast b :: u8"
  have c: "content = ?o # concat (map encode_subid vs)" using assms(1,4) by (simp add: encode_oid_def)
  have "decode_oid 32 [a, b] (concat (map encode_subid vs) @ rest) (length (concat (map encode_subid vs))) = Inr ([a, b] @ vs)"
    by (rule decode_subids) (simp add: room_def)
  with first_octet [OF assms(2,3) refl] assms(1) show ?thesis
    by (simp add: BER_DecodeContent_def read_bytes_def c)
qed

lemma content_decodes:
  assumes "well_sized le type data" "EncodeContent le type data = Inr content"
  shows "BER_DecodeContent le type (content @ rest) (length content) = Inr (Some (content_of le type data))"
proof -
  have i: "BER_DecodeContent le type (content @ rest) (length content) = Inr (Some (Memory data))"
    if "type \<in> T" "(T, n) \<in> {(int32_types, 4), (int64_types, 8)}" "length data = n"
      "content = encode_signed (byte_swap le data) \<or> content = encode_unsigned (byte_swap le data)" for T n
    using that encode_signed_decodes [of "byte_swap le data" n le rest] encode_unsigned_decodes [of "byte_swap le data" n le rest]
    by (auto simp: BER_DecodeContent_def Let_def)
  consider "type \<in> int32_types" | "type \<in> int64_types" | "type = ASN_OBJECT_ID" |
    "type \<notin> int32_types" "type \<notin> int64_types" "type \<noteq> ASN_OBJECT_ID" by blast
  then show ?thesis
  proof cases
    case 1
    then have "length data = 4" using assms(1) by (auto simp: well_sized_def)
    with i [of int32_types 4] 1 assms(2) show ?thesis by (auto simp: EncodeContent_def Let_def content_of_def)
  next
    case 2
    then have "length data = 8" using assms(1) by (auto simp: well_sized_def)
    with i [of int64_types 8] 2 assms(2) show ?thesis by (auto simp: EncodeContent_def Let_def content_of_def)
  next
    case 3
    then obtain a b vs where "words_of le data = a # b # vs" "unat b < 40" "unat a * 40 + unat b < 256"
      using assms(1) by (auto simp: well_sized_def split: list.splits)
    with oid_decodes [OF this, of content le rest] 3 assms(2) show ?thesis by (simp add: EncodeContent_def Let_def content_of_def)
  next
    case 4
    then show ?thesis
      using assms by (auto simp: EncodeContent_def BER_DecodeContent_def Let_def content_of_def well_sized_def read_bytes_def split: if_splits)
  qed
qed

text \<open>
  C23. What the encoder writes the decoder reads back: for every type and data of the size of the
  type, when the encoded content fits the block and the buffer, \<^verbatim>\<open>BER_Encode\<close> succeeds, and on
  its output, with anything after it, \<^verbatim>\<open>BER_DecodeIdentifier\<close> finds the type and exactly the
  content, from which \<^verbatim>\<open>BER_DecodeContent\<close> restores the data or the object identifier.
\<close>

theorem ber_round_trip:
  assumes "type < 256" "well_sized le type data" "EncodeContent le type data = Inr content"
    "length content \<le> usable (length data)" "length content + 6 \<le> bufferSize" "length content < 2 ^ 32"
  shows "\<exists>out idLength. BER_Encode le usable type data bufferSize = Inr out \<and> length out = idLength + length content \<and>
    BER_DecodeIdentifier (out @ rest) = Some (type, length content, content @ rest, idLength) \<and>
    BER_DecodeContent le type (content @ rest) (length content) = Inr (Some (content_of le type data))"
proof -
  let ?hdr = "skip_bytes 0 (be_bytes 4 (length content))"
  have h: "length ?hdr \<le> 4" using skip_bytes_length [of 0 "be_bytes 4 (length content)"] by simp
  have d: "BER_DecodeContent le type (content @ rest) (length content) = Inr (Some (content_of le type data))"
    by (rule content_decodes [OF assms(2,3)])
  show ?thesis
  proof (cases "length content < 128")
    case True
    with decode_short [OF assms(1) refl True, of rest] d assms(3-5) show ?thesis by (simp add: BER_Encode_def Let_def)
  next
    case False
    with decode_long [OF assms(1) refl assms(6) refl, of rest] d assms(3-5) h show ?thesis by (simp add: BER_Encode_def Let_def)
  qed
qed

theorem ber_round_trip_witness:
  "\<exists>out idLength. BER_Encode True (\<lambda>n. n + 1) ASN_COUNTER32 [0, 0, 0, 0x80] 64 = Inr out \<and> length out = idLength + 5 \<and>
    BER_DecodeIdentifier (out @ []) = Some (ASN_COUNTER32, 5, [0, 0x80, 0, 0, 0], idLength) \<and>
    BER_DecodeContent True ASN_COUNTER32 [0, 0x80, 0, 0, 0] 5 = Inr (Some (Memory [0, 0, 0, 0x80]))"
proof -
  have c: "EncodeContent True ASN_COUNTER32 [0, 0, 0, 0x80] = Inr [0, 0x80, 0, 0, 0]"
    by (simp add: EncodeContent_def byte_swap_def encode_unsigned_def Let_def)
  have l: "length [0, 0x80, 0, 0, 0 :: u8] = 5" by simp
  show ?thesis
    using ber_round_trip [OF _ _ c, of "\<lambda>n. n + 1" 64 "[]", unfolded l] by (simp add: well_sized_def content_of_def)
qed

text \<open>
  The block for the encoded content is too small when the encoding is longer than the value in
  memory: an unsigned number with the highest bit set needs an octet more, and an object
  identifier needs five octets for each large element.
\<close>

lemma encode_overflows_block:
  "BER_Encode True (\<lambda>n. n) ASN_COUNTER32 [0, 0, 0, 0x80] 64 = Inl Bad_access"
  by (simp add: BER_Encode_def EncodeContent_def byte_swap_def encode_unsigned_def Let_def)

text \<open>An object identifier that ends within an element makes the decoder read the octet after the content.\<close>

lemma decode_reads_past_end: "BER_DecodeContent le ASN_OBJECT_ID [0x2B, 0x81] 2 = Inl Bad_access"
  by (simp add: BER_DecodeContent_def read_bytes_def decode_oid.simps)

end
