(* ===== verification/Nx_SnmpWalk.thy ===== *)
theory Nx_SnmpWalk
  imports Nx_Oid_Text Nx_Ber
begin

text \<open>
  The walk over a subtree of an SNMP agent (\<^verbatim>\<open>src/src/snmp/libnxsnmp/util.cpp\<close>). Agents may answer
  out of order, so the walk does not insist on increasing names. It stops a cycle in the answers
  by a ring of recent hashes and by a milestone that is refreshed at the powers of two.

  The device behind the transport, the shutdown flag and the callback are parameters; the
  device and the flag may answer differently in each round. Names longer than the local array
  of \<^verbatim>\<open>MAX_OID_LEN\<close> elements are the fault \<open>Bad_access\<close>. The loop has fuel: it returns None when
  it takes more rounds than that.
\<close>

section \<open>The loop\<close>

abbreviation (input) "SNMP_WALK_LOOP_DETECT_RING_SIZE \<equiv> (256 :: nat)"
abbreviation (input) "SNMP_ERR_SUCCESS \<equiv> (0 :: u32)"
abbreviation (input) "SNMP_ERR_COMM \<equiv> (4 :: u32)"
abbreviation (input) "SNMP_ERR_BAD_OID \<equiv> (8 :: u32)"
abbreviation (input) "SNMP_ERR_AGENT \<equiv> (9 :: u32)"
abbreviation (input) "SNMP_ERR_ABORTED \<equiv> (21 :: u32)"
abbreviation (input) "SNMP_PDU_ERR_SUCCESS \<equiv> (0 :: u32)"
abbreviation (input) "SNMP_PDU_ERR_NO_SUCH_NAME \<equiv> (2 :: u32)"
abbreviation (input) "ASN_NO_SUCH_OBJECT \<equiv> (0x80 :: u32)"
abbreviation (input) "ASN_NO_SUCH_INSTANCE \<equiv> (0x81 :: u32)"
abbreviation (input) "ASN_END_OF_MIBVIEW \<equiv> (0x82 :: u32)"

definition HashObjectId :: "bool \<Rightarrow> u32 list \<Rightarrow> u64" where
  "HashObjectId le ids =
     foldl (\<lambda>h b. (h XOR ucast b) * 0x100000001B3) 0xCBF29CE484222325
       (concat (map (\<lambda>v. byte_swap le (be_bytes 4 (unat v))) ids))"

record 'v snmp_var =
  sv_type :: u32
  sv_name :: "u32 list"
  sv_value :: 'v

record 'v walk_response =
  wr_result :: u32
  wr_errorCode :: u32
  wr_variables :: "'v snmp_var list"

record ('v, 'h) walk_env =
  we_shutdown :: "nat \<Rightarrow> bool"
  we_request :: "nat \<Rightarrow> u32 list \<Rightarrow> 'v walk_response"
  we_handler :: "'v snmp_var \<Rightarrow> 'h \<Rightarrow> u32 \<times> 'h"

text \<open>The local variables of the loop, the state of the callback and the number of rounds.\<close>

record 'h walk =
  wk_name :: "u32 list"
  wk_recentHashes :: "u64 list"
  wk_recentCount :: nat
  wk_recentNext :: nat
  wk_walkIteration :: u64
  wk_milestoneIteration :: u64
  wk_milestoneHash :: u64
  wk_context :: 'h
  wk_round :: nat

definition is_end_type :: "u32 \<Rightarrow> bool" where
  "is_end_type t \<longleftrightarrow> t = ASN_NO_SUCH_OBJECT \<or> t = ASN_NO_SUCH_INSTANCE \<or> t = ASN_END_OF_MIBVIEW"

text \<open>
  The treatment of a variable inside the subtree: None when loop detection stops the walk,
  otherwise the variables of the loop after the hash was entered.
\<close>

definition detect_loop :: "bool \<Rightarrow> u32 list \<Rightarrow> 'h walk \<Rightarrow> 'h walk option" where
  "detect_loop le name w =
     (let cr = compare_oid name (wk_name w); responseHash = HashObjectId le name;
          w1 = w\<lparr> wk_walkIteration := wk_walkIteration w + 1 \<rparr>;
          refresh = (wk_walkIteration w1 = wk_milestoneIteration w1);
          w2 = (if refresh
                then w1\<lparr> wk_milestoneHash := responseHash, wk_milestoneIteration := wk_milestoneIteration w1 * 2 \<rparr>
                else w1)
      in if cr = OID_EQUAL then None
         else if \<not> refresh \<and> responseHash = wk_milestoneHash w1 then None
         else if (cr = OID_PRECEDING \<or> cr = OID_SHORTER)
                 \<and> responseHash \<in> set (take (wk_recentCount w2) (wk_recentHashes w2)) then None
         else Some (w2\<lparr>
           wk_recentHashes := (wk_recentHashes w2)[wk_recentNext w2 := responseHash],
           wk_recentNext := (wk_recentNext w2 + 1) mod SNMP_WALK_LOOP_DETECT_RING_SIZE,
           wk_recentCount := (if wk_recentCount w2 < SNMP_WALK_LOOP_DETECT_RING_SIZE
                              then wk_recentCount w2 + 1 else wk_recentCount w2) \<rparr>))"

text \<open>One round: a result when the loop is left, and the variables after the round.\<close>

definition walk_step ::
  "bool \<Rightarrow> bool \<Rightarrow> ('v, 'h) walk_env \<Rightarrow> u32 list \<Rightarrow> 'h walk \<Rightarrow> fault + u32 option \<times> 'h walk" where
  "walk_step le failOnShutdown env root w =
     (let response = we_request env (wk_round w) (wk_name w); w0 = w\<lparr> wk_round := wk_round w + 1 \<rparr> in
      if failOnShutdown \<and> we_shutdown env (wk_round w) then Inr (Some SNMP_ERR_ABORTED, w)
      else if wr_result response \<noteq> SNMP_ERR_SUCCESS then Inr (Some (wr_result response), w0)
      else if wr_variables response = [] \<or> wr_errorCode response \<noteq> SNMP_PDU_ERR_SUCCESS then
        Inr (Some (if wr_errorCode response \<noteq> SNMP_PDU_ERR_NO_SUCH_NAME then SNMP_ERR_AGENT else SNMP_ERR_SUCCESS), w0)
      else (let var = hd (wr_variables response); name = sv_name var in
        if is_end_type (sv_type var) then Inr (Some SNMP_ERR_SUCCESS, w0)
        else if length name < length root \<or> take (length root) name \<noteq> root then Inr (Some SNMP_ERR_SUCCESS, w0)
        else (case detect_loop le name w0 of
            None \<Rightarrow> Inr (Some SNMP_ERR_SUCCESS, w0)
          | Some w1 \<Rightarrow>
              if length name > MAX_OID_LEN then Inl Bad_access
              else (let (rc, ctx) = we_handler env var (wk_context w1) in
                Inr (if rc \<noteq> SNMP_ERR_SUCCESS then Some rc else None, w1\<lparr> wk_name := name, wk_context := ctx \<rparr>)))))"

fun walk_loop ::
  "nat \<Rightarrow> bool \<Rightarrow> bool \<Rightarrow> ('v, 'h) walk_env \<Rightarrow> u32 list \<Rightarrow> 'h walk \<Rightarrow> (fault + u32 \<times> 'h) option" where
  "walk_loop 0 le failOnShutdown env root w = None"
| "walk_loop (Suc fuel) le failOnShutdown env root w =
     (case walk_step le failOnShutdown env root w of
        Inl f \<Rightarrow> Some (Inl f)
      | Inr (Some rc, w') \<Rightarrow> Some (Inr (rc, wk_context w'))
      | Inr (None, w') \<Rightarrow> walk_loop fuel le failOnShutdown env root w')"

text \<open>The entries of the ring that were not written yet are never read; they are zero here.\<close>

definition walk_init :: "u32 list \<Rightarrow> 'h \<Rightarrow> 'h walk" where
  "walk_init root ctx =
     \<lparr> wk_name = root, wk_recentHashes = replicate SNMP_WALK_LOOP_DETECT_RING_SIZE 0, wk_recentCount = 0,
       wk_recentNext = 0, wk_walkIteration = 0, wk_milestoneIteration = 1, wk_milestoneHash = 0,
       wk_context = ctx, wk_round = 0 \<rparr>"

definition SnmpWalk ::
  "nat \<Rightarrow> bool \<Rightarrow> ('v, 'h) walk_env option \<Rightarrow> u32 list \<Rightarrow> bool \<Rightarrow> 'h \<Rightarrow> (fault + u32 \<times> 'h) option" where
  "SnmpWalk fuel le transport root failOnShutdown ctx =
     (case transport of
        None \<Rightarrow> Some (Inr (SNMP_ERR_COMM, ctx))
      | Some env \<Rightarrow>
          if length root > MAX_OID_LEN then Some (Inl Bad_access)
          else walk_loop fuel le failOnShutdown env root (walk_init root ctx))"

definition SnmpWalk_text ::
  "nat \<Rightarrow> bool \<Rightarrow> ('v, 'h) walk_env option \<Rightarrow> wstr \<Rightarrow> bool \<Rightarrow> 'h \<Rightarrow> (fault + u32 \<times> 'h) option" where
  "SnmpWalk_text fuel le transport rootOid failOnShutdown ctx =
     (if transport = None then Some (Inr (SNMP_ERR_COMM, ctx))
      else (let root = SnmpParseOID rootOid MAX_OID_LEN in
        if root = [] then Some (Inr (SNMP_ERR_BAD_OID, ctx))
        else SnmpWalk fuel le transport root failOnShutdown ctx))"

definition WalkCountHandler :: "'v snmp_var \<Rightarrow> int \<Rightarrow> u32 \<times> int" where
  "WalkCountHandler var n = (SNMP_ERR_SUCCESS, n + 1)"

text \<open>The callback of the environment is replaced by the counting one; walks do not fail on shutdown here.\<close>

definition SnmpWalkCount :: "nat \<Rightarrow> bool \<Rightarrow> ('v, int) walk_env option \<Rightarrow> u32 list \<Rightarrow> (fault + int) option" where
  "SnmpWalkCount fuel le transport root =
     map_option (\<lambda>r. sum_bind r (\<lambda>(rc, n). Inr (if rc \<noteq> SNMP_ERR_SUCCESS then - 1 else n)))
       (SnmpWalk fuel le (map_option (\<lambda>env. env\<lparr> we_handler := WalkCountHandler \<rparr>) transport) root False 0)"

section \<open>What a round that continues does\<close>

lemma detect_loop_fields:
  assumes "detect_loop le name w = Some w'"
  shows "wk_context w' = wk_context w" and "wk_round w' = wk_round w" and "compare_oid name (wk_name w) \<noteq> OID_EQUAL"
    and "wk_walkIteration w' = wk_walkIteration w + 1"
    and "wk_walkIteration w + 1 = wk_milestoneIteration w \<Longrightarrow>
      wk_milestoneHash w' = HashObjectId le name \<and> wk_milestoneIteration w' = wk_milestoneIteration w * 2"
    and "wk_walkIteration w + 1 \<noteq> wk_milestoneIteration w \<Longrightarrow>
      HashObjectId le name \<noteq> wk_milestoneHash w \<and> wk_milestoneHash w' = wk_milestoneHash w
      \<and> wk_milestoneIteration w' = wk_milestoneIteration w"
  using assms by (auto simp: detect_loop_def Let_def split: if_splits)

lemma walk_step_continues:
  assumes "walk_step le fos env root w = Inr (None, w')"
  obtains v w1 ctx where "wr_variables (we_request env (wk_round w) (wk_name w)) \<noteq> []"
    and "v = hd (wr_variables (we_request env (wk_round w) (wk_name w)))"
    and "detect_loop le (sv_name v) (w\<lparr> wk_round := wk_round w + 1 \<rparr>) = Some w1"
    and "w' = w1\<lparr> wk_name := sv_name v, wk_context := ctx \<rparr>"
  using assms by (auto simp: walk_step_def Let_def split: if_splits option.splits prod.splits)

lemma walk_step_safe:
  assumes "\<And>v. v \<in> set (wr_variables (we_request env (wk_round w) (wk_name w))) \<Longrightarrow> length (sv_name v) \<le> MAX_OID_LEN"
  obtains rc w' where "walk_step le fos env root w = Inr (rc, w')"
proof -
  let ?vs = "wr_variables (we_request env (wk_round w) (wk_name w))"
  have "?vs \<noteq> [] \<Longrightarrow> length (sv_name (hd ?vs)) \<le> MAX_OID_LEN" using assms by simp
  then have "\<exists>r. walk_step le fos env root w = Inr r"
    by (auto simp: walk_step_def Let_def split: option.split prod.split)
  then show thesis using that by auto
qed

section \<open>The walk ends\<close>

text \<open>The device gives the same answer to the same question in every round.\<close>

definition stateless :: "('v, 'h) walk_env \<Rightarrow> bool" where
  "stateless env \<longleftrightarrow> (\<forall>n. we_request env n = we_request env 0)"

text \<open>All names that occur in answers.\<close>

definition answers_in :: "u32 list set \<Rightarrow> ('v, 'h) walk_env \<Rightarrow> bool" where
  "answers_in S env \<longleftrightarrow> (\<forall>n x v. v \<in> set (wr_variables (we_request env n x)) \<longrightarrow> sv_name v \<in> S)"

definition next_name :: "('v, 'h) walk_env \<Rightarrow> u32 list \<Rightarrow> u32 list" where
  "next_name env x = sv_name (hd (wr_variables (we_request env 0 x)))"

text \<open>The variables of the loop after \<open>n\<close> rounds that all continued.\<close>

fun walk_after :: "nat \<Rightarrow> bool \<Rightarrow> bool \<Rightarrow> ('v, 'h) walk_env \<Rightarrow> u32 list \<Rightarrow> 'h walk \<Rightarrow> 'h walk option" where
  "walk_after 0 le fos env root w = Some w"
| "walk_after (Suc n) le fos env root w =
     (case walk_after n le fos env root w of
        None \<Rightarrow> None
      | Some w1 \<Rightarrow> (case walk_step le fos env root w1 of Inr (None, w2) \<Rightarrow> Some w2 | _ \<Rightarrow> None))"

lemma walk_after_first:
  "walk_after (Suc n) le fos env root w =
     (case walk_step le fos env root w of Inr (None, w1) \<Rightarrow> walk_after n le fos env root w1 | _ \<Rightarrow> None)"
  by (induction n) (auto split: sum.split prod.split option.split)

lemma walk_loop_None: "walk_loop n le fos env root w = None \<longleftrightarrow> walk_after n le fos env root w \<noteq> None"
proof (induction n arbitrary: w)
  case (Suc n)
  then show ?case by (auto simp: walk_after_first simp del: walk_after.simps(2) split: sum.split prod.split option.split)
qed simp

lemma walk_after_prefix: "walk_after n le fos env root w \<noteq> None \<Longrightarrow> m \<le> n \<Longrightarrow> walk_after m le fos env root w \<noteq> None"
  by (induction n) (auto simp: le_Suc_eq split: option.splits)

text \<open>
  After \<open>n\<close> rounds the name is the \<open>n\<close>-th iterate, and the milestone is the hash of the iterate at
  the largest power of two up to \<open>n\<close>.
\<close>

definition tracks :: "bool \<Rightarrow> ('v, 'h) walk_env \<Rightarrow> u32 list \<Rightarrow> nat \<Rightarrow> 'h walk \<Rightarrow> bool" where
  "tracks le env root n w \<longleftrightarrow>
     wk_name w = (next_name env ^^ n) root \<and> unat (wk_walkIteration w) = n
     \<and> (n = 0 \<longrightarrow> wk_milestoneIteration w = 1)
     \<and> (n > 0 \<longrightarrow> (\<exists>k. 2 ^ k \<le> n \<and> n < 2 ^ Suc k \<and> unat (wk_milestoneIteration w) = 2 ^ Suc k
          \<and> wk_milestoneHash w = HashObjectId le ((next_name env ^^ (2 ^ k)) root)))"

lemma tracks_init: "tracks le env root 0 (walk_init root ctx)"
  by (simp add: tracks_def walk_init_def)

lemma unat_Suc: "unat (x :: u64) < 2 ^ 63 \<Longrightarrow> unat (x + 1) = Suc (unat x)"
  by (simp add: unat_word_ariths)

lemma unat_double: "unat (x :: u64) < 2 ^ 63 \<Longrightarrow> unat (x * 2) = 2 * unat x"
  by (simp add: unat_word_ariths)

lemma power_between:
  assumes "(2 :: nat) ^ k \<le> n" and "n < 2 ^ Suc k" and "2 ^ l \<le> n" and "n < 2 ^ Suc l"
  shows "k = l"
proof -
  have "(2 :: nat) ^ k < 2 ^ Suc l" "(2 :: nat) ^ l < 2 ^ Suc k" using assms by linarith+
  then have "k < Suc l" "l < Suc k" by (simp_all only: power_strict_increasing_iff)
  then show ?thesis by simp
qed

lemma milestone_bound:
  assumes "tracks le env root n w" and "n < 2 ^ 62"
  shows "unat (wk_milestoneIteration w) < 2 ^ 63"
proof (cases "n = 0")
  case False
  then obtain k where k: "2 ^ k \<le> n" "unat (wk_milestoneIteration w) = 2 ^ Suc k"
    using assms(1) by (auto simp: tracks_def)
  then have "(2 :: nat) ^ k < 2 ^ 62" using assms(2) by linarith
  then show ?thesis using k(2) by simp
qed (use assms in \<open>simp add: tracks_def\<close>)

lemma stateless_request: "stateless env \<Longrightarrow> we_request env n = we_request env 0"
  unfolding stateless_def by blast

lemma tracks_step:
  assumes t: "tracks le env root n w" and step: "walk_step le fos env root w = Inr (None, w')"
    and "stateless env" and n: "n < 2 ^ 62"
  shows "tracks le env root (Suc n) w'"
    and "unat (wk_milestoneIteration w) \<noteq> Suc n \<Longrightarrow>
      HashObjectId le ((next_name env ^^ Suc n) root) \<noteq> wk_milestoneHash w"
proof -
  obtain v w1 ctx where v: "v = hd (wr_variables (we_request env (wk_round w) (wk_name w)))"
    and d: "detect_loop le (sv_name v) (w\<lparr> wk_round := wk_round w + 1 \<rparr>) = Some w1"
    and w': "w' = w1\<lparr> wk_name := sv_name v, wk_context := ctx \<rparr>"
    by (rule walk_step_continues [OF step])
  have name: "sv_name v = (next_name env ^^ Suc n) root"
    using t v stateless_request [OF assms(3), of "wk_round w"] by (simp add: tracks_def next_name_def)
  note f = detect_loop_fields [OF d, simplified]
  have it: "unat (wk_walkIteration w + 1) = Suc n" using t n by (simp add: tracks_def unat_Suc)
  have eq: "wk_walkIteration w + 1 = wk_milestoneIteration w \<longleftrightarrow> unat (wk_milestoneIteration w) = Suc n"
    using it by (metis word_unat_eq_iff)
  show "HashObjectId le ((next_name env ^^ Suc n) root) \<noteq> wk_milestoneHash w"
    if "unat (wk_milestoneIteration w) \<noteq> Suc n"
    using f(6) eq that name by simp
  have base: "wk_name w' = (next_name env ^^ Suc n) root \<and> unat (wk_walkIteration w') = Suc n"
    using name it f(4) w' by simp
  have "\<exists>k. 2 ^ k \<le> Suc n \<and> Suc n < 2 ^ Suc k \<and> unat (wk_milestoneIteration w') = 2 ^ Suc k
      \<and> wk_milestoneHash w' = HashObjectId le ((next_name env ^^ (2 ^ k)) root)"
  proof (cases "unat (wk_milestoneIteration w) = Suc n")
    case True
    have m: "wk_milestoneHash w' = HashObjectId le (sv_name v)" "wk_milestoneIteration w' = wk_milestoneIteration w * 2"
      using f(5) eq True w' by simp_all
    have "\<exists>k. Suc n = 2 ^ k"
    proof (cases "n = 0")
      case True
      then show ?thesis by (intro exI [of _ 0]) simp
    next
      case False
      then show ?thesis using t True by (auto simp: tracks_def simp del: power_Suc)
    qed
    then obtain k where k: "Suc n = 2 ^ k" by blast
    have "unat (wk_milestoneIteration w') = 2 ^ Suc k"
      using unat_double [OF milestone_bound [OF t n]] m(2) True k by simp
    then show ?thesis using m(1) name k by (intro exI [of _ k]) simp
  next
    case False
    have m: "wk_milestoneHash w' = wk_milestoneHash w" "wk_milestoneIteration w' = wk_milestoneIteration w"
      using f(6) eq False w' by simp_all
    have "n \<noteq> 0" using t False by (auto simp: tracks_def)
    then obtain k where k: "2 ^ k \<le> n" "n < 2 ^ Suc k" "unat (wk_milestoneIteration w) = 2 ^ Suc k"
        "wk_milestoneHash w = HashObjectId le ((next_name env ^^ (2 ^ k)) root)"
      using t by (auto simp: tracks_def)
    then show ?thesis using m False by (intro exI [of _ k]) auto
  qed
  with base show "tracks le env root (Suc n) w'" by (simp add: tracks_def)
qed

lemma walk_after_tracks:
  assumes "stateless env" and "n \<le> 2 ^ 62" and "walk_after n le fos env root (walk_init root ctx) = Some w"
  shows "tracks le env root n w"
  using assms(2,3)
proof (induction n arbitrary: w)
  case 0
  then show ?case using tracks_init [of le env root ctx] by simp
next
  case (Suc n)
  then obtain w1 where "walk_after n le fos env root (walk_init root ctx) = Some w1"
      "walk_step le fos env root w1 = Inr (None, w)"
    by (auto split: option.splits sum.splits prod.splits)
  then show ?case using Suc tracks_step(1) [of le env root n w1 fos w] assms(1) by simp
qed

lemma walk_after_Suc:
  assumes "walk_after (Suc n) le fos env root w0 \<noteq> None"
  obtains w w' where "walk_after n le fos env root w0 = Some w" and "walk_step le fos env root w = Inr (None, w')"
    and "walk_after (Suc n) le fos env root w0 = Some w'"
  using assms by (auto split: option.splits sum.splits prod.splits)

lemma iterates_in:
  assumes "stateless env" and "answers_in S env" and "Suc n \<le> 2 ^ 62"
    and "walk_after (Suc n) le fos env root (walk_init root ctx) \<noteq> None"
  shows "(next_name env ^^ Suc n) root \<in> S"
proof -
  obtain w w' where a: "walk_step le fos env root w = Inr (None, w')"
    and b: "walk_after (Suc n) le fos env root (walk_init root ctx) = Some w'"
    using walk_after_Suc [OF assms(4)] by blast
  have "wk_name w' = (next_name env ^^ Suc n) root"
    using walk_after_tracks [OF assms(1,3) b] by (simp add: tracks_def)
  moreover have "wk_name w' \<in> S"
  proof (rule walk_step_continues [OF a])
    fix v w1 c
    assume "wr_variables (we_request env (wk_round w) (wk_name w)) \<noteq> []"
      and "v = hd (wr_variables (we_request env (wk_round w) (wk_name w)))"
      and "w' = w1\<lparr> wk_name := sv_name v, wk_context := c \<rparr>"
    then show ?thesis using assms(2) hd_in_set unfolding answers_in_def by fastforce
  qed
  ultimately show ?thesis by simp
qed

lemma power_above: "1 \<le> m \<Longrightarrow> \<exists>k. m \<le> 2 ^ k \<and> 2 ^ k < 2 * (m :: nat)"
proof (induction m rule: nat_induct_at_least)
  case base
  show ?case by (intro exI [of _ 0]) simp
next
  case (Suc m)
  then obtain k where k: "m \<le> 2 ^ k" "2 ^ k < 2 * m" by blast
  show ?case
  proof (cases "Suc m \<le> 2 ^ k")
    case True
    then show ?thesis using k by (intro exI [of _ k]) simp
  next
    case False
    then show ?thesis using k Suc.hyps by (intro exI [of _ "Suc k"]) simp
  qed
qed

lemma cycle_shift:
  fixes f :: "'a \<Rightarrow> 'a"
  assumes eq: "(f ^^ a) x = (f ^^ b) x" and "a \<le> b" and "a \<le> j"
  shows "(f ^^ (j + (b - a))) x = (f ^^ j) x"
proof -
  from assms have j: "j + (b - a) = (j - a) + b" "(j - a) + a = j" by simp_all
  have "(f ^^ (j + (b - a))) x = (f ^^ (j - a)) ((f ^^ b) x)" unfolding j(1) by (simp add: funpow_add)
  also have "\<dots> = (f ^^ ((j - a) + a)) x" unfolding eq [symmetric] by (simp only: funpow_add comp_apply)
  finally show ?thesis unfolding j(2) .
qed

text \<open>Iterates in a finite set come back, at every point beyond the size of the set, within its size.\<close>

lemma iterates_cycle:
  fixes f :: "'a \<Rightarrow> 'a"
  assumes "finite S" and "\<And>i. 1 \<le> i \<Longrightarrow> i \<le> card S + 1 \<Longrightarrow> (f ^^ i) x \<in> S" and "card S + 1 \<le> j"
  obtains l where "1 \<le> l" and "l \<le> card S" and "(f ^^ (j + l)) x = (f ^^ j) x"
proof -
  have "(\<lambda>i. (f ^^ i) x) ` {1..card S + 1} \<subseteq> S" using assms(2) by auto
  then have "\<not> inj_on (\<lambda>i. (f ^^ i) x) {1..card S + 1}"
    using card_inj_on_le [of "\<lambda>i. (f ^^ i) x" "{1..card S + 1}" S] assms(1) by auto
  then obtain a b where ab: "a \<in> {1..card S + 1}" "b \<in> {1..card S + 1}" "a < b" "(f ^^ a) x = (f ^^ b) x"
    unfolding inj_on_def by (metis nat_neq_iff)
  show thesis
  proof (rule that [of "b - a"])
    show "(f ^^ (j + (b - a))) x = (f ^^ j) x" using ab assms(3) by (intro cycle_shift) auto
  qed (use ab in auto)
qed

lemma walk_stops:
  assumes st: "stateless env" and S: "answers_in S env" "finite S" "card S < 2 ^ 60"
    and fuel: "4 * (card S + 1) \<le> fuel"
  shows "walk_after fuel le fos env root (walk_init root ctx) = None"
proof (rule ccontr)
  assume "walk_after fuel le fos env root (walk_init root ctx) \<noteq> None"
  then have run: "walk_after n le fos env root (walk_init root ctx) \<noteq> None" if "n \<le> 4 * (card S + 1)" for n
    using walk_after_prefix [of fuel le fos env root _ n] that fuel by simp
  obtain k where k: "card S + 1 \<le> 2 ^ k" "2 ^ k < 2 * (card S + 1)" using power_above [of "card S + 1"] by auto
  have "(next_name env ^^ i) root \<in> S" if "1 \<le> i" "i \<le> card S + 1" for i
    using iterates_in [OF st S(1), of "i - 1" le fos root ctx] run [of i] that S(3) by simp
  then obtain l where l: "1 \<le> l" "l \<le> card S" "(next_name env ^^ (2 ^ k + l)) root = (next_name env ^^ 2 ^ k) root"
    using iterates_cycle [OF S(2), of "next_name env" root "2 ^ k"] k(1) by blast
  define n where "n = 2 ^ k + l - 1"
  have n: "Suc n = 2 ^ k + l" "2 ^ k \<le> n" "Suc n < 2 ^ Suc k" "Suc n \<le> 4 * (card S + 1)"
    using l(1,2) k by (auto simp: n_def)
  obtain w w' where w: "walk_after n le fos env root (walk_init root ctx) = Some w"
      "walk_step le fos env root w = Inr (None, w')"
    using walk_after_Suc [OF run [OF n(4)]] by blast
  have small: "n < 2 ^ 62" using n(4) S(3) by simp
  have t: "tracks le env root n w" using walk_after_tracks [OF st less_imp_le [OF small] w(1)] .
  moreover have "n > 0" using n(2) by (cases n) simp_all
  ultimately obtain k' where k': "2 ^ k' \<le> n" "n < 2 ^ Suc k'" "unat (wk_milestoneIteration w) = 2 ^ Suc k'"
      "wk_milestoneHash w = HashObjectId le ((next_name env ^^ (2 ^ k')) root)"
    by (auto simp: tracks_def)
  have "k' = k" using power_between [OF k'(1,2) n(2)] n(3) by simp
  then have "HashObjectId le ((next_name env ^^ Suc n) root) \<noteq> HashObjectId le ((next_name env ^^ (2 ^ k)) root)"
    using tracks_step(2) [OF t w(2) st small] k'(3,4) n(3) by simp
  then show False using l(3) n(1) by simp
qed

lemma walk_loop_safe:
  assumes "answers_in {x. length x \<le> MAX_OID_LEN} env"
  shows "walk_loop fuel le fos env root w \<noteq> Some (Inl f)"
proof (induction fuel arbitrary: w)
  case (Suc fuel)
  obtain rc w' where "walk_step le fos env root w = Inr (rc, w')"
    using assms by (rule_tac walk_step_safe [of env w]) (auto simp: answers_in_def)
  then show ?case using Suc by (cases rc) simp_all
qed simp

text \<open>
  C20. The walk ends against every device that answers alike in every round, however the names
  in its answers are ordered and even if they form cycles of any length: if they are among
  finitely many names of at most 128 elements, the walk takes no more than four rounds for each
  name and four more, whatever the callback and the shutdown flag do, and it stays inside its
  local array.
\<close>

theorem snmp_walk_terminates:
  assumes "stateless env" and "answers_in S env" and "finite S" and "card S < 2 ^ 60"
    and "\<And>x. x \<in> S \<Longrightarrow> length x \<le> MAX_OID_LEN" and "length root \<le> MAX_OID_LEN"
    and "4 * (card S + 1) \<le> fuel"
  shows "\<exists>rc ctx'. SnmpWalk fuel le (Some env) root fos ctx = Some (Inr (rc, ctx'))"
proof -
  let ?r = "walk_loop fuel le fos env root (walk_init root ctx)"
  have "?r \<noteq> None" using walk_stops [OF assms(1-4,7)] by (simp add: walk_loop_None)
  moreover have "answers_in {x. length x \<le> MAX_OID_LEN} env" using assms(2,5) by (auto simp: answers_in_def)
  then have "?r \<noteq> Some (Inl f)" for f by (rule walk_loop_safe)
  ultimately obtain r where "?r = Some (Inr r)" by (cases ?r; cases "the ?r") auto
  then show ?thesis using assms(6) by (cases r) (simp add: SnmpWalk_def)
qed

text \<open>A device that answers with two names in turn, the second before the first.\<close>

definition cyclic_env :: "(unit, nat) walk_env" where
  "cyclic_env = \<lparr> we_shutdown = (\<lambda>n. False),
     we_request = (\<lambda>n x. \<lparr> wr_result = 0, wr_errorCode = 0,
       wr_variables = [\<lparr> sv_type = 2, sv_name = (if x = [1, 2] then [1, 1] else [1, 2]), sv_value = () \<rparr>] \<rparr>),
     we_handler = (\<lambda>v n. (0, n + 1)) \<rparr>"

theorem snmp_walk_terminates_witness:
  "\<exists>rc n. SnmpWalk 12 True (Some cyclic_env) [1] False 0 = Some (Inr (rc, n))"
  by (rule snmp_walk_terminates [of cyclic_env "{[1, 1], [1, 2]}"])
    (auto simp: stateless_def answers_in_def cyclic_env_def)

section \<open>The walk is complete\<close>

text \<open>
  The device lists the variables \<open>vs\<close>: it answers a request for the root or for one of them with
  the next, in any round, and a request for the last one with an answer that ends the subtree.
\<close>

definition name_before :: "u32 list \<Rightarrow> 'v snmp_var list \<Rightarrow> nat \<Rightarrow> u32 list" where
  "name_before root vs i = (case i of 0 \<Rightarrow> root | Suc j \<Rightarrow> sv_name (vs ! j))"

definition ends_subtree :: "u32 list \<Rightarrow> 'v walk_response \<Rightarrow> bool" where
  "ends_subtree root r \<longleftrightarrow> wr_result r = SNMP_ERR_SUCCESS \<and>
     (if wr_variables r = [] \<or> wr_errorCode r \<noteq> SNMP_PDU_ERR_SUCCESS then wr_errorCode r = SNMP_PDU_ERR_NO_SUCH_NAME
      else is_end_type (sv_type (hd (wr_variables r))) \<or> \<not> prefix root (sv_name (hd (wr_variables r))))"

definition lists_subtree :: "('v, 'h) walk_env \<Rightarrow> u32 list \<Rightarrow> 'v snmp_var list \<Rightarrow> bool" where
  "lists_subtree env root vs \<longleftrightarrow>
     (\<forall>n i. i < length vs \<longrightarrow> (\<exists>others. we_request env n (name_before root vs i) =
        \<lparr> wr_result = SNMP_ERR_SUCCESS, wr_errorCode = SNMP_PDU_ERR_SUCCESS, wr_variables = vs ! i # others \<rparr>))
     \<and> (\<forall>n. ends_subtree root (we_request env n (name_before root vs (length vs))))"

text \<open>The hashes seen so far: the milestone and the ring hold nothing else.\<close>

definition ring_ok :: "u64 set \<Rightarrow> 'h walk \<Rightarrow> bool" where
  "ring_ok H w \<longleftrightarrow> length (wk_recentHashes w) = SNMP_WALK_LOOP_DETECT_RING_SIZE
     \<and> wk_recentCount w \<le> SNMP_WALK_LOOP_DETECT_RING_SIZE
     \<and> (wk_recentCount w < SNMP_WALK_LOOP_DETECT_RING_SIZE \<longrightarrow> wk_recentNext w = wk_recentCount w)
     \<and> set (take (wk_recentCount w) (wk_recentHashes w)) \<subseteq> H
     \<and> (H = {} \<longrightarrow> wk_walkIteration w + 1 = wk_milestoneIteration w) \<and> (H \<noteq> {} \<longrightarrow> wk_milestoneHash w \<in> H)"

lemma take_update_ring:
  "n < length xs \<Longrightarrow> set (take (Suc n) (xs[n := x])) = insert x (set (take n xs))"
  by (simp add: take_Suc_conv_app_nth)

lemma set_update_ring: "set (take n (xs[i := x])) \<subseteq> insert x (set (take n xs))"
  by (metis take_update_swap set_update_subset_insert)

lemma detect_loop_new:
  assumes "ring_ok H w" and "HashObjectId le name \<notin> H" and "name \<noteq> wk_name w"
  obtains w' where "detect_loop le name w = Some w'" and "ring_ok (insert (HashObjectId le name) H) w'"
    and "wk_context w' = wk_context w"
proof -
  let ?h = "HashObjectId le name"
  have cr: "compare_oid name (wk_name w) \<noteq> OID_EQUAL" using assms(3) by (simp add: compare_oid_def compare_equal)
  have mile: "wk_walkIteration w + 1 \<noteq> wk_milestoneIteration w \<Longrightarrow> ?h \<noteq> wk_milestoneHash w"
    using assms(1,2) by (auto simp: ring_ok_def)
  have ring: "?h \<notin> set (take (wk_recentCount w) (wk_recentHashes w))" using assms(1,2) by (auto simp: ring_ok_def)
  then have "detect_loop le name w \<noteq> None"
    using cr mile by (cases "wk_walkIteration w + 1 = wk_milestoneIteration w") (simp_all add: detect_loop_def Let_def)
  then obtain w' where w': "detect_loop le name w = Some w'" by blast
  have hs: "wk_recentHashes w' = (wk_recentHashes w)[wk_recentNext w := ?h]"
    and cnt: "wk_recentCount w' = (if wk_recentCount w < SNMP_WALK_LOOP_DETECT_RING_SIZE then wk_recentCount w + 1 else wk_recentCount w)"
    and nxt: "wk_recentNext w' = (wk_recentNext w + 1) mod SNMP_WALK_LOOP_DETECT_RING_SIZE"
    using w' by (auto simp: detect_loop_def Let_def split: if_splits)
  have "set (take (wk_recentCount w') (wk_recentHashes w')) \<subseteq> insert ?h H"
  proof (cases "wk_recentCount w < SNMP_WALK_LOOP_DETECT_RING_SIZE")
    case True
    then show ?thesis using assms(1) hs cnt by (auto simp: ring_ok_def take_update_ring simp del: take_Suc_conv_app_nth)
  next
    case False
    then have "set (take (wk_recentCount w') (wk_recentHashes w'))
        \<subseteq> insert ?h (set (take (wk_recentCount w) (wk_recentHashes w)))"
      using set_update_ring [of "wk_recentCount w"] hs cnt by simp
    also have "\<dots> \<subseteq> insert ?h H" using assms(1) unfolding ring_ok_def by blast
    finally show ?thesis .
  qed
  moreover have "wk_milestoneHash w' \<in> insert ?h H"
    using detect_loop_fields(5,6) [OF w'] assms(1)
    by (cases "wk_walkIteration w + 1 = wk_milestoneIteration w") (simp_all add: ring_ok_def)
  ultimately have "ring_ok (insert ?h H) w'"
    using assms(1) hs cnt nxt by (auto simp: ring_ok_def)
  then show thesis using that [of w'] w' detect_loop_fields(1) [OF w'] by simp
qed

definition feed :: "('v, 'h) walk_env \<Rightarrow> 'v snmp_var list \<Rightarrow> 'h \<Rightarrow> 'h" where
  "feed env vs ctx = fold (\<lambda>v c. snd (we_handler env v c)) vs ctx"

lemma outside_subtree: "length name < length root \<or> take (length root) name \<noteq> root \<longleftrightarrow> \<not> prefix root name"
  by (auto simp: prefix_def) (metis append_take_drop_id)

lemma walk_step_visits:
  assumes "we_request env (wk_round w) (wk_name w) =
      \<lparr> wr_result = SNMP_ERR_SUCCESS, wr_errorCode = SNMP_PDU_ERR_SUCCESS, wr_variables = v # others \<rparr>"
    and "\<not> fos" and "\<not> is_end_type (sv_type v)" and "prefix root (sv_name v)" and "length (sv_name v) \<le> MAX_OID_LEN"
    and "ring_ok H w" and "HashObjectId le (sv_name v) \<notin> H" and "sv_name v \<noteq> wk_name w"
    and "\<And>c. fst (we_handler env v c) = SNMP_ERR_SUCCESS"
  obtains w' where "walk_step le fos env root w = Inr (None, w')" and "ring_ok (insert (HashObjectId le (sv_name v)) H) w'"
    and "wk_name w' = sv_name v" and "wk_context w' = snd (we_handler env v (wk_context w))"
proof -
  let ?w0 = "w\<lparr> wk_round := wk_round w + 1 \<rparr>"
  have "ring_ok H ?w0" using assms(6) by (simp add: ring_ok_def)
  then obtain w1 where w1: "detect_loop le (sv_name v) ?w0 = Some w1"
      "ring_ok (insert (HashObjectId le (sv_name v)) H) w1" "wk_context w1 = wk_context w"
    using detect_loop_new [of H ?w0 le "sv_name v"] assms(7,8) by auto
  have "\<not> (length (sv_name v) < length root \<or> take (length root) (sv_name v) \<noteq> root)"
    using assms(4) by (simp only: outside_subtree not_not)
  moreover obtain c where c: "we_handler env v (wk_context w) = (SNMP_ERR_SUCCESS, c)"
    using assms(9) [of "wk_context w"] by (cases "we_handler env v (wk_context w)") auto
  ultimately have "walk_step le fos env root w = Inr (None, w1\<lparr> wk_name := sv_name v, wk_context := c \<rparr>)"
    using assms(1,2,3,5) w1 by (simp add: walk_step_def)
  then show thesis using that w1(2) c by (simp add: ring_ok_def)
qed

lemma walk_step_ends:
  assumes "ends_subtree root (we_request env (wk_round w) (wk_name w))" and "\<not> fos"
  obtains w' where "walk_step le fos env root w = Inr (Some SNMP_ERR_SUCCESS, w')" and "wk_context w' = wk_context w"
proof -
  let ?r = "we_request env (wk_round w) (wk_name w)" and ?w = "w\<lparr> wk_round := wk_round w + 1 \<rparr>"
  have "walk_step le fos env root w = Inr (Some SNMP_ERR_SUCCESS, ?w)"
  proof (cases "wr_variables ?r = [] \<or> wr_errorCode ?r \<noteq> SNMP_PDU_ERR_SUCCESS")
    case True
    then show ?thesis using assms by (auto simp: ends_subtree_def walk_step_def)
  next
    case False
    then show ?thesis
      using assms outside_subtree [of "sv_name (hd (wr_variables ?r))" root]
      by (auto simp: ends_subtree_def walk_step_def Let_def)
  qed
  then show thesis by (rule that) simp
qed

lemma name_before_Cons: "name_before root (v # vs) (Suc i) = name_before (sv_name v) vs i"
  by (simp add: name_before_def split: nat.split)

lemma lists_subtree_walk:
  assumes "\<not> fos" and "\<And>v c. fst (we_handler env v c) = SNMP_ERR_SUCCESS"
    and "\<And>n i. i < length vs \<Longrightarrow> \<exists>others. we_request env n (name_before x vs i) =
        \<lparr> wr_result = SNMP_ERR_SUCCESS, wr_errorCode = SNMP_PDU_ERR_SUCCESS, wr_variables = vs ! i # others \<rparr>"
    and "\<And>n. ends_subtree root (we_request env n (name_before x vs (length vs)))"
    and "\<And>v. v \<in> set vs \<Longrightarrow> \<not> is_end_type (sv_type v) \<and> prefix root (sv_name v) \<and> length (sv_name v) \<le> MAX_OID_LEN"
    and "distinct (map (\<lambda>v. HashObjectId le (sv_name v)) vs)"
    and "\<And>v. v \<in> set vs \<Longrightarrow> HashObjectId le (sv_name v) \<notin> H \<and> sv_name v \<noteq> x"
    and "ring_ok H w" and "wk_name w = x" and "length vs < fuel"
  shows "walk_loop fuel le fos env root w = Some (Inr (SNMP_ERR_SUCCESS, feed env vs (wk_context w)))"
  using assms(3-)
proof (induction vs arbitrary: x H w fuel)
  case Nil
  then obtain f where "fuel = Suc f" by (cases fuel) auto
  moreover obtain w' where "walk_step le fos env root w = Inr (Some SNMP_ERR_SUCCESS, w')" "wk_context w' = wk_context w"
    using walk_step_ends [of root env w fos le] Nil(2) [of "wk_round w"] Nil(7) assms(1) by (auto simp: name_before_def)
  ultimately show ?case by (simp add: feed_def)
next
  case (Cons v vs)
  then obtain f where f: "fuel = Suc f" "length vs < f" by (cases fuel) auto
  obtain others where "we_request env (wk_round w) x =
      \<lparr> wr_result = SNMP_ERR_SUCCESS, wr_errorCode = SNMP_PDU_ERR_SUCCESS, wr_variables = v # others \<rparr>"
    using Cons.prems(1) [of 0 "wk_round w"] by (auto simp: name_before_def)
  then obtain w' where w': "walk_step le fos env root w = Inr (None, w')"
      "ring_ok (insert (HashObjectId le (sv_name v)) H) w'" "wk_name w' = sv_name v"
      "wk_context w' = snd (we_handler env v (wk_context w))"
    using walk_step_visits [of env w v others fos root H le] Cons.prems(3,5-7) assms(1,2) by auto
  have "walk_loop f le fos env root w' = Some (Inr (SNMP_ERR_SUCCESS, feed env vs (wk_context w')))"
  proof (rule Cons.IH [OF _ _ _ _ _ w'(2,3) f(2)])
    show "\<exists>others. we_request env n (name_before (sv_name v) vs i) =
        \<lparr> wr_result = SNMP_ERR_SUCCESS, wr_errorCode = SNMP_PDU_ERR_SUCCESS, wr_variables = vs ! i # others \<rparr>"
      if "i < length vs" for n i using Cons.prems(1) [of "Suc i" n] that by (simp add: name_before_Cons)
    show "ends_subtree root (we_request env n (name_before (sv_name v) vs (length vs)))" for n
      using Cons.prems(2) [of n] by (simp add: name_before_Cons)
    show "HashObjectId le (sv_name u) \<notin> insert (HashObjectId le (sv_name v)) H \<and> sv_name u \<noteq> sv_name v"
      if "u \<in> set vs" for u
    proof -
      have "HashObjectId le (sv_name u) \<noteq> HashObjectId le (sv_name v)" using Cons.prems(4) that by (auto simp: image_iff)
      then show ?thesis using Cons.prems(5) [of u] that by auto
    qed
  qed (use Cons.prems in auto)
  then show ?case using f(1) w'(1,4) by (simp add: feed_def)
qed

text \<open>
  C21. The walk is complete, and does not depend on the order of the names: if the device lists
  the variables \<open>vs\<close> below the root one after the other, in any order but with different hashes, and
  the callback accepts them, the walk calls it exactly once for each of them in the order of the
  device, and reports success. So loop detection never cuts a walk short without a collision of hashes.
\<close>

theorem snmp_walk_complete:
  assumes "lists_subtree env root vs" and "distinct (map (\<lambda>v. HashObjectId le (sv_name v)) vs)"
    and "\<And>v. v \<in> set vs \<Longrightarrow> \<not> is_end_type (sv_type v) \<and> prefix root (sv_name v) \<and> length (sv_name v) \<le> MAX_OID_LEN
      \<and> sv_name v \<noteq> root"
    and "\<And>v c. fst (we_handler env v c) = SNMP_ERR_SUCCESS" and "length root \<le> MAX_OID_LEN" and "length vs < fuel"
  shows "SnmpWalk fuel le (Some env) root False ctx = Some (Inr (SNMP_ERR_SUCCESS, feed env vs ctx))"
proof -
  have "walk_loop fuel le False env root (walk_init root ctx) =
      Some (Inr (SNMP_ERR_SUCCESS, feed env vs (wk_context (walk_init root ctx))))"
    using assms(1-4,6)
    by (intro lists_subtree_walk [where H = "{}" and x = root]) (auto simp: lists_subtree_def ring_ok_def walk_init_def)
  then show ?thesis using assms(5) by (simp add: SnmpWalk_def walk_init_def)
qed

text \<open>A device with two rows that it returns in descending order.\<close>

definition row :: "u32 list \<Rightarrow> unit snmp_var" where
  "row x = \<lparr> sv_type = 2, sv_name = x, sv_value = () \<rparr>"

definition unsorted_env :: "(unit, u32 list list) walk_env" where
  "unsorted_env = \<lparr> we_shutdown = (\<lambda>n. False),
     we_request = (\<lambda>n x. \<lparr> wr_result = 0, wr_errorCode = 0,
       wr_variables = [row (if x = [1] then [1, 2] else if x = [1, 2] then [1, 1] else [2])] \<rparr>),
     we_handler = (\<lambda>v names. (0, names @ [sv_name v])) \<rparr>"

lemma unsorted_lists: "lists_subtree unsorted_env [1] [row [1, 2], row [1, 1]]"
  by (auto simp: lists_subtree_def unsorted_env_def name_before_def row_def ends_subtree_def less_Suc_eq is_end_type_def)

theorem snmp_walk_complete_witness:
  "SnmpWalk 3 True (Some unsorted_env) [1] False [] = Some (Inr (0, [[1, 2], [1, 1]]))"
proof -
  have "HashObjectId True [1, 2] \<noteq> HashObjectId True [1, 1]"
    by code_simp
  then have "SnmpWalk 3 True (Some unsorted_env) [1] False [] =
      Some (Inr (0, feed unsorted_env [row [1, 2], row [1, 1]] []))"
    by (intro snmp_walk_complete [OF unsorted_lists]) (auto simp: row_def is_end_type_def unsorted_env_def)
  then show ?thesis by (simp add: feed_def unsorted_env_def row_def)
qed

text \<open>A name of more than 128 elements is copied past the local array.\<close>

lemma long_name_overflows:
  assumes "we_request env 0 root = \<lparr> wr_result = SNMP_ERR_SUCCESS, wr_errorCode = SNMP_PDU_ERR_SUCCESS, wr_variables = [v] \<rparr>"
    and "\<not> is_end_type (sv_type v)" and "prefix root (sv_name v)" and "length root \<le> MAX_OID_LEN"
    and "MAX_OID_LEN < length (sv_name v)"
  shows "SnmpWalk (Suc fuel) le (Some env) root False ctx = Some (Inl Bad_access)"
proof -
  have "ring_ok {} (walk_init root ctx\<lparr> wk_round := 1 \<rparr>)" by (simp add: ring_ok_def walk_init_def)
  moreover have "sv_name v \<noteq> wk_name (walk_init root ctx\<lparr> wk_round := 1 \<rparr>)" using assms(4,5) by (auto simp: walk_init_def)
  ultimately obtain w1 where "detect_loop le (sv_name v) (walk_init root ctx\<lparr> wk_round := 1 \<rparr>) = Some w1"
    using detect_loop_new [of "{}"] by blast
  moreover have "\<not> (length (sv_name v) < length root \<or> take (length root) (sv_name v) \<noteq> root)"
    using assms(3) by (simp only: outside_subtree not_not)
  moreover have "wk_round (walk_init root ctx) = 0" "wk_name (walk_init root ctx) = root" by (simp_all add: walk_init_def)
  ultimately have "walk_step le False env root (walk_init root ctx) = Inl Bad_access"
    using assms(1,2,5) by (simp add: walk_step_def)
  then show ?thesis using assms(4) by (simp add: SnmpWalk_def)
qed

end
