(* ===== verification/Nx_Groups.thy ===== *)
theory Nx_Groups
  imports Nx_Prelude
begin

text \<open>
  User groups and what membership gives a user: \<^verbatim>\<open>Group\<close> and \<^verbatim>\<open>GroupSearchPath\<close>
  (\<^verbatim>\<open>src/src/server/core/userdb_objects.cpp\<close>, \<^verbatim>\<open>src/src/server/include/nms_users.h\<close>) and
  the functions of \<^verbatim>\<open>src/src/server/core/userdb.cpp\<close> that decide membership and system rights. Groups
  may contain groups, in cycles too. The user database is a list of its objects in the order of
  iteration, which the hash map of the code leaves open. The recursion through nested groups has
  fuel; None means that it was not enough.
\<close>

section \<open>The search path\<close>

abbreviation (input) "GROUP_FLAG \<equiv> (0x40000000 :: u32)"
abbreviation (input) "GROUP_EVERYONE \<equiv> (0x40000000 :: u32)"
abbreviation (input) "UF_MODIFIED \<equiv> (0x0001 :: u32)"
abbreviation (input) "UF_DELETED \<equiv> (0x0002 :: u32)"
abbreviation (input) "UF_DISABLED \<equiv> (0x0004 :: u32)"
abbreviation (input) "PATH_BUFFER \<equiv> (256 :: nat)"

record search_path =
  sp_size :: nat
  sp_buffer :: "u32 list"
  sp_extended :: "u32 list option"

text \<open>The entries of the buffer that were not written yet are never read; they are zero here.\<close>

definition new_path :: search_path where
  "new_path = \<lparr> sp_size = 0, sp_buffer = replicate PATH_BUFFER 0, sp_extended = None \<rparr>"

definition add_path :: "u32 \<Rightarrow> search_path \<Rightarrow> search_path" where
  "add_path gid p =
     (if sp_size p < PATH_BUFFER
      then p\<lparr> sp_buffer := (sp_buffer p)[sp_size p := gid], sp_size := sp_size p + 1 \<rparr>
      else (let e = (case sp_extended p of None \<Rightarrow> take (sp_size p) (sp_buffer p) | Some e \<Rightarrow> e)
            in p\<lparr> sp_extended := Some (e @ [gid]), sp_size := sp_size p + 1 \<rparr>))"

definition clear_path :: "search_path \<Rightarrow> search_path" where
  "clear_path p = p\<lparr> sp_size := 0, sp_extended := map_option (\<lambda>_. []) (sp_extended p) \<rparr>"

text \<open>\<^verbatim>\<open>std::vector::at\<close> outside the vector throws, which nothing catches: \<open>Bad_access\<close>.\<close>

definition contains_path :: "u32 \<Rightarrow> search_path \<Rightarrow> fault + bool" where
  "contains_path gid p =
     (case sp_extended p of
        None \<Rightarrow> Inr (gid \<in> set (take (sp_size p) (sp_buffer p)))
      | Some e \<Rightarrow>
          if gid \<in> set (take (sp_size p) e) then Inr True
          else if length e < sp_size p then Inl Bad_access else Inr False)"

section \<open>Groups\<close>

text \<open>Users and groups have the members of their common base class here; a user has no group members.\<close>

record db_object =
  u_id :: u32
  u_flags :: u32
  u_systemRights :: u64
  u_members :: "u32 list"

definition isGroup :: "db_object \<Rightarrow> bool" where
  "isGroup g \<longleftrightarrow> u_id g AND GROUP_FLAG \<noteq> 0"

definition isDeleted :: "db_object \<Rightarrow> bool" where
  "isDeleted g \<longleftrightarrow> u_flags g AND UF_DELETED \<noteq> 0"

definition isDisabled :: "db_object \<Rightarrow> bool" where
  "isDisabled g \<longleftrightarrow> u_flags g AND UF_DISABLED \<noteq> 0"

text \<open>The C library's binary search, over the indices from \<open>l\<close> up to but not including \<open>u\<close>.\<close>

function bsearch_loop :: "u32 \<Rightarrow> u32 list \<Rightarrow> nat \<Rightarrow> nat \<Rightarrow> nat option" where
  "bsearch_loop key xs l u =
     (if l < u then
        (let i = (l + u) div 2 in
         if key < xs ! i then bsearch_loop key xs l i
         else if xs ! i < key then bsearch_loop key xs (i + 1) u
         else Some i)
      else None)"
  by pat_completeness auto
termination
  by (relation "measure (\<lambda>(key, xs, l, u). u - l)") auto

declare bsearch_loop.simps [simp del]

definition bsearch :: "u32 \<Rightarrow> u32 list \<Rightarrow> nat option" where
  "bsearch key xs = bsearch_loop key xs 0 (length xs)"

definition lookup_db :: "db_object list \<Rightarrow> u32 \<Rightarrow> db_object option" where
  "lookup_db db gid = find (\<lambda>g. u_id g = gid) db"

text \<open>The loop over the members from the end, which stops at the first that is no group.\<close>

fun scan_groups ::
  "(u32 \<Rightarrow> search_path \<Rightarrow> (fault + bool \<times> search_path) option) \<Rightarrow> u32 list \<Rightarrow> search_path
     \<Rightarrow> (fault + bool \<times> search_path) option" where
  "scan_groups check [] p = Some (Inr (False, p))"
| "scan_groups check (gid # gids) p =
     (if gid AND GROUP_FLAG = 0 then Some (Inr (False, p))
      else (case check gid p of
          Some (Inr (False, p')) \<Rightarrow> scan_groups check gids p'
        | r \<Rightarrow> r))"

text \<open>\<^verbatim>\<open>Group::isMember\<close> with a search path; the lookup of a nested group is \<^verbatim>\<open>CheckUserMembershipInternal\<close>.\<close>

fun isMember :: "nat \<Rightarrow> db_object list \<Rightarrow> u32 \<Rightarrow> db_object \<Rightarrow> search_path \<Rightarrow> (fault + bool \<times> search_path) option" where
  "isMember 0 db userId g p = None"
| "isMember (Suc fuel) db userId g p =
     (if u_id g = GROUP_EVERYONE then Some (Inr (True, p))
      else if isDisabled g then Some (Inr (False, p))
      else if bsearch userId (u_members g) \<noteq> None then Some (Inr (True, p))
      else (case contains_path (u_id g) p of
          Inl f \<Rightarrow> Some (Inl f)
        | Inr True \<Rightarrow> Some (Inr (False, p))
        | Inr False \<Rightarrow>
            scan_groups
              (\<lambda>gid q. case lookup_db db gid of None \<Rightarrow> Some (Inr (False, q)) | Some h \<Rightarrow> isMember fuel db userId h q)
              (rev (u_members g)) (add_path (u_id g) p)))"

definition isMember_direct :: "u32 \<Rightarrow> db_object \<Rightarrow> bool" where
  "isMember_direct userId g \<longleftrightarrow>
     u_id g = GROUP_EVERYONE \<or> (\<not> isDisabled g \<and> bsearch userId (u_members g) \<noteq> None)"

definition CheckUserMembershipInternal ::
  "nat \<Rightarrow> db_object list \<Rightarrow> u32 \<Rightarrow> u32 \<Rightarrow> search_path \<Rightarrow> (fault + bool \<times> search_path) option" where
  "CheckUserMembershipInternal fuel db userId groupId p =
     (case lookup_db db groupId of None \<Rightarrow> Some (Inr (False, p)) | Some g \<Rightarrow> isMember fuel db userId g p)"

definition CheckUserMembership :: "nat \<Rightarrow> db_object list \<Rightarrow> u32 \<Rightarrow> u32 \<Rightarrow> (fault + bool) option" where
  "CheckUserMembership fuel db userId groupId =
     (if groupId AND GROUP_FLAG = 0 then Some (Inr False)
      else if groupId = GROUP_EVERYONE then Some (Inr True)
      else map_option (\<lambda>r. sum_bind r (\<lambda>(b, p). Inr b)) (CheckUserMembershipInternal fuel db userId groupId new_path))"

text \<open>The loop of \<^verbatim>\<open>GetEffectiveSystemRights\<close> over the database, with the search path of the previous group.\<close>

fun rights_loop ::
  "nat \<Rightarrow> db_object list \<Rightarrow> u32 \<Rightarrow> db_object list \<Rightarrow> search_path \<Rightarrow> u64 \<Rightarrow> (fault + u64) option" where
  "rights_loop fuel db userId [] p rights = Some (Inr rights)"
| "rights_loop fuel db userId (g # gs) p rights =
     (if isDeleted g \<or> isDisabled g \<or> \<not> isGroup g then rights_loop fuel db userId gs p rights
      else (case contains_path (u_id g) p of
          Inl f \<Rightarrow> Some (Inl f)
        | Inr True \<Rightarrow> rights_loop fuel db userId gs p (rights OR u_systemRights g)
        | Inr False \<Rightarrow>
            (case isMember fuel db userId g (clear_path p) of
               None \<Rightarrow> None
             | Some (Inl f) \<Rightarrow> Some (Inl f)
             | Some (Inr (True, p')) \<Rightarrow> rights_loop fuel db userId gs p' (rights OR u_systemRights g)
             | Some (Inr (False, p')) \<Rightarrow> rights_loop fuel db userId gs (clear_path p') rights)))"

definition GetEffectiveSystemRights :: "nat \<Rightarrow> db_object list \<Rightarrow> u32 \<Rightarrow> (fault + u64) option" where
  "GetEffectiveSystemRights fuel db userId =
     (case lookup_db db userId of
        None \<Rightarrow> Some (Inr 0)
      | Some user \<Rightarrow>
          if isGroup user then Some (Inr 0)
          else rights_loop fuel db userId db new_path (u_systemRights user))"

section \<open>Searching the members\<close>

lemma bsearch_loop_Some: "u \<le> length xs \<Longrightarrow> bsearch_loop key xs l u = Some i \<Longrightarrow> i < length xs \<and> xs ! i = key"
proof (induction key xs l u rule: bsearch_loop.induct)
  case (1 key xs l u)
  then show ?case by (subst (asm) bsearch_loop.simps) (auto simp: Let_def split: if_splits)
qed

lemma bsearch_loop_None:
  "sorted xs \<Longrightarrow> u \<le> length xs \<Longrightarrow> bsearch_loop key xs l u = None \<Longrightarrow> l \<le> j \<Longrightarrow> j < u \<Longrightarrow> xs ! j \<noteq> key"
proof (induction key xs l u rule: bsearch_loop.induct)
  case (1 key xs l u)
  define i where "i = (l + u) div 2"
  have i: "l \<le> i" "i < u" using 1(6,7) by (auto simp: i_def)
  have nth: "xs ! a \<le> xs ! b" if "a \<le> b" "b < u" for a b using sorted_nth_mono [OF 1(3)] that 1(4) by simp
  consider "key < xs ! i" "bsearch_loop key xs l i = None" | "xs ! i < key" "bsearch_loop key xs (i + 1) u = None"
    using 1(5) i by (subst (asm) bsearch_loop.simps) (auto simp: Let_def i_def split: if_splits)
  then show ?case
  proof cases
    case 1
    then show ?thesis
      using "1.IH"(1) [OF _ i_def] "1.prems" i nth [of i j] by (cases "j < i") auto
  next
    case 2
    then show ?thesis
      using "1.IH"(2) [OF _ i_def] "1.prems" i nth [of j i] by (cases "i < j") auto
  qed
qed

lemma bsearch_Some: "bsearch key xs = Some i \<Longrightarrow> i < length xs \<and> xs ! i = key"
  using bsearch_loop_Some [of "length xs" xs key 0 i] by (simp add: bsearch_def)

lemma bsearch_member: "sorted xs \<Longrightarrow> bsearch key xs \<noteq> None \<longleftrightarrow> key \<in> set xs"
  using bsearch_Some [of key xs] bsearch_loop_None [of xs "length xs" key 0]
  by (fastforce simp: bsearch_def in_set_conv_nth)

section \<open>The path as a list\<close>

definition path_ok :: "search_path \<Rightarrow> bool" where
  [nx_inv]: "path_ok p \<longleftrightarrow> length (sp_buffer p) = PATH_BUFFER \<and>
     (case sp_extended p of None \<Rightarrow> sp_size p \<le> PATH_BUFFER | Some e \<Rightarrow> sp_size p = length e \<and> PATH_BUFFER < sp_size p)"

definition path_ids :: "search_path \<Rightarrow> u32 list" where
  "path_ids p = (case sp_extended p of None \<Rightarrow> take (sp_size p) (sp_buffer p) | Some e \<Rightarrow> e)"

lemma new_path_ok: "path_ok new_path" and new_path_ids: "path_ids new_path = []"
  by (simp_all add: path_ok_def new_path_def path_ids_def)

lemma add_path_ok: "path_ok p \<Longrightarrow> path_ok (add_path gid p)"
  by (auto simp: path_ok_def add_path_def Let_def split: option.splits)

lemma add_path_ids: "path_ok p \<Longrightarrow> path_ids (add_path gid p) = path_ids p @ [gid]"
  by (auto simp: path_ok_def add_path_def path_ids_def Let_def take_Suc_conv_app_nth split: option.splits)

lemma contains_path_ids: "path_ok p \<Longrightarrow> contains_path gid p = Inr (gid \<in> set (path_ids p))"
  by (auto simp: path_ok_def contains_path_def path_ids_def split: option.splits)

lemma clear_path_ok: "path_ok p \<Longrightarrow> sp_extended p = None \<Longrightarrow> path_ok (clear_path p)"
  by (simp add: path_ok_def clear_path_def)

lemma clear_path_ids: "path_ids (clear_path p) = []"
  by (simp add: path_ids_def clear_path_def split: option.split)

lemma path_not_extended: "path_ok p \<Longrightarrow> length (path_ids p) \<le> PATH_BUFFER \<Longrightarrow> sp_extended p = None"
  by (auto simp: path_ok_def path_ids_def split: option.splits)

text \<open>
  Once a search has visited more than 256 groups, clearing the path leaves an empty vector behind
  that the next visits do not fill but the next test reads.
\<close>

lemma cleared_path_throws:
  assumes "sp_extended p = Some e" "gid' \<noteq> gid"
  shows "contains_path gid' (add_path gid (clear_path p)) = Inl Bad_access"
  using assms by (simp add: contains_path_def add_path_def clear_path_def)

section \<open>Membership\<close>

text \<open>What membership means: directly in an enabled group, or in a group nested in it; everyone is in one group.\<close>

inductive member_of :: "db_object list \<Rightarrow> u32 \<Rightarrow> u32 \<Rightarrow> bool" for db userId where
  everyone: "lookup_db db GROUP_EVERYONE = Some g \<Longrightarrow> member_of db userId GROUP_EVERYONE"
| direct: "lookup_db db gid = Some g \<Longrightarrow> \<not> isDisabled g \<Longrightarrow> userId \<in> set (u_members g) \<Longrightarrow> member_of db userId gid"
| nested: "lookup_db db gid = Some g \<Longrightarrow> \<not> isDisabled g \<Longrightarrow> h \<in> set (u_members g) \<Longrightarrow> h AND GROUP_FLAG \<noteq> 0
    \<Longrightarrow> member_of db userId h \<Longrightarrow> member_of db userId gid"

text \<open>
  Every list of members is sorted, and identifiers are below \<^verbatim>\<open>0x80000000\<close>, so that groups come after
  users in it. Identifiers are unique.
\<close>

definition db_ok :: "db_object list \<Rightarrow> bool" where
  [nx_inv]: "db_ok db \<longleftrightarrow> distinct (map u_id db) \<and>
     (\<forall>g. g \<in> set db \<longrightarrow> sorted (u_members g) \<and> (\<forall>m. m \<in> set (u_members g) \<longrightarrow> m < 0x80000000))"

lemma lookup_in: "lookup_db db gid = Some g \<Longrightarrow> g \<in> set db \<and> u_id g = gid"
  by (auto simp: lookup_db_def find_Some_iff)

lemma lookup_unique: "db_ok db \<Longrightarrow> g \<in> set db \<Longrightarrow> lookup_db db (u_id g) = Some g"
  by (induction db) (auto simp: db_ok_def lookup_db_def)

lemma group_flag_less: "m < 0x80000000 \<Longrightarrow> m AND GROUP_FLAG \<noteq> 0 \<longleftrightarrow> GROUP_FLAG \<le> m" for m :: u32
proof -
  assume m: "m < 0x80000000"
  have flag: "(GROUP_FLAG :: u32) = 2 ^ 30" by simp
  have "m AND GROUP_FLAG \<noteq> 0 \<longleftrightarrow> bit m 30" unfolding flag by (simp only: and_exp_eq_0_iff_not_bit not_not)
  also have "\<dots> \<longleftrightarrow> bit (unat m) 30" by (simp add: bit_unsigned_iff)
  also have "\<dots> \<longleftrightarrow> odd (unat m div 2 ^ 30)" by (simp only: bit_iff_odd)
  also have "\<dots> \<longleftrightarrow> 2 ^ 30 \<le> unat m"
  proof -
    have "unat m < 2 ^ 31" using m by (simp add: word_less_nat_alt)
    then have "unat m div 2 ^ 30 < 2" by (simp add: less_mult_imp_div_less)
    then have "unat m div 2 ^ 30 = 0 \<or> unat m div 2 ^ 30 = 1" by linarith
    then show ?thesis by (auto simp: div_eq_0_iff)
  qed
  also have "\<dots> \<longleftrightarrow> GROUP_FLAG \<le> m" by (simp add: word_le_nat_alt)
  finally show ?thesis .
qed

lemma takeWhile_rev_sorted:
  assumes "sorted xs" "\<And>x y. x \<in> set xs \<Longrightarrow> y \<in> set xs \<Longrightarrow> P x \<Longrightarrow> x \<le> y \<Longrightarrow> P y"
  shows "set (takeWhile P (rev xs)) = {x \<in> set xs. P x}"
  using assms
proof (induction xs rule: rev_induct)
  case (snoc x xs)
  have "\<not> P y" if "y \<in> set xs" "\<not> P x" for y
  proof
    assume "P y"
    moreover have "y \<le> x" using snoc.prems(1) that(1) by (auto simp: sorted_append)
    ultimately show False using snoc.prems(2) [of y x] that by simp
  qed
  moreover have "set (takeWhile P (rev xs)) = {x \<in> set xs. P x}"
  proof (rule snoc.IH)
    show "sorted xs" using snoc.prems(1) by (simp add: sorted_append)
    show "P b" if "a \<in> set xs" "b \<in> set xs" "P a" "a \<le> b" for a b using snoc.prems(2) [of a b] that by simp
  qed
  ultimately show ?case by (cases "P x") auto
qed simp

text \<open>The groups the loop visits are all groups among the members.\<close>

definition nested_groups :: "db_object \<Rightarrow> u32 list" where
  "nested_groups g = takeWhile (\<lambda>m. m AND GROUP_FLAG \<noteq> 0) (rev (u_members g))"

lemma set_nested_groups:
  assumes "db_ok db" "g \<in> set db"
  shows "set (nested_groups g) = {m \<in> set (u_members g). m AND GROUP_FLAG \<noteq> 0}"
  unfolding nested_groups_def
proof (rule takeWhile_rev_sorted)
  show "sorted (u_members g)" using assms by (simp add: db_ok_def)
  have small: "m < 0x80000000" if "m \<in> set (u_members g)" for m using assms that by (simp add: db_ok_def)
  show "y AND GROUP_FLAG \<noteq> 0" if "x \<in> set (u_members g)" "y \<in> set (u_members g)" "x AND GROUP_FLAG \<noteq> 0" "x \<le> y" for x y
  proof -
    have "GROUP_FLAG \<le> x" using group_flag_less [OF small [OF that(1)]] that(3) by simp
    then have "GROUP_FLAG \<le> y" using that(4) by (rule order.trans)
    then show ?thesis using group_flag_less [OF small [OF that(2)]] by simp
  qed
qed

lemma scan_groups_takeWhile: "scan_groups c ms p = scan_groups c (takeWhile (\<lambda>m. m AND GROUP_FLAG \<noteq> 0) ms) p"
  by (induction c ms p rule: scan_groups.induct) (auto split: option.split sum.split prod.split bool.split)

section \<open>The search decides membership\<close>

definition unreachable :: "db_object list \<Rightarrow> u32 \<Rightarrow> bool" where
  "unreachable db h \<longleftrightarrow> (case lookup_db db h of None \<Rightarrow> True | Some g \<Rightarrow> h \<noteq> GROUP_EVERYONE \<and> isDisabled g)"

text \<open>
  The visits between two states of the path: groups without the user, all of whose nested groups
  are visited or cannot contribute.
\<close>

definition explored :: "db_object list \<Rightarrow> u32 \<Rightarrow> u32 set \<Rightarrow> u32 set \<Rightarrow> bool" where
  "explored db userId V V' \<longleftrightarrow> V \<subseteq> V' \<and> (\<forall>v. v \<in> V' - V \<longrightarrow>
     (\<exists>g. lookup_db db v = Some g \<and> v \<noteq> GROUP_EVERYONE \<and> userId \<notin> set (u_members g)
       \<and> (\<forall>h. h \<in> set (u_members g) \<and> h AND GROUP_FLAG \<noteq> 0 \<longrightarrow> unreachable db h \<or> h \<in> V')))"

lemma explored_refl: "explored db userId V V"
  by (simp add: explored_def)

lemma explored_trans: "explored db userId V1 V2 \<Longrightarrow> explored db userId V2 V3 \<Longrightarrow> explored db userId V1 V3"
  unfolding explored_def
proof (intro conjI allI impI)
  assume a: "V1 \<subseteq> V2 \<and> (\<forall>v. v \<in> V2 - V1 \<longrightarrow> (\<exists>g. lookup_db db v = Some g \<and> v \<noteq> GROUP_EVERYONE \<and> userId \<notin> set (u_members g)
       \<and> (\<forall>h. h \<in> set (u_members g) \<and> h AND GROUP_FLAG \<noteq> 0 \<longrightarrow> unreachable db h \<or> h \<in> V2)))"
    and b: "V2 \<subseteq> V3 \<and> (\<forall>v. v \<in> V3 - V2 \<longrightarrow> (\<exists>g. lookup_db db v = Some g \<and> v \<noteq> GROUP_EVERYONE \<and> userId \<notin> set (u_members g)
       \<and> (\<forall>h. h \<in> set (u_members g) \<and> h AND GROUP_FLAG \<noteq> 0 \<longrightarrow> unreachable db h \<or> h \<in> V3)))"
  show "V1 \<subseteq> V3" using a b by blast
  fix v
  assume "v \<in> V3 - V1"
  then consider "v \<in> V2 - V1" | "v \<in> V3 - V2" by blast
  then show "\<exists>g. lookup_db db v = Some g \<and> v \<noteq> GROUP_EVERYONE \<and> userId \<notin> set (u_members g)
       \<and> (\<forall>h. h \<in> set (u_members g) \<and> h AND GROUP_FLAG \<noteq> 0 \<longrightarrow> unreachable db h \<or> h \<in> V3)"
  proof cases
    case 1
    then obtain g where "lookup_db db v = Some g" "v \<noteq> GROUP_EVERYONE" "userId \<notin> set (u_members g)"
        "\<forall>h. h \<in> set (u_members g) \<and> h AND GROUP_FLAG \<noteq> 0 \<longrightarrow> unreachable db h \<or> h \<in> V2"
      using a by blast
    then show ?thesis using b by (intro exI [of _ g]) blast
  next
    case 2
    then show ?thesis using b by blast
  qed
qed

lemma explored_not_member:
  assumes "member_of db userId x" and "explored db userId {} V"
  shows "x \<notin> V \<and> \<not> unreachable db x"
  using assms
proof (induction rule: member_of.induct)
  case (nested gid g h)
  then have "h \<notin> V" "\<not> unreachable db h" by simp_all
  then have "gid \<notin> V" using nested by (force simp: explored_def)
  then show ?case using nested by (simp add: unreachable_def)
qed (force simp: explored_def unreachable_def)+

definition unvisited :: "db_object list \<Rightarrow> search_path \<Rightarrow> nat" where
  "unvisited db p = card (u_id ` set db - set (path_ids p))"

lemma unvisited_mono: "set (path_ids p) \<subseteq> set (path_ids q) \<Longrightarrow> unvisited db q \<le> unvisited db p"
  unfolding unvisited_def by (intro card_mono) auto

lemma unvisited_add:
  assumes "path_ok p" "g \<in> set db" "u_id g \<notin> set (path_ids p)"
  shows "unvisited db (add_path (u_id g) p) < unvisited db p"
  unfolding unvisited_def by (rule psubset_card_mono) (use assms in \<open>auto simp: add_path_ids\<close>)

text \<open>Nesting of groups, in any depth.\<close>

inductive contains_group :: "db_object list \<Rightarrow> u32 \<Rightarrow> u32 \<Rightarrow> bool" for db where
  self: "contains_group db x x"
| inner: "lookup_db db x = Some g \<Longrightarrow> h \<in> set (u_members g) \<Longrightarrow> h AND GROUP_FLAG \<noteq> 0 \<Longrightarrow> contains_group db h y
    \<Longrightarrow> contains_group db x y"

text \<open>What a search does to the path, apart from its answer.\<close>

definition extends :: "db_object list \<Rightarrow> (u32 \<Rightarrow> bool) \<Rightarrow> search_path \<Rightarrow> search_path \<Rightarrow> bool" where
  "extends db R p p' \<longleftrightarrow> path_ok p' \<and> set (path_ids p) \<subseteq> set (path_ids p')
     \<and> (distinct (path_ids p) \<longrightarrow> distinct (path_ids p'))
     \<and> (\<forall>v. v \<in> set (path_ids p') - set (path_ids p) \<longrightarrow> v \<in> u_id ` {g \<in> set db. isGroup g} \<and> R v)"

definition visit :: "db_object list \<Rightarrow> u32 \<Rightarrow> u32 \<Rightarrow> search_path \<Rightarrow> bool \<Rightarrow> search_path \<Rightarrow> bool" where
  "visit db userId gid p b p' \<longleftrightarrow> extends db (contains_group db gid) p p' \<and> (b \<longrightarrow> member_of db userId gid)
     \<and> (\<not> b \<longrightarrow> explored db userId (set (path_ids p)) (set (path_ids p'))
          \<and> (unreachable db gid \<or> gid \<in> set (path_ids p')))"

lemma extends_refl: "path_ok p \<Longrightarrow> extends db R p p"
  by (simp add: extends_def)

lemma extends_trans: "extends db R p q \<Longrightarrow> extends db R' q r \<Longrightarrow> (\<And>v. R v \<or> R' v \<Longrightarrow> R'' v) \<Longrightarrow> extends db R'' p r"
  unfolding extends_def by blast

lemma scan_groups_visits:
  assumes "path_ok p"
    and "\<And>h q. h \<in> set hs \<Longrightarrow> path_ok q \<Longrightarrow> set (path_ids p) \<subseteq> set (path_ids q) \<Longrightarrow>
      \<exists>b q'. check h q = Some (Inr (b, q')) \<and> visit db userId h q b q'"
    and "\<And>h. h \<in> set hs \<Longrightarrow> h AND GROUP_FLAG \<noteq> 0"
  shows "\<exists>b p'. scan_groups check hs p = Some (Inr (b, p')) \<and> extends db (\<lambda>v. \<exists>h. h \<in> set hs \<and> contains_group db h v) p p'
    \<and> (b \<longrightarrow> (\<exists>h. h \<in> set hs \<and> member_of db userId h))
    \<and> (\<not> b \<longrightarrow> explored db userId (set (path_ids p)) (set (path_ids p'))
        \<and> (\<forall>h. h \<in> set hs \<longrightarrow> unreachable db h \<or> h \<in> set (path_ids p')))"
  using assms
proof (induction hs arbitrary: p)
  case Nil
  then show ?case by (intro exI [of _ False] exI [of _ p]) (simp add: extends_refl explored_refl)
next
  case (Cons h hs)
  obtain b q where q: "check h p = Some (Inr (b, q))" "visit db userId h p b q"
    using Cons.prems(1) Cons.prems(2) [of h p] by auto
  have flag: "h AND GROUP_FLAG \<noteq> 0" using Cons.prems(3) by simp
  show ?case
  proof (cases b)
    case True
    have "extends db (\<lambda>v. \<exists>x. x \<in> set (h # hs) \<and> contains_group db x v) p q"
      using q(2) by (auto simp: visit_def extends_def)
    then show ?thesis using q True flag by (intro exI [of _ True] exI [of _ q]) (auto simp: visit_def)
  next
    case False
    have v: "extends db (contains_group db h) p q" "explored db userId (set (path_ids p)) (set (path_ids q))"
        "unreachable db h \<or> h \<in> set (path_ids q)"
      using q(2) False by (auto simp: visit_def)
    have ok: "path_ok q" "set (path_ids p) \<subseteq> set (path_ids q)" using v(1) by (auto simp: extends_def)
    have pre: "\<exists>b y'. check x y = Some (Inr (b, y')) \<and> visit db userId x y b y'"
      if "x \<in> set hs" "path_ok y" "set (path_ids q) \<subseteq> set (path_ids y)" for x y
      using Cons.prems(2) [of x y] that ok(2) by simp
    have "x AND GROUP_FLAG \<noteq> 0" if "x \<in> set hs" for x using Cons.prems(3) [of x] that by simp
    from Cons.IH [OF ok(1) pre this] obtain c r where r: "scan_groups check hs q = Some (Inr (c, r))"
        "extends db (\<lambda>v. \<exists>h. h \<in> set hs \<and> contains_group db h v) q r"
        "c \<longrightarrow> (\<exists>h. h \<in> set hs \<and> member_of db userId h)"
        "\<not> c \<longrightarrow> explored db userId (set (path_ids q)) (set (path_ids r))
          \<and> (\<forall>h. h \<in> set hs \<longrightarrow> unreachable db h \<or> h \<in> set (path_ids r))"
      by blast
    have "extends db (\<lambda>v. \<exists>x. x \<in> set (h # hs) \<and> contains_group db x v) p r"
      by (rule extends_trans [OF v(1) r(2)]) auto
    moreover have "set (path_ids q) \<subseteq> set (path_ids r)" using r(2) by (simp add: extends_def)
    then have "unreachable db h \<or> h \<in> set (path_ids r)" using v(3) by blast
    moreover have "scan_groups check (h # hs) p = Some (Inr (c, r))" using q(1) False r(1) flag by simp
    moreover have "\<not> c \<longrightarrow> explored db userId (set (path_ids p)) (set (path_ids r))"
      using r(4) explored_trans [OF v(2)] by blast
    moreover have "c \<longrightarrow> (\<exists>x. x \<in> set (h # hs) \<and> member_of db userId x)" using r(3) by auto
    ultimately show ?thesis using r(4) by (intro exI [of _ c] exI [of _ r]) (simp add: all_conj_distrib)
  qed
qed

lemma isMember_step:
  assumes "path_ok p" "sorted (u_members g)"
  shows "isMember (Suc fuel) db userId g p =
    (if u_id g = GROUP_EVERYONE then Some (Inr (True, p))
     else if isDisabled g then Some (Inr (False, p))
     else if userId \<in> set (u_members g) then Some (Inr (True, p))
     else if u_id g \<in> set (path_ids p) then Some (Inr (False, p))
     else scan_groups (CheckUserMembershipInternal fuel db userId) (nested_groups g) (add_path (u_id g) p))"
  using bsearch_member [OF assms(2), of userId] contains_path_ids [OF assms(1), of "u_id g"]
    scan_groups_takeWhile [of "CheckUserMembershipInternal fuel db userId" "rev (u_members g)" "add_path (u_id g) p"]
  by (simp add: nested_groups_def CheckUserMembershipInternal_def [abs_def])

lemma visit_stay:
  assumes "path_ok p" "b \<Longrightarrow> member_of db userId gid" "\<not> b \<Longrightarrow> unreachable db gid \<or> gid \<in> set (path_ids p)"
  shows "visit db userId gid p b p"
  using assms by (cases b) (simp_all add: visit_def extends_refl explored_refl)

lemma visit_inner:
  assumes "db_ok db" "g \<in> set db" "isGroup g" "\<not> isDisabled g" "u_id g \<noteq> GROUP_EVERYONE" "userId \<notin> set (u_members g)"
    and "path_ok p" "u_id g \<notin> set (path_ids p)"
    and ext: "extends db (\<lambda>v. \<exists>h. h \<in> set (nested_groups g) \<and> contains_group db h v) (add_path (u_id g) p) p'"
    and yes: "b \<longrightarrow> (\<exists>h. h \<in> set (nested_groups g) \<and> member_of db userId h)"
    and no: "\<not> b \<longrightarrow> explored db userId (set (path_ids (add_path (u_id g) p))) (set (path_ids p'))
      \<and> (\<forall>h. h \<in> set (nested_groups g) \<longrightarrow> unreachable db h \<or> h \<in> set (path_ids p'))"
  shows "visit db userId (u_id g) p b p'"
proof -
  note look = lookup_unique [OF assms(1,2)] and n = set_nested_groups [OF assms(1,2)]
  note ids = add_path_ids [OF assms(7), of "u_id g"]
  have "extends db (\<lambda>v. v = u_id g) p (add_path (u_id g) p)"
    using assms(2,3,7,8) by (auto simp: extends_def ids add_path_ok)
  then have "extends db (contains_group db (u_id g)) p p'"
    by (rule extends_trans [OF _ ext]) (use n look in \<open>auto intro: contains_group.intros\<close>)
  moreover have "member_of db userId (u_id g)" if b
    using yes that n look assms(4) by (auto intro: member_of.nested)
  moreover have "explored db userId (set (path_ids p)) (set (path_ids p'))" "u_id g \<in> set (path_ids p')" if "\<not> b"
  proof -
    have e: "explored db userId (insert (u_id g) (set (path_ids p))) (set (path_ids p'))" using no that ids by simp
    then show "u_id g \<in> set (path_ids p')" by (simp add: explored_def)
    have "\<forall>h. h \<in> set (u_members g) \<and> h AND GROUP_FLAG \<noteq> 0 \<longrightarrow> unreachable db h \<or> h \<in> set (path_ids p')"
      using no that n by blast
    then show "explored db userId (set (path_ids p)) (set (path_ids p'))"
      using e look assms(5,6) unfolding explored_def by blast
  qed
  ultimately show ?thesis by (simp add: visit_def)
qed

lemma check_internal_visits:
  assumes "h AND GROUP_FLAG \<noteq> 0" "path_ok q" "unvisited db q < fuel"
    and "\<And>k. k \<in> set db \<Longrightarrow> isGroup k \<Longrightarrow> path_ok q \<Longrightarrow> unvisited db q < fuel \<Longrightarrow>
      \<exists>b q'. isMember fuel db userId k q = Some (Inr (b, q')) \<and> visit db userId (u_id k) q b q'"
  shows "\<exists>b q'. CheckUserMembershipInternal fuel db userId h q = Some (Inr (b, q')) \<and> visit db userId h q b q'"
proof (cases "lookup_db db h")
  case None
  have "visit db userId h q False q" by (rule visit_stay) (simp_all add: assms(2) unreachable_def None)
  then show ?thesis using None by (intro exI [of _ False] exI [of _ q]) (simp add: CheckUserMembershipInternal_def)
next
  case (Some k)
  have k: "k \<in> set db" "u_id k = h" using lookup_in [OF Some] by simp_all
  have "isGroup k" using assms(1) k(2) by (simp add: isGroup_def)
  then show ?thesis using assms(4) [OF k(1) _ assms(2,3)] Some k(2) by (simp add: CheckUserMembershipInternal_def)
qed

lemma isMember_visits:
  assumes db: "db_ok db"
  shows "g \<in> set db \<Longrightarrow> isGroup g \<Longrightarrow> path_ok p \<Longrightarrow> unvisited db p < fuel \<Longrightarrow>
    \<exists>b p'. isMember fuel db userId g p = Some (Inr (b, p')) \<and> visit db userId (u_id g) p b p'"
proof (induction fuel arbitrary: g p)
  case (Suc fuel)
  note g = Suc.prems(1) note ok = Suc.prems(3) note look = lookup_unique [OF db g]
  have step: "isMember (Suc fuel) db userId g p =
    (if u_id g = GROUP_EVERYONE then Some (Inr (True, p))
     else if isDisabled g then Some (Inr (False, p))
     else if userId \<in> set (u_members g) then Some (Inr (True, p))
     else if u_id g \<in> set (path_ids p) then Some (Inr (False, p))
     else scan_groups (CheckUserMembershipInternal fuel db userId) (nested_groups g) (add_path (u_id g) p))"
    by (rule isMember_step [OF ok]) (use db g in \<open>simp add: db_ok_def\<close>)
  show ?case
  proof (cases "u_id g = GROUP_EVERYONE \<or> isDisabled g \<or> userId \<in> set (u_members g) \<or> u_id g \<in> set (path_ids p)")
    case True
    let ?b = "u_id g = GROUP_EVERYONE \<or> \<not> isDisabled g \<and> userId \<in> set (u_members g)"
    have "isMember (Suc fuel) db userId g p = Some (Inr (?b, p))" unfolding step using True by auto
    moreover have "visit db userId (u_id g) p ?b p"
    proof (rule visit_stay [OF ok])
      show "member_of db userId (u_id g)" if ?b using that
      proof
        assume "u_id g = GROUP_EVERYONE"
        then show ?thesis using look member_of.everyone [of db g userId] by simp
      next
        assume "\<not> isDisabled g \<and> userId \<in> set (u_members g)"
        then show ?thesis using look by (blast intro: member_of.direct)
      qed
      show "unreachable db (u_id g) \<or> u_id g \<in> set (path_ids p)" if "\<not> ?b"
        using that True look by (auto simp: unreachable_def)
    qed
    ultimately show ?thesis by blast
  next
    case False
    let ?p1 = "add_path (u_id g) p"
    have p1: "path_ok ?p1" by (simp add: add_path_ok ok)
    have fuel: "unvisited db ?p1 < fuel" using unvisited_add [OF ok g] False Suc.prems(4) by simp
    have nested: "\<exists>b q'. CheckUserMembershipInternal fuel db userId h q = Some (Inr (b, q')) \<and> visit db userId h q b q'"
      if "h AND GROUP_FLAG \<noteq> 0" "path_ok q" "set (path_ids ?p1) \<subseteq> set (path_ids q)" for h q
    proof (rule check_internal_visits [OF that(1,2)])
      show "unvisited db q < fuel" using unvisited_mono [OF that(3), of db] fuel by simp
    qed (rule Suc.IH)
    have flags: "h AND GROUP_FLAG \<noteq> 0" if "h \<in> set (nested_groups g)" for h
      using set_nested_groups [OF db g] that by blast
    from scan_groups_visits [OF p1 nested flags] obtain b p' where
      r: "scan_groups (CheckUserMembershipInternal fuel db userId) (nested_groups g) ?p1 = Some (Inr (b, p'))"
        "extends db (\<lambda>v. \<exists>h. h \<in> set (nested_groups g) \<and> contains_group db h v) ?p1 p'"
        "b \<longrightarrow> (\<exists>h. h \<in> set (nested_groups g) \<and> member_of db userId h)"
        "\<not> b \<longrightarrow> explored db userId (set (path_ids ?p1)) (set (path_ids p'))
          \<and> (\<forall>h. h \<in> set (nested_groups g) \<longrightarrow> unreachable db h \<or> h \<in> set (path_ids p'))"
      using flags by blast
    have "visit db userId (u_id g) p b p'" using visit_inner [OF db g Suc.prems(2) _ _ _ ok _ r(2-4)] False by blast
    moreover have "isMember (Suc fuel) db userId g p = Some (Inr (b, p'))" unfolding step using False r(1) by simp
    ultimately show ?thesis by blast
  qed
qed simp

lemma unvisited_new: "unvisited db p \<le> length db"
proof -
  have "unvisited db p \<le> card (u_id ` set db)" unfolding unvisited_def by (intro card_mono) auto
  also have "\<dots> \<le> length db" by (rule order_trans [OF card_image_le card_length]) simp
  finally show ?thesis .
qed

text \<open>From an empty path the answer is exact.\<close>

lemma visit_exact:
  assumes "visit db userId gid p b p'" "path_ids p = []"
  shows "b \<longleftrightarrow> member_of db userId gid"
  using assms explored_not_member [of db userId gid "set (path_ids p')"] by (auto simp: visit_def)

lemma member_of_lookup: "member_of db userId gid \<Longrightarrow> lookup_db db gid \<noteq> None"
  by (cases rule: member_of.cases) auto

lemma membership_decided:
  assumes "db_ok db" and "length db < fuel"
  shows "CheckUserMembership fuel db userId gid =
    Some (Inr (gid AND GROUP_FLAG \<noteq> 0 \<and> (gid = GROUP_EVERYONE \<or> member_of db userId gid)))"
proof (cases "gid AND GROUP_FLAG = 0 \<or> gid = GROUP_EVERYONE")
  case True
  then show ?thesis by (auto simp: CheckUserMembership_def)
next
  case False
  have fuel: "unvisited db new_path < fuel" using unvisited_new [of db new_path] assms(2) by simp
  have "\<exists>b q'. CheckUserMembershipInternal fuel db userId gid new_path = Some (Inr (b, q')) \<and> visit db userId gid new_path b q'"
  proof (rule check_internal_visits [OF _ new_path_ok fuel])
    show "gid AND GROUP_FLAG \<noteq> 0" using False by blast
  qed (rule isMember_visits [OF assms(1)])
  then obtain b q' where r: "CheckUserMembershipInternal fuel db userId gid new_path = Some (Inr (b, q'))"
      "visit db userId gid new_path b q'" by blast
  have "b \<longleftrightarrow> member_of db userId gid" by (rule visit_exact [OF r(2) new_path_ids])
  then show ?thesis using r(1) False by (auto simp: CheckUserMembership_def)
qed

text \<open>
  C6. Membership in nested groups: the search always ends, also when groups contain each other in
  cycles, and decides exactly whether the user is a member of the group, of an enabled group nested
  in it through enabled groups, or the group is the one everyone belongs to. It needs no more
  nested calls than there are objects in the database.
\<close>

theorem group_membership_exact:
  assumes "db_ok db" and "length db < fuel"
  shows "CheckUserMembership fuel db userId gid =
    Some (Inr (gid AND GROUP_FLAG \<noteq> 0 \<and> (gid = GROUP_EVERYONE \<or> member_of db userId gid)))"
  using assms by (rule membership_decided)

text \<open>Two groups that contain each other, the user in the second.\<close>

definition mutual_groups :: "db_object list" where
  "mutual_groups =
     [\<lparr> u_id = 1, u_flags = 0, u_systemRights = 0, u_members = [] \<rparr>,
      \<lparr> u_id = 0x40000001, u_flags = 0, u_systemRights = 0, u_members = [0x40000002] \<rparr>,
      \<lparr> u_id = 0x40000002, u_flags = 0, u_systemRights = 0, u_members = [1, 0x40000001] \<rparr>]"

lemma mutual_groups_ok: "db_ok mutual_groups"
  by (auto simp: db_ok_def mutual_groups_def)

lemma mutual_member: "member_of mutual_groups 1 0x40000001"
proof -
  have l: "lookup_db mutual_groups 0x40000001 =
        Some \<lparr> u_id = 0x40000001, u_flags = 0, u_systemRights = 0, u_members = [0x40000002] \<rparr>"
      "lookup_db mutual_groups 0x40000002 =
        Some \<lparr> u_id = 0x40000002, u_flags = 0, u_systemRights = 0, u_members = [1, 0x40000001] \<rparr>"
    by (simp_all add: lookup_db_def mutual_groups_def)
  have "member_of mutual_groups 1 0x40000002" by (rule member_of.direct [OF l(2)]) (simp_all add: isDisabled_def)
  then show ?thesis by (intro member_of.nested [OF l(1)]) (simp_all add: isDisabled_def)
qed

theorem group_membership_exact_witness:
  "CheckUserMembership 4 mutual_groups 1 0x40000001 = Some (Inr True)
   \<and> CheckUserMembership 4 mutual_groups 2 0x40000001 = Some (Inr (member_of mutual_groups 2 0x40000001))"
  using group_membership_exact [OF mutual_groups_ok, of 4 1 "0x40000001"]
    group_membership_exact [OF mutual_groups_ok, of 4 2 "0x40000001"] mutual_member
  by (simp add: mutual_groups_def)

end
