(* ===== verification/Nx_Group_Rights.thy ===== *)
theory Nx_Group_Rights
  imports Nx_Groups
begin

text \<open>
  What the rights of groups give a user (\<^verbatim>\<open>GetEffectiveSystemRights\<close> in
  \<^verbatim>\<open>src/src/server/core/userdb.cpp\<close>), and the changes of group membership in
  \<^verbatim>\<open>src/src/server/core/userdb_objects.cpp\<close> and \<^verbatim>\<open>userdb.cpp\<close>.
\<close>

section \<open>System rights\<close>

definition active_group :: "db_object \<Rightarrow> bool" where
  "active_group g \<longleftrightarrow> isGroup g \<and> \<not> isDeleted g \<and> \<not> isDisabled g"

text \<open>Every group on the path lies inside some group of the user, and the path is short enough for its buffer.\<close>

definition path_inside :: "db_object list \<Rightarrow> u32 \<Rightarrow> search_path \<Rightarrow> bool" where
  "path_inside db userId p \<longleftrightarrow> path_ok p \<and> sp_extended p = None
     \<and> (\<forall>v. v \<in> set (path_ids p) \<longrightarrow> (\<exists>h. member_of db userId h \<and> contains_group db h v))"

lemma path_inside_new: "path_inside db userId new_path"
  by (simp add: path_inside_def new_path_ok new_path_ids) (simp add: new_path_def)

lemma path_inside_clear: "path_ok p \<Longrightarrow> sp_extended p = None \<Longrightarrow> path_inside db userId (clear_path p)"
  by (simp add: path_inside_def clear_path_ok clear_path_ids) (simp add: clear_path_def)

lemma extends_short:
  assumes "extends db R p p'" "path_ids p = []" "length (filter isGroup db) \<le> PATH_BUFFER"
  shows "path_ok p' \<and> sp_extended p' = None"
proof -
  have ok: "path_ok p'" and d: "distinct (path_ids p')"
    and sub: "set (path_ids p') \<subseteq> u_id ` set (filter isGroup db)"
    using assms(1,2) by (auto simp: extends_def)
  have "length (path_ids p') = card (set (path_ids p'))" using d by (simp add: distinct_card)
  also have "\<dots> \<le> card (u_id ` set (filter isGroup db))" by (rule card_mono [OF _ sub]) simp
  also have "\<dots> \<le> length (filter isGroup db)" by (rule order_trans [OF card_image_le card_length]) simp
  finally have "length (path_ids p') \<le> PATH_BUFFER" using assms(3) by simp
  then show ?thesis using path_not_extended [OF ok] ok by simp
qed

text \<open>The rights a user gets from the groups in a list, as bounds on the bits of the result.\<close>

definition rights_between ::
  "db_object list \<Rightarrow> u32 \<Rightarrow> db_object list \<Rightarrow> u64 \<Rightarrow> u64 \<Rightarrow> bool" where
  "rights_between db userId gs own r \<longleftrightarrow>
     (\<forall>n. bit own n \<longrightarrow> bit r n)
     \<and> (\<forall>g n. g \<in> set gs \<and> active_group g \<and> member_of db userId (u_id g) \<and> bit (u_systemRights g) n \<longrightarrow> bit r n)
     \<and> (\<forall>n. bit r n \<longrightarrow> bit own n \<or> (\<exists>g h. g \<in> set gs \<and> active_group g \<and> bit (u_systemRights g) n
          \<and> member_of db userId h \<and> contains_group db h (u_id g)))"

lemma rights_between_skip:
  "rights_between db userId gs own r \<Longrightarrow> \<not> (active_group g \<and> member_of db userId (u_id g)) \<Longrightarrow>
   rights_between db userId (g # gs) own r"
  unfolding rights_between_def by (simp add: Ball_def) blast

lemma rights_between_add:
  "rights_between db userId gs (own OR u_systemRights g) r \<Longrightarrow> active_group g \<Longrightarrow>
   member_of db userId h \<Longrightarrow> contains_group db h (u_id g) \<Longrightarrow> rights_between db userId (g # gs) own r"
  unfolding rights_between_def bit_or_iff by (simp add: Ball_def) blast

lemma rights_loop_between:
  assumes "db_ok db" "length (filter isGroup db) \<le> PATH_BUFFER" "length db < fuel"
  shows "set gs \<subseteq> set db \<Longrightarrow> path_inside db userId p \<Longrightarrow>
    \<exists>r. rights_loop fuel db userId gs p own = Some (Inr r) \<and> rights_between db userId gs own r"
proof (induction gs arbitrary: p own)
  case Nil
  then show ?case by (simp add: rights_between_def)
next
  case (Cons g gs)
  have sub: "set gs \<subseteq> set db" "g \<in> set db" using Cons.prems(1) by simp_all
  have p: "path_ok p" "sp_extended p = None" using Cons.prems(2) by (simp_all add: path_inside_def)
  show ?case
  proof (cases "active_group g")
    case False
    then show ?thesis
      using Cons.IH [OF sub(1) Cons.prems(2), of own] rights_between_skip [of db userId gs own _ g]
      by (auto simp: active_group_def)
  next
    case True
    have skip: "rights_loop fuel db userId (g # gs) p own =
      (if u_id g \<in> set (path_ids p) then rights_loop fuel db userId gs p (own OR u_systemRights g)
       else (case isMember fuel db userId g (clear_path p) of
               None \<Rightarrow> None
             | Some (Inl f) \<Rightarrow> Some (Inl f)
             | Some (Inr (True, p')) \<Rightarrow> rights_loop fuel db userId gs p' (own OR u_systemRights g)
             | Some (Inr (False, p')) \<Rightarrow> rights_loop fuel db userId gs (clear_path p') own))"
      using True by (simp add: active_group_def contains_path_ids [OF p(1)])
    show ?thesis
    proof (cases "u_id g \<in> set (path_ids p)")
      case inside: True
      then obtain h where "member_of db userId h" "contains_group db h (u_id g)"
        using Cons.prems(2) by (auto simp: path_inside_def)
      then show ?thesis
        unfolding skip using inside True Cons.IH [OF sub(1) Cons.prems(2)] rights_between_add by (metis (no_types, lifting))
    next
      case outside: False
      have c: "path_ok (clear_path p)" "path_ids (clear_path p) = []" by (simp_all add: clear_path_ok clear_path_ids p)
      have "unvisited db (clear_path p) < fuel" using unvisited_new [of db "clear_path p"] assms(3) by simp
      moreover have "isGroup g" using True by (simp add: active_group_def)
      ultimately obtain b p' where
        r: "isMember fuel db userId g (clear_path p) = Some (Inr (b, p'))" "visit db userId (u_id g) (clear_path p) b p'"
        using isMember_visits [OF assms(1) sub(2) _ c(1), of fuel userId] by blast
      have b: "b \<longleftrightarrow> member_of db userId (u_id g)" by (rule visit_exact [OF r(2) c(2)])
      have ext: "extends db (contains_group db (u_id g)) (clear_path p) p'" using r(2) by (simp add: visit_def)
      have p': "path_ok p'" "sp_extended p' = None" using extends_short [OF ext c(2) assms(2)] by simp_all
      show ?thesis
      proof (cases b)
        case member: True
        have "path_inside db userId p'"
          using ext c(2) p' b member by (auto simp: path_inside_def extends_def)
        from Cons.IH [OF sub(1) this, of "own OR u_systemRights g"] obtain r' where
          "rights_loop fuel db userId gs p' (own OR u_systemRights g) = Some (Inr r')"
          "rights_between db userId gs (own OR u_systemRights g) r'" by blast
        then show ?thesis
          unfolding skip using outside r(1) member b rights_between_add [OF _ True _ contains_group.self] by simp
      next
        case other: False
        from Cons.IH [OF sub(1) path_inside_clear [OF p'], of own] show ?thesis
          unfolding skip using outside r(1) other b rights_between_skip [of db userId gs own _ g] by auto
      qed
    qed
  qed
qed

text \<open>
  C25. System rights from groups, with at most 256 groups: the computation ends without a fault, and
  the result has the user's own rights and those of every active group the user is a member of,
  directly or through nested groups. Every other bit comes from an active group that lies inside a
  group of the user.
\<close>

theorem system_rights_cover:
  assumes "db_ok db" "length (filter isGroup db) \<le> 256" "length db < fuel"
    and "lookup_db db userId = Some user" "\<not> isGroup user"
  shows "\<exists>r. GetEffectiveSystemRights fuel db userId = Some (Inr r)
    \<and> (\<forall>n. bit (u_systemRights user) n \<longrightarrow> bit r n)
    \<and> (\<forall>g n. g \<in> set db \<and> active_group g \<and> member_of db userId (u_id g) \<and> bit (u_systemRights g) n \<longrightarrow> bit r n)
    \<and> (\<forall>n. bit r n \<longrightarrow> bit (u_systemRights user) n \<or> (\<exists>g h. g \<in> set db \<and> active_group g
         \<and> bit (u_systemRights g) n \<and> member_of db userId h \<and> contains_group db h (u_id g)))"
  using rights_loop_between [OF assms(1-3) subset_refl path_inside_new, of userId "u_systemRights user"] assms(4,5)
  by (simp add: GetEffectiveSystemRights_def rights_between_def)

text \<open>
  The outer group contains a group with rights the user is not in, and a group with the user in it.
\<close>

definition outer_first :: "db_object list" where
  "outer_first =
     [\<lparr> u_id = 1, u_flags = 0, u_systemRights = 0, u_members = [] \<rparr>,
      \<lparr> u_id = 0x40000001, u_flags = 0, u_systemRights = 1, u_members = [0x40000002, 0x40000003] \<rparr>,
      \<lparr> u_id = 0x40000003, u_flags = 0, u_systemRights = 2, u_members = [] \<rparr>,
      \<lparr> u_id = 0x40000002, u_flags = 0, u_systemRights = 4, u_members = [1] \<rparr>]"

lemma outer_first_ok: "db_ok outer_first"
  by (auto simp: db_ok_def outer_first_def)

theorem system_rights_cover_witness:
  "\<exists>r. GetEffectiveSystemRights 5 outer_first 1 = Some (Inr r) \<and> bit r 2"
proof -
  have m: "member_of outer_first 1 0x40000002"
    by (rule member_of.direct [where g = "outer_first ! 3"]) (simp_all add: outer_first_def lookup_db_def isDisabled_def)
  have g: "outer_first ! 3 \<in> set outer_first" "u_id (outer_first ! 3) = 0x40000002"
      "active_group (outer_first ! 3)" "bit (u_systemRights (outer_first ! 3)) 2"
    by (simp_all add: outer_first_def active_group_def isGroup_def isDeleted_def isDisabled_def)
  have "length (filter isGroup outer_first) \<le> 256" "length outer_first < 5"
      "lookup_db outer_first 1 = Some (outer_first ! 0)" "\<not> isGroup (outer_first ! 0)"
    by (simp_all add: outer_first_def lookup_db_def isGroup_def)
  from system_rights_cover [OF outer_first_ok this] obtain r where
    "GetEffectiveSystemRights 5 outer_first 1 = Some (Inr r)"
    "\<forall>g n. g \<in> set outer_first \<and> active_group g \<and> member_of outer_first 1 (u_id g) \<and> bit (u_systemRights g) n \<longrightarrow> bit r n"
    by blast
  then show ?thesis using g m by (intro exI [of _ r]) metis
qed

text \<open>
  The search path of the outer group keeps the groups whose search failed, and the next group is
  looked up there. So the user gets the rights of a group they are not a member of.
\<close>

lemma system_rights_of_other_group:
  "GetEffectiveSystemRights 5 outer_first 1 = Some (Inr 7)" "\<not> member_of outer_first 1 0x40000003"
proof -
  show "GetEffectiveSystemRights 5 outer_first 1 = Some (Inr 7)" by code_simp
  show "\<not> member_of outer_first 1 0x40000003"
  proof
    assume "member_of outer_first 1 0x40000003"
    then show False by cases (auto simp: outer_first_def lookup_db_def)
  qed
qed

section \<open>Changes of membership\<close>

text \<open>An operation returns the changed object and the identifiers of the updates it announces to clients.\<close>

definition addUser :: "u32 \<Rightarrow> db_object \<Rightarrow> db_object \<times> u32 list" where
  "addUser userId g =
     (if bsearch userId (u_members g) \<noteq> None then (g, [])
      else (g\<lparr> u_members := sort (u_members g @ [userId]), u_flags := u_flags g OR UF_MODIFIED \<rparr>, [u_id g]))"

definition deleteUser :: "u32 \<Rightarrow> db_object \<Rightarrow> db_object \<times> u32 list" where
  "deleteUser userId g =
     (case bsearch userId (u_members g) of
        None \<Rightarrow> (g, [])
      | Some i \<Rightarrow> (g\<lparr> u_members := take i (u_members g) @ drop (Suc i) (u_members g),
                      u_flags := u_flags g OR UF_MODIFIED \<rparr>, [u_id g]))"

text \<open>
  A member taken from a message: old members found are marked in the old array, which is searched
  again for the next member.
\<close>

definition message_member :: "u32 \<Rightarrow> u32 list \<times> u32 list \<times> u32 list \<Rightarrow> u32 list \<times> u32 list \<times> u32 list" where
  "message_member userId s =
     (let (members, old, updates) = s in
      case bsearch userId old of
        Some i \<Rightarrow> (members @ [userId], old[i := 0xFFFFFFFF], updates)
      | None \<Rightarrow> (members @ [userId], old, updates @ [userId]))"

definition modify_members :: "u32 list \<Rightarrow> db_object \<Rightarrow> db_object \<times> u32 list" where
  "modify_members ids g =
     (if ids \<noteq> [] then
        (let (members, old, updates) = fold message_member ids ([], u_members g, [])
         in (g\<lparr> u_members := sort members \<rparr>, updates @ filter (\<lambda>m. m \<noteq> 0xFFFFFFFF) old))
      else (g\<lparr> u_members := [] \<rparr>, u_members g))"

definition UpdateGroupMembership :: "u32 \<Rightarrow> u32 list \<Rightarrow> db_object list \<Rightarrow> (db_object \<times> u32 list) list" where
  "UpdateGroupMembership userId groups db =
     map (\<lambda>g. if isGroup g \<and> u_id g \<noteq> GROUP_EVERYONE
              then (if u_id g \<in> set groups then addUser userId g else deleteUser userId g) else (g, [])) db"

definition FillGroupMembershipInfo :: "u32 \<Rightarrow> db_object list \<Rightarrow> u32 list" where
  "FillGroupMembershipInfo userId db =
     map u_id (filter (\<lambda>g. isGroup g \<and> u_id g \<noteq> GROUP_EVERYONE \<and> isMember_direct userId g) db)"

definition delete_db_object :: "u32 \<Rightarrow> db_object list \<Rightarrow> (db_object \<times> u32 list) list" where
  "delete_db_object gid db =
     (if lookup_db db gid = None then map (\<lambda>g. (g, [])) db
      else map (\<lambda>g. let g1 = (if u_id g = gid then g\<lparr> u_flags := u_flags g OR UF_DELETED \<rparr> else g)
                     in if gid AND GROUP_FLAG = 0 \<and> isGroup g1 then deleteUser gid g1 else (g1, [])) db)"

lemma set_addUser: "sorted (u_members g) \<Longrightarrow> set (u_members (fst (addUser userId g))) = insert userId (set (u_members g))"
  using bsearch_member [of "u_members g" userId] by (auto simp: addUser_def)

lemma sorted_addUser: "sorted (u_members g) \<Longrightarrow> sorted (u_members (fst (addUser userId g)))"
  by (simp add: addUser_def)

lemma distinct_addUser:
  "sorted (u_members g) \<Longrightarrow> distinct (u_members g) \<Longrightarrow> distinct (u_members (fst (addUser userId g)))"
  using bsearch_member [of "u_members g" userId] by (auto simp: addUser_def)

lemma take_drop_nth: "i < length xs \<Longrightarrow> mset (take i xs @ drop (Suc i) xs) = mset xs - {#xs ! i#}"
proof -
  assume "i < length xs"
  then have "mset xs = mset (take i xs @ xs ! i # drop (Suc i) xs)" by (simp flip: id_take_nth_drop)
  then show ?thesis by simp
qed

lemma sorted_take_drop: "sorted xs \<Longrightarrow> sorted (take i xs @ drop (Suc i) xs)"
proof -
  assume "sorted xs"
  then have "sorted (take i xs @ drop i xs)" by simp
  then show ?thesis
    using set_drop_subset_set_drop [of i "Suc i" xs] \<open>sorted xs\<close>
    unfolding sorted_append by (auto intro: sorted_wrt_drop)
qed

lemma mset_deleteUser: "sorted (u_members g) \<Longrightarrow> mset (u_members (fst (deleteUser userId g))) = mset (u_members g) - {#userId#}"
proof (cases "bsearch userId (u_members g)")
  case None
  assume "sorted (u_members g)"
  then have "userId \<notin># mset (u_members g)" using bsearch_member [of "u_members g" userId] None by simp
  then show ?thesis using None by (simp add: deleteUser_def diff_single_trivial)
next
  case (Some i)
  then show ?thesis using bsearch_Some [OF Some] take_drop_nth [of i "u_members g"] by (simp add: deleteUser_def)
qed

lemma sorted_deleteUser: "sorted (u_members g) \<Longrightarrow> sorted (u_members (fst (deleteUser userId g)))"
  by (simp add: deleteUser_def sorted_take_drop split: option.split)

lemma set_deleteUser:
  assumes "sorted (u_members g)" "distinct (u_members g)"
  shows "set (u_members (fst (deleteUser userId g))) = set (u_members g) - {userId}"
    and "distinct (u_members (fst (deleteUser userId g)))"
proof -
  have m: "mset (u_members (fst (deleteUser userId g))) = mset (remove1 userId (u_members g))"
    using mset_deleteUser [OF assms(1)] by simp
  then show "set (u_members (fst (deleteUser userId g))) = set (u_members g) - {userId}"
    using mset_eq_setD [OF m] assms(2) by simp
  show "distinct (u_members (fst (deleteUser userId g)))"
    using mset_eq_imp_distinct_iff [OF m] assms(2) by simp
qed

text \<open>After the update the user is a direct member of exactly the groups named, if no list has duplicates.\<close>

lemma UpdateGroupMembership_exact:
  assumes "g \<in> set db" "isGroup g" "u_id g \<noteq> GROUP_EVERYONE" "sorted (u_members g)" "distinct (u_members g)"
  obtains g' l where "(g', l) \<in> set (UpdateGroupMembership userId groups db)" "u_id g' = u_id g"
    "userId \<in> set (u_members g') \<longleftrightarrow> u_id g \<in> set groups"
    "set (u_members g') - {userId} = set (u_members g) - {userId}"
proof -
  let ?r = "if u_id g \<in> set groups then addUser userId g else deleteUser userId g"
  have "?r \<in> set (UpdateGroupMembership userId groups db)"
    using assms(1-3) by (force simp: UpdateGroupMembership_def)
  moreover have "u_id (fst ?r) = u_id g" by (simp add: addUser_def deleteUser_def split: option.split)
  moreover have "userId \<in> set (u_members (fst ?r)) \<longleftrightarrow> u_id g \<in> set groups"
      "set (u_members (fst ?r)) - {userId} = set (u_members g) - {userId}"
    using set_addUser [OF assms(4)] set_deleteUser(1) [OF assms(4,5)] by auto
  ultimately show thesis using that [of "fst ?r" "snd ?r"] by simp
qed

text \<open>A message may name a member twice; removing the member then leaves one copy behind.\<close>

lemma message_members: "fst (fold message_member ids (ms, old, l)) = ms @ ids"
  by (induction ids arbitrary: ms old l) (auto simp: message_member_def split: option.split)

lemma set_modify_members: "set (u_members (fst (modify_members ids g))) = set ids"
    and sorted_modify_members: "sorted (u_members (fst (modify_members ids g)))"
    and mset_modify_members: "mset (u_members (fst (modify_members ids g))) = mset ids"
  using message_members [of ids "[]" "u_members g" "[]"]
  by (auto simp: modify_members_def Let_def case_prod_beta)

lemma duplicate_member_survives:
  "userId \<in> set (u_members (fst (deleteUser userId (fst (modify_members [userId, userId] g)))))"
proof -
  have "userId \<in># mset (u_members (fst (deleteUser userId (fst (modify_members [userId, userId] g)))))"
    using mset_deleteUser [OF sorted_modify_members, of userId "[userId, userId]" g] by (simp add: mset_modify_members)
  then show ?thesis by simp
qed

end
