(* ===== verification/Nx_Acl.thy ===== *)
theory Nx_Acl
  imports Nx_Prelude
begin

text \<open>
  Access lists of objects (\<^verbatim>\<open>AccessList\<close> in \<^verbatim>\<open>src/src/server/core/acl.cpp\<close> and
  \<^verbatim>\<open>src/src/server/include/nms_objects.h\<close>): the rights assigned on an object, and the cache of
  rights inherited from its parents. A message is the function from field numbers to the
  unsigned 32 bit value of the field, zero for a field that is missing. Membership in groups is a
  parameter here. Each operation runs under the mutex of the list.
\<close>

section \<open>Operations\<close>

abbreviation (input) "VID_ACL_SIZE \<equiv> (32 :: u32)"
abbreviation (input) "VID_ACL_USER_BASE \<equiv> (0x1000 :: u32)"
abbreviation (input) "VID_ACL_RIGHTS_BASE \<equiv> (0x2000 :: u32)"
abbreviation (input) "GROUP_BIT \<equiv> (0x40000000 :: u32)"

record acl_element =
  e_userId :: u32
  e_accessRights :: u32

record access_list =
  acl_elements :: "acl_element list"
  acl_cache :: "acl_element list"

definition new_acl :: access_list where
  "new_acl = \<lparr> acl_elements = [], acl_cache = [] \<rparr>"

fun find_user :: "u32 \<Rightarrow> acl_element list \<Rightarrow> nat option" where
  "find_user userId [] = None"
| "find_user userId (e # es) = (if e_userId e = userId then Some 0 else map_option Suc (find_user userId es))"

definition remove_element :: "nat \<Rightarrow> acl_element list \<Rightarrow> acl_element list" where
  "remove_element i es = take i es @ drop (Suc i) es"

text \<open>One entry of the message; the marks have one byte for each element the list had before the message.\<close>

definition message_entry ::
  "u32 \<times> u32 \<Rightarrow> acl_element list \<times> bool list \<Rightarrow> fault + acl_element list \<times> bool list" where
  "message_entry m s =
     (let (userId, rights) = m; (es, marks) = s in
      case find_user userId es of
        Some j \<Rightarrow>
          if j < length marks
          then Inr (es[j := (es ! j)\<lparr> e_accessRights := rights \<rparr>], marks[j := True])
          else Inl Bad_access
      | None \<Rightarrow> Inr (es @ [\<lparr> e_userId = userId, e_accessRights = rights \<rparr>], marks))"

fun message_loop ::
  "(u32 \<times> u32) list \<Rightarrow> acl_element list \<times> bool list \<Rightarrow> fault + acl_element list \<times> bool list" where
  "message_loop [] s = Inr s"
| "message_loop (m # ms) s = sum_bind (message_entry m s) (message_loop ms)"

text \<open>The loop from the last of the former elements down that removes those without a mark.\<close>

fun remove_unmarked :: "nat \<Rightarrow> bool list \<Rightarrow> acl_element list \<Rightarrow> acl_element list" where
  "remove_unmarked 0 marks es = es"
| "remove_unmarked (Suc i) marks es =
     remove_unmarked i marks (if \<not> marks ! i then remove_element i es else es)"

definition message_entries :: "(u32 \<Rightarrow> u32) \<Rightarrow> (u32 \<times> u32) list" where
  "message_entries msg =
     map (\<lambda>i. (msg (VID_ACL_USER_BASE + of_nat i), msg (VID_ACL_RIGHTS_BASE + of_nat i)))
       [0..<nat (sint (msg VID_ACL_SIZE))]"

definition updateFromMessage_acl :: "(u32 \<Rightarrow> u32) \<Rightarrow> access_list \<Rightarrow> fault + access_list" where
  "updateFromMessage_acl msg l =
     (if sint (msg VID_ACL_SIZE) > 0 then
        (let originalSize = length (acl_elements l) in
         sum_bind (message_loop (message_entries msg) (acl_elements l, replicate originalSize False)) (\<lambda>(es, marks).
           Inr (l\<lparr> acl_elements := remove_unmarked originalSize marks es, acl_cache := [] \<rparr>)))
      else Inr (l\<lparr> acl_elements := [], acl_cache := [] \<rparr>))"

definition add_to :: "u32 \<Rightarrow> u32 \<Rightarrow> acl_element list \<Rightarrow> bool \<times> acl_element list" where
  "add_to userId rights es =
     (case find_user userId es of
        Some i \<Rightarrow>
          if e_accessRights (es ! i) = rights then (False, es)
          else (True, es[i := (es ! i)\<lparr> e_accessRights := rights \<rparr>])
      | None \<Rightarrow> (True, es @ [\<lparr> e_userId = userId, e_accessRights = rights \<rparr>]))"

definition addElement :: "u32 \<Rightarrow> u32 \<Rightarrow> bool \<Rightarrow> access_list \<Rightarrow> bool \<times> access_list" where
  "addElement userId rights cached l =
     (if cached then (let (b, es) = add_to userId rights (acl_cache l) in (b, l\<lparr> acl_cache := es \<rparr>))
      else (let (b, es) = add_to userId rights (acl_elements l) in (b, l\<lparr> acl_elements := es \<rparr>)))"

definition deleteElement :: "u32 \<Rightarrow> access_list \<Rightarrow> bool \<times> access_list" where
  "deleteElement userId l =
     (case find_user userId (acl_elements l) of
        Some i \<Rightarrow> (True, l\<lparr> acl_elements := remove_element i (acl_elements l), acl_cache := [] \<rparr>)
      | None \<Rightarrow> (False, l))"

definition deleteAll :: "access_list \<Rightarrow> access_list" where
  "deleteAll l = l\<lparr> acl_elements := [], acl_cache := [] \<rparr>"

definition clearCache_acl :: "access_list \<Rightarrow> access_list" where
  "clearCache_acl l = l\<lparr> acl_cache := [] \<rparr>"

text \<open>\<open>check\<close> is the test for membership of a user in a group; the result is the flag and the rights.\<close>

definition group_rights :: "(u32 \<Rightarrow> u32 \<Rightarrow> bool) \<Rightarrow> u32 \<Rightarrow> acl_element \<Rightarrow> bool \<times> u32 \<Rightarrow> bool \<times> u32" where
  "group_rights check userId e r =
     (if e_userId e AND GROUP_BIT \<noteq> 0 \<and> check userId (e_userId e)
      then (True, snd r OR e_accessRights e) else r)"

definition getUserRights_acl :: "(u32 \<Rightarrow> u32 \<Rightarrow> bool) \<Rightarrow> u32 \<Rightarrow> access_list \<Rightarrow> bool \<times> u32" where
  "getUserRights_acl check userId l =
     (if acl_elements l = [] then (False, 0)
      else (case find_user userId (acl_elements l) of
          Some i \<Rightarrow> (True, e_accessRights (acl_elements l ! i))
        | None \<Rightarrow> fold (group_rights check userId) (acl_elements l) (False, 0)))"

definition getCachedUserRights :: "u32 \<Rightarrow> access_list \<Rightarrow> u32 option" where
  "getCachedUserRights userId l =
     (if acl_cache l = [] then None
      else map_option (\<lambda>i. e_accessRights (acl_cache l ! i)) (find_user userId (acl_cache l)))"

definition enumerateElements :: "(u32 \<Rightarrow> u32 \<Rightarrow> 'c \<Rightarrow> 'c) \<Rightarrow> access_list \<Rightarrow> 'c \<Rightarrow> 'c" where
  "enumerateElements handler l ctx = fold (\<lambda>e. handler (e_userId e) (e_accessRights e)) (acl_elements l) ctx"

fun fill_entries :: "acl_element list \<Rightarrow> u32 \<Rightarrow> u32 \<Rightarrow> (u32 \<Rightarrow> u32) \<Rightarrow> u32 \<Rightarrow> u32" where
  "fill_entries [] id1 id2 msg = msg"
| "fill_entries (e # es) id1 id2 msg =
     fill_entries es (id1 + 1) (id2 + 1) (msg(id1 := e_userId e, id2 := e_accessRights e))"

definition fillMessage_acl :: "access_list \<Rightarrow> (u32 \<Rightarrow> u32) \<Rightarrow> u32 \<Rightarrow> u32" where
  "fillMessage_acl l msg =
     fill_entries (acl_elements l) VID_ACL_USER_BASE VID_ACL_RIGHTS_BASE
       (msg(VID_ACL_SIZE := of_nat (length (acl_elements l))))"

section \<open>Lists of elements as maps\<close>

definition acl_map :: "acl_element list \<Rightarrow> u32 \<rightharpoonup> u32" where
  "acl_map es = map_of (map (\<lambda>e. (e_userId e, e_accessRights e)) es)"

abbreviation (input) acl_users :: "acl_element list \<Rightarrow> u32 list" where
  "acl_users es \<equiv> map e_userId es"

definition acl_ok :: "access_list \<Rightarrow> bool" where
  [nx_inv]: "acl_ok l \<longleftrightarrow> distinct (acl_users (acl_elements l)) \<and> distinct (acl_users (acl_cache l))"

lemma find_user_Some: "find_user u es = Some i \<Longrightarrow> i < length es \<and> e_userId (es ! i) = u \<and> acl_map es u = Some (e_accessRights (es ! i))"
  by (induction es arbitrary: i) (auto simp: acl_map_def split: if_splits)

lemma find_user_None: "find_user u es = None \<longleftrightarrow> u \<notin> set (acl_users es)"
  by (induction es) auto

lemma acl_map_None: "acl_map es u = None \<longleftrightarrow> u \<notin> set (acl_users es)"
  by (auto simp: acl_map_def map_of_eq_None_iff image_image)

lemma find_user_map: "map_option (\<lambda>i. e_accessRights (es ! i)) (find_user u es) = acl_map es u"
  using find_user_Some [of u es] find_user_None [of u es] acl_map_None [of es u]
  by (cases "find_user u es") auto

lemma acl_map_mem: "distinct (acl_users es) \<Longrightarrow> acl_map es u = Some r \<longleftrightarrow> \<lparr> e_userId = u, e_accessRights = r \<rparr> \<in> set es"
proof -
  assume "distinct (acl_users es)"
  then have "acl_map es u = Some r \<longleftrightarrow> (u, r) \<in> (\<lambda>e. (e_userId e, e_accessRights e)) ` set es"
    by (simp add: acl_map_def map_of_eq_Some_iff comp_def)
  also have "\<dots> \<longleftrightarrow> \<lparr> e_userId = u, e_accessRights = r \<rparr> \<in> set es"
  proof
    assume "(u, r) \<in> (\<lambda>e. (e_userId e, e_accessRights e)) ` set es"
    then obtain x where x: "x \<in> set es" "u = e_userId x" "r = e_accessRights x" by auto
    then have "x = \<lparr> e_userId = u, e_accessRights = r \<rparr>" by (intro acl_element.equality) simp_all
    then show "\<lparr> e_userId = u, e_accessRights = r \<rparr> \<in> set es" using x(1) by metis
  qed force
  finally show ?thesis .
qed

lemma acl_map_Cons: "acl_map (e # es) = (acl_map es)(e_userId e \<mapsto> e_accessRights e)"
  by (simp add: acl_map_def)

lemma remove_element_Suc: "remove_element (Suc i) (e # es) = e # remove_element i es"
  by (simp add: remove_element_def)

lemma acl_map_append: "acl_map (xs @ ys) = acl_map ys ++ acl_map xs"
  by (simp add: acl_map_def)

lemma acl_map_update:
  "j < length es \<Longrightarrow> distinct (acl_users es) \<Longrightarrow>
   acl_map (es[j := (es ! j)\<lparr> e_accessRights := r \<rparr>]) = (acl_map es)(e_userId (es ! j) \<mapsto> r)"
proof (induction es arbitrary: j)
  case (Cons e es)
  show ?case
  proof (cases j)
    case 0
    then show ?thesis by (auto simp: acl_map_def)
  next
    case (Suc i)
    then have "acl_map (es[i := (es ! i)\<lparr> e_accessRights := r \<rparr>]) = (acl_map es)(e_userId (es ! i) \<mapsto> r)"
      using Cons.prems by (intro Cons.IH) simp_all
    moreover have "e_userId e \<noteq> e_userId (es ! i)" using Cons.prems Suc nth_mem [of i es] by auto
    ultimately show ?thesis using Suc by (auto simp: acl_map_Cons fun_eq_iff)
  qed
qed simp

lemma acl_users_update [simp]: "acl_users (es[j := (es ! j)\<lparr> e_accessRights := r \<rparr>]) = acl_users es"
  by (cases "j < length es") (simp_all add: map_update list_update_same_conv list_update_beyond)

lemma add_to_map: "distinct (acl_users es) \<Longrightarrow> acl_map (snd (add_to u r es)) = (acl_map es)(u \<mapsto> r)"
proof (cases "find_user u es")
  case None
  have "acl_map es u = None" using None by (simp add: acl_map_None find_user_None)
  then have "acl_map (es @ [\<lparr> e_userId = u, e_accessRights = r \<rparr>]) = (acl_map es)(u \<mapsto> r)"
    unfolding acl_map_append by (auto simp: acl_map_def map_add_def fun_eq_iff split: option.split)
  then show ?thesis using None by (simp add: add_to_def)
next
  case (Some i)
  assume d: "distinct (acl_users es)"
  have i: "i < length es" "e_userId (es ! i) = u" "acl_map es u = Some (e_accessRights (es ! i))"
    using find_user_Some [OF Some] by simp_all
  show ?thesis
  proof (cases "e_accessRights (es ! i) = r")
    case True
    then show ?thesis using Some i(3) by (simp add: add_to_def fun_upd_idem)
  next
    case False
    then show ?thesis using Some acl_map_update [OF i(1) d] i(2) by (simp add: add_to_def)
  qed
qed

lemma add_to_distinct: "distinct (acl_users es) \<Longrightarrow> distinct (acl_users (snd (add_to u r es)))"
  using find_user_None [of u es] by (auto simp: add_to_def split: option.split)

lemma add_to_changed: "fst (add_to u r es) \<longleftrightarrow> acl_map es u \<noteq> Some r"
  using find_user_Some [of u es] find_user_None [of u es] acl_map_None [of es u]
  by (cases "find_user u es") (auto simp: add_to_def)

lemma remove_element_map:
  "i < length es \<Longrightarrow> distinct (acl_users es) \<Longrightarrow> acl_map (remove_element i es) = (acl_map es)(e_userId (es ! i) := None)"
proof (induction es arbitrary: i)
  case (Cons e es)
  show ?case
  proof (cases i)
    case 0
    then show ?thesis
      using Cons.prems(2) acl_map_None [of es "e_userId e"] by (auto simp: remove_element_def acl_map_def)
  next
    case (Suc j)
    then have "acl_map (remove_element j es) = (acl_map es)(e_userId (es ! j) := None)"
      using Cons.prems by (intro Cons.IH) simp_all
    moreover have "e_userId e \<noteq> e_userId (es ! j)" using Cons.prems Suc nth_mem [of j es] by auto
    ultimately show ?thesis using Suc by (auto simp: remove_element_Suc acl_map_Cons fun_eq_iff)
  qed
qed simp

lemma remove_element_distinct: "distinct (acl_users es) \<Longrightarrow> distinct (acl_users (remove_element i es))"
proof -
  assume "distinct (acl_users es)"
  moreover have "acl_users (remove_element i es) = take i (acl_users es) @ drop (Suc i) (acl_users es)"
    by (simp add: remove_element_def take_map drop_map)
  moreover have "set (take i (acl_users es)) \<inter> set (drop (Suc i) (acl_users es)) = {}"
    by (rule set_take_disj_set_drop_if_distinct) (use calculation in simp_all)
  ultimately show ?thesis by (simp only: distinct_append distinct_take distinct_drop simp_thms)
qed

section \<open>Update from a message\<close>

text \<open>The state of the loop after the entries \<open>ms\<close>, for a list that started as \<open>orig\<close>.\<close>

definition loop_inv :: "acl_element list \<Rightarrow> (u32 \<times> u32) list \<Rightarrow> acl_element list \<Rightarrow> bool list \<Rightarrow> bool" where
  "loop_inv orig ms es marks \<longleftrightarrow>
     length marks = length orig \<and> length orig \<le> length es \<and> take (length orig) (acl_users es) = acl_users orig
     \<and> distinct (acl_users es)
     \<and> (\<forall>j. j < length orig \<longrightarrow> (marks ! j \<longleftrightarrow> e_userId (orig ! j) \<in> fst ` set ms))
     \<and> set (acl_users (drop (length orig) es)) = fst ` set ms - set (acl_users orig)
     \<and> (\<forall>u. u \<in> fst ` set ms \<longrightarrow> acl_map es u = map_of (rev ms) u)"

lemma loop_inv_init: "distinct (acl_users es) \<Longrightarrow> loop_inv es [] es (replicate (length es) False)"
  by (simp add: loop_inv_def)

lemma loop_inv_index:
  assumes "loop_inv orig ms es marks" "find_user u es = Some j"
  shows "j < length orig \<longleftrightarrow> u \<in> set (acl_users orig)"
proof -
  have j: "j < length es" "e_userId (es ! j) = u" using find_user_Some [OF assms(2)] by simp_all
  have t: "take (length orig) (acl_users es) = acl_users orig" and le: "length orig \<le> length es"
    and d: "distinct (acl_users es)" using assms(1) by (simp_all add: loop_inv_def)
  have nth: "acl_users orig ! i = e_userId (es ! i)" if "i < length orig" for i
    using that le by (simp flip: t)
  show ?thesis
  proof
    assume "j < length orig"
    then show "u \<in> set (acl_users orig)" using nth [of j] j(2) nth_mem [of j "acl_users orig"] by simp
  next
    assume "u \<in> set (acl_users orig)"
    then obtain i where "i < length orig" "acl_users orig ! i = u" by (auto simp: in_set_conv_nth)
    then have "i < length es" "acl_users es ! i = acl_users es ! j" using nth le j by auto
    then have "i = j" using d j(1) nth_eq_iff_index_eq [of "acl_users es" i j] by simp
    then show "j < length orig" using \<open>i < length orig\<close> by simp
  qed
qed

lemma loop_inv_users: "loop_inv orig ms es marks \<Longrightarrow> set (acl_users es) = set (acl_users orig) \<union> fst ` set ms"
proof -
  assume i: "loop_inv orig ms es marks"
  have "set (acl_users es) = set (take (length orig) (acl_users es)) \<union> set (drop (length orig) (acl_users es))"
    by (metis append_take_drop_id set_append)
  then show ?thesis using i by (auto simp: loop_inv_def drop_map)
qed

lemma message_entry_known:
  assumes "loop_inv orig ms es marks" "u \<in> set (acl_users orig)"
  shows "\<exists>es' marks'. message_entry (u, r) (es, marks) = Inr (es', marks') \<and> loop_inv orig (ms @ [(u, r)]) es' marks'"
proof -
  obtain j where f: "find_user u es = Some j"
    using find_user_None [of u es] loop_inv_users [OF assms(1)] assms(2) by auto
  have j: "j < length es" "e_userId (es ! j) = u" "j < length orig"
    using find_user_Some [OF f] loop_inv_index [OF assms(1) f] assms(2) by simp_all
  let ?es = "es[j := (es ! j)\<lparr> e_accessRights := r \<rparr>]" let ?marks = "marks[j := True]"
  have i: "length marks = length orig" "length orig \<le> length es" "take (length orig) (acl_users es) = acl_users orig"
      "distinct (acl_users es)"
    using assms(1) by (simp_all add: loop_inv_def)
  have oj: "e_userId (orig ! j) = u"
    using i(2,3) j by (metis nth_map nth_take order.strict_trans2)
  have "?marks ! k \<longleftrightarrow> e_userId (orig ! k) \<in> fst ` set (ms @ [(u, r)])" if "k < length orig" for k
  proof (cases "k = j")
    case False
    then have "acl_users orig ! k \<noteq> acl_users orig ! j"
      using i(3,4) that j(3) by (metis distinct_take length_map nth_eq_iff_index_eq)
    then have "e_userId (orig ! k) \<noteq> u" using oj that j(3) by simp
    then show ?thesis using assms(1) that False by (simp add: loop_inv_def)
  qed (use i(1) j(3) oj in simp)
  moreover have "drop (length orig) ?es = drop (length orig) es" using j(3) by simp
  moreover have "acl_map ?es = (acl_map es)(u \<mapsto> r)" using acl_map_update [OF j(1) i(4)] j(2) by simp
  ultimately have "loop_inv orig (ms @ [(u, r)]) ?es ?marks"
    using assms i by (auto simp: loop_inv_def)
  then show ?thesis using f j(3) i(1) by (simp add: message_entry_def)
qed

lemma message_entry_new:
  assumes "loop_inv orig ms es marks" "u \<notin> set (acl_users orig)" "u \<notin> fst ` set ms"
  shows "\<exists>es' marks'. message_entry (u, r) (es, marks) = Inr (es', marks') \<and> loop_inv orig (ms @ [(u, r)]) es' marks'"
proof -
  have u: "u \<notin> set (acl_users es)" using loop_inv_users [OF assms(1)] assms(2,3) by simp
  let ?es = "es @ [\<lparr> e_userId = u, e_accessRights = r \<rparr>]"
  have "message_entry (u, r) (es, marks) = Inr (?es, marks)"
    using u find_user_None [of u es] by (simp add: message_entry_def)
  moreover have "acl_map ?es = (acl_map es)(u \<mapsto> r)"
    using u acl_map_None [of es u] unfolding acl_map_append
    by (auto simp: acl_map_def map_add_def fun_eq_iff split: option.split)
  then have "loop_inv orig (ms @ [(u, r)]) ?es marks"
    using assms u nth_mem [of _ orig] by (auto simp: loop_inv_def)
  ultimately show ?thesis by blast
qed

lemma message_entry_repeated:
  assumes "loop_inv orig ms es marks" "u \<notin> set (acl_users orig)" "u \<in> fst ` set ms"
  shows "message_entry (u, r) (es, marks) = Inl Bad_access"
proof -
  obtain j where f: "find_user u es = Some j"
    using find_user_None [of u es] loop_inv_users [OF assms(1)] assms(3) by auto
  then show ?thesis using loop_inv_index [OF assms(1) f] assms(1,2) by (simp add: message_entry_def loop_inv_def)
qed

text \<open>No user that is new to the list occurs twice.\<close>

definition new_once :: "acl_element list \<Rightarrow> (u32 \<times> u32) list \<Rightarrow> bool" where
  "new_once orig ms \<longleftrightarrow> distinct (filter (\<lambda>u. u \<notin> set (acl_users orig)) (map fst ms))"

lemma new_once_prefix: "new_once orig (ms @ ms') \<Longrightarrow> new_once orig ms"
  by (simp add: new_once_def)

lemma new_once_snoc:
  "new_once orig (ms @ [(u, r)]) \<longleftrightarrow> new_once orig ms \<and> (u \<in> set (acl_users orig) \<or> u \<notin> fst ` set ms)"
  by (auto simp: new_once_def)

lemma message_loop_result:
  assumes "loop_inv orig pre es marks" "new_once orig pre"
  shows "if new_once orig (pre @ ms)
    then \<exists>es' marks'. message_loop ms (es, marks) = Inr (es', marks') \<and> loop_inv orig (pre @ ms) es' marks'
    else message_loop ms (es, marks) = Inl Bad_access"
  using assms
proof (induction ms arbitrary: pre es marks)
  case Nil
  then show ?case by simp
next
  case (Cons m ms)
  obtain u r where m: "m = (u, r)" by (cases m)
  show ?case
  proof (cases "u \<in> set (acl_users orig) \<or> u \<notin> fst ` set pre")
    case True
    then obtain es' marks' where e: "message_entry (u, r) (es, marks) = Inr (es', marks')"
        "loop_inv orig (pre @ [(u, r)]) es' marks'"
      using message_entry_known [OF Cons.prems(1)] message_entry_new [OF Cons.prems(1)] by blast
    have "new_once orig (pre @ [(u, r)])" using Cons.prems(2) True by (simp add: new_once_snoc)
    from Cons.IH [OF e(2) this, unfolded append_assoc append_Cons append_Nil] show ?thesis using e(1) m by simp
  next
    case False
    then have "\<not> new_once orig (pre @ [(u, r)])" by (simp add: new_once_snoc)
    then have "\<not> new_once orig (pre @ m # ms)"
      using new_once_prefix [of orig "pre @ [(u, r)]" ms] m by auto
    moreover have "message_entry (u, r) (es, marks) = Inl Bad_access"
      using message_entry_repeated [OF Cons.prems(1)] False by blast
    ultimately show ?thesis using m by simp
  qed
qed

lemma remove_unmarked_filter:
  "n \<le> length marks \<Longrightarrow> n \<le> length es \<Longrightarrow>
   remove_unmarked n marks es = map fst (filter snd (take n (zip es marks))) @ drop n es"
proof (induction n arbitrary: es)
  case (Suc n)
  have z: "take (Suc n) (zip es marks) = take n (zip es marks) @ [(es ! n, marks ! n)]"
    using Suc.prems by (simp add: take_Suc_conv_app_nth)
  have d: "drop n es = es ! n # drop (Suc n) es" using Suc.prems by (simp add: Cons_nth_drop_Suc)
  show ?case
  proof (cases "marks ! n")
    case True
    then show ?thesis using Suc.IH [of es] Suc.prems z d by simp
  next
    case False
    let ?es = "remove_element n es"
    have "take n ?es = take n es" "drop n ?es = drop (Suc n) es" "n \<le> length ?es"
      using Suc.prems by (simp_all add: remove_element_def)
    moreover from this have "take n (zip ?es marks) = take n (zip es marks)" by (simp add: take_zip)
    ultimately show ?thesis using Suc.IH [of ?es] Suc.prems z False by simp
  qed
qed simp

text \<open>Only the users of the message remain.\<close>

lemma remove_unmarked_users:
  assumes "loop_inv orig ms es marks"
  shows "remove_unmarked (length orig) marks es = filter (\<lambda>e. e_userId e \<in> fst ` set ms) es"
proof -
  let ?n = "length orig" and ?P = "\<lambda>e. e_userId e \<in> fst ` set ms"
  have i: "length marks = ?n" "?n \<le> length es" "take ?n (acl_users es) = acl_users orig"
    using assms by (simp_all add: loop_inv_def)
  have nth: "e_userId (es ! j) = e_userId (orig ! j)" if "j < ?n" for j
    using i(2,3) that by (metis nth_map nth_take order.strict_trans2)
  have "marks = map ?P (take ?n es)"
    by (rule nth_equalityI) (use assms i nth in \<open>auto simp: loop_inv_def\<close>)
  then have "take ?n (zip es marks) = map (\<lambda>e. (e, ?P e)) (take ?n es)"
    by (intro nth_equalityI) (use i in auto)
  then have "map fst (filter snd (take ?n (zip es marks))) = filter ?P (take ?n es)"
    by (simp add: filter_map comp_def)
  moreover have "filter ?P (drop ?n es) = drop ?n es"
    using assms by (auto simp: loop_inv_def filter_id_conv drop_map image_iff)
  moreover have "filter ?P es = filter ?P (take ?n es) @ filter ?P (drop ?n es)"
    by (metis append_take_drop_id filter_append)
  ultimately show ?thesis using remove_unmarked_filter [of ?n marks es] i by simp
qed

lemma acl_map_filter: "acl_map (filter (\<lambda>e. P (e_userId e)) es) u = (if P u then acl_map es u else None)"
  by (induction es) (auto simp: acl_map_def)

lemma message_entries_Nil: "\<not> sint (msg VID_ACL_SIZE) > 0 \<Longrightarrow> message_entries msg = []"
  by (simp add: message_entries_def)

lemma updateFromMessage_result:
  assumes "acl_ok l"
  shows "if new_once (acl_elements l) (message_entries msg)
    then \<exists>l'. updateFromMessage_acl msg l = Inr l' \<and> acl_ok l' \<and> acl_cache l' = []
      \<and> acl_map (acl_elements l') = map_of (rev (message_entries msg))
    else updateFromMessage_acl msg l = Inl Bad_access"
proof (cases "sint (msg VID_ACL_SIZE) > 0")
  case False
  then show ?thesis
    by (simp add: updateFromMessage_acl_def message_entries_Nil new_once_def acl_ok_def acl_map_def)
next
  case True
  let ?ms = "message_entries msg" and ?orig = "acl_elements l"
  have init: "loop_inv ?orig [] ?orig (replicate (length ?orig) False)"
    using assms by (simp add: loop_inv_init acl_ok_def)
  show ?thesis
  proof (cases "new_once ?orig ?ms")
    case once: True
    then obtain es marks where r: "message_loop ?ms (?orig, replicate (length ?orig) False) = Inr (es, marks)"
        "loop_inv ?orig ?ms es marks"
      using message_loop_result [OF init, of ?ms] by (auto simp: new_once_def)
    let ?es = "filter (\<lambda>e. e_userId e \<in> fst ` set ?ms) es"
    have "distinct (acl_users ?es)" using r(2) by (simp add: loop_inv_def distinct_map_filter)
    moreover have "acl_map ?es = map_of (rev ?ms)"
    proof
      fix u
      show "acl_map ?es u = map_of (rev ?ms) u"
        using r(2) acl_map_filter [of "\<lambda>u. u \<in> fst ` set ?ms" es u] map_of_eq_None_iff [of "rev ?ms" u]
        by (auto simp: loop_inv_def)
    qed
    ultimately show ?thesis
      using True once r(1) remove_unmarked_users [OF r(2)] by (simp add: updateFromMessage_acl_def acl_ok_def)
  next
    case False
    then show ?thesis
      using True message_loop_result [OF init, of ?ms] by (simp add: updateFromMessage_acl_def new_once_def)
  qed
qed

lemma addElement_ok: "acl_ok l \<Longrightarrow> acl_ok (snd (addElement u r c l))"
  using add_to_distinct [of "acl_cache l" u r] add_to_distinct [of "acl_elements l" u r]
  by (auto simp: acl_ok_def addElement_def Let_def case_prod_beta)

lemma deleteElement_ok: "acl_ok l \<Longrightarrow> acl_ok (snd (deleteElement u l))"
  by (auto simp: acl_ok_def deleteElement_def remove_element_distinct split: option.split)

lemma deleteElement_map:
  "acl_ok l \<Longrightarrow> acl_map (acl_elements (snd (deleteElement u l))) = (acl_map (acl_elements l))(u := None)"
proof (cases "find_user u (acl_elements l)")
  case None
  then have "acl_map (acl_elements l) u = None" by (simp add: acl_map_None find_user_None)
  then show ?thesis using None by (simp add: deleteElement_def fun_upd_idem)
next
  case (Some i)
  assume "acl_ok l"
  then show ?thesis
    using Some find_user_Some [OF Some] remove_element_map [of i "acl_elements l"] by (simp add: deleteElement_def acl_ok_def)
qed

lemma addElement_map:
  "acl_ok l \<Longrightarrow> acl_map (acl_elements (snd (addElement u r False l))) = (acl_map (acl_elements l))(u \<mapsto> r)"
  using add_to_map [of "acl_elements l" u r] by (simp add: addElement_def acl_ok_def Let_def case_prod_beta)

text \<open>
  C19. Every operation keeps an access list well formed, each user occurring at most once among the
  assigned and among the cached rights. An update from a message empties the cache and leaves
  exactly the rights of the message, the last entry for a user counting, unless the message names
  a user twice who is not yet in the list: then the second entry is marked behind the array of
  marks. Assigning and removing rights change the entry of the user only.
\<close>

theorem acl_well_formed:
  assumes "acl_ok l"
  shows "(case updateFromMessage_acl msg l of
      Inl f \<Rightarrow> f = Bad_access \<and> \<not> new_once (acl_elements l) (message_entries msg)
    | Inr l' \<Rightarrow> new_once (acl_elements l) (message_entries msg) \<and> acl_ok l' \<and> acl_cache l' = []
        \<and> acl_map (acl_elements l') = map_of (rev (message_entries msg)))
    \<and> acl_ok (snd (addElement u r c l)) \<and> acl_ok (snd (deleteElement u l))
    \<and> acl_map (acl_elements (snd (addElement u r False l))) = (acl_map (acl_elements l))(u \<mapsto> r)
    \<and> acl_map (acl_elements (snd (deleteElement u l))) = (acl_map (acl_elements l))(u := None)"
proof -
  have "case updateFromMessage_acl msg l of
      Inl f \<Rightarrow> f = Bad_access \<and> \<not> new_once (acl_elements l) (message_entries msg)
    | Inr l' \<Rightarrow> new_once (acl_elements l) (message_entries msg) \<and> acl_ok l' \<and> acl_cache l' = []
        \<and> acl_map (acl_elements l') = map_of (rev (message_entries msg))"
    using updateFromMessage_result [OF assms, of msg] by (auto split: if_splits)
  then show ?thesis by (simp only: addElement_ok deleteElement_ok addElement_map deleteElement_map assms simp_thms)
qed

text \<open>A list with one user, and a message that changes the rights of that user and names a new one.\<close>

definition one_user :: access_list where
  "one_user = \<lparr> acl_elements = [\<lparr> e_userId = 5, e_accessRights = 1 \<rparr>], acl_cache = [] \<rparr>"

definition two_entries :: "u32 \<Rightarrow> u32" where
  "two_entries = (\<lambda>_. 0)(32 := 2, 0x1000 := 5, 0x2000 := 3, 0x1001 := 6, 0x2001 := 4)"

theorem acl_well_formed_witness:
  "\<exists>l'. updateFromMessage_acl two_entries one_user = Inr l' \<and> acl_ok l' \<and> acl_map (acl_elements l') = [5 \<mapsto> 3, 6 \<mapsto> 4]"
proof -
  have ok: "acl_ok one_user" by (simp add: acl_ok_def one_user_def)
  have m: "message_entries two_entries = [(5, 3), (6, 4)]"
    by (simp add: message_entries_def two_entries_def upt_rec)
  have once: "new_once (acl_elements one_user) (message_entries two_entries)"
    unfolding m by (simp add: new_once_def one_user_def)
  note w = acl_well_formed [OF ok, of two_entries 0 0 False, THEN conjunct1]
  obtain l' where "updateFromMessage_acl two_entries one_user = Inr l'" "acl_ok l'"
      "acl_map (acl_elements l') = map_of (rev (message_entries two_entries))"
    using w once by (cases "updateFromMessage_acl two_entries one_user") auto
  then show ?thesis unfolding m by (intro exI [of _ l']) (simp add: fun_upd_twist)
qed

section \<open>Message round trip\<close>

lemma fill_entries_outside:
  "(\<And>i. i < length es \<Longrightarrow> f \<noteq> id1 + of_nat i \<and> f \<noteq> id2 + of_nat i) \<Longrightarrow> fill_entries es id1 id2 msg f = msg f"
proof (induction es arbitrary: id1 id2 msg)
  case (Cons e es)
  have "f \<noteq> id1" "f \<noteq> id2" using Cons.prems [of 0] by simp_all
  moreover have "f \<noteq> (id1 + 1) + of_nat i \<and> f \<noteq> (id2 + 1) + of_nat i" if "i < length es" for i
    using Cons.prems [of "Suc i"] that by (simp add: ac_simps)
  ultimately show ?case using Cons.IH [of "id1 + 1" "id2 + 1"] by simp
qed simp

lemma field_inj: "i < 2 ^ 32 \<Longrightarrow> j < 2 ^ 32 \<Longrightarrow> (of_nat i :: u32) = of_nat j \<Longrightarrow> i = j"
  by (drule arg_cong [of _ _ unat]) (simp add: unat_of_nat)

lemma fill_entries_nth:
  assumes "\<And>i j. i < length es \<Longrightarrow> j < length es \<Longrightarrow> id1 + of_nat i \<noteq> id2 + of_nat j" and "length es < 2 ^ 32" and "k < length es"
  shows "fill_entries es id1 id2 msg (id1 + of_nat k) = e_userId (es ! k)
    \<and> fill_entries es id1 id2 msg (id2 + of_nat k) = e_accessRights (es ! k)"
  using assms
proof (induction es arbitrary: id1 id2 msg k)
  case (Cons e es)
  have apart: "(id1 + 1) + of_nat i \<noteq> (id2 + 1) + of_nat j" if "i < length es" "j < length es" for i j
    using Cons.prems(1) [of "Suc i" "Suc j"] that by (simp add: ac_simps)
  show ?case
  proof (cases k)
    case 0
    have "x \<noteq> (y + 1) + of_nat i" if "i < length es" "x = id1 \<and> y = id2 \<or> x = id2 \<and> y = id1" for x y i
      using Cons.prems(1) [of 0 "Suc i"] Cons.prems(1) [of "Suc i" 0] that by (auto simp: ac_simps)
    moreover have "x \<noteq> (x + 1) + of_nat i" if "i < length es" for x :: u32 and i
      using field_inj [of 0 "Suc i"] Cons.prems(2) that by (auto simp: add.assoc)
    moreover have "id1 \<noteq> id2" using Cons.prems(1) [of 0 0] by simp
    ultimately show ?thesis
      using 0 fill_entries_outside [of es id1 "id1 + 1" "id2 + 1"] fill_entries_outside [of es id2 "id1 + 1" "id2 + 1"] by simp
  next
    case (Suc i)
    let ?m = "msg(id1 := e_userId e, id2 := e_accessRights e)"
    have "fill_entries es (id1 + 1) (id2 + 1) ?m ((id1 + 1) + of_nat i) = e_userId (es ! i)
        \<and> fill_entries es (id1 + 1) (id2 + 1) ?m ((id2 + 1) + of_nat i) = e_accessRights (es ! i)"
      by (rule Cons.IH [OF apart]) (use Cons.prems(2,3) Suc in simp_all)
    then show ?thesis using Suc by (simp add: ac_simps)
  qed
qed simp

text \<open>A list of at most 4096 elements that was written to a message is read back from it.\<close>

lemma message_entries_fill:
  assumes "length (acl_elements l) \<le> 0x1000"
  shows "message_entries (fillMessage_acl l msg) = map (\<lambda>e. (e_userId e, e_accessRights e)) (acl_elements l)"
proof -
  let ?es = "acl_elements l" and ?m = "msg(VID_ACL_SIZE := of_nat (length (acl_elements l)))"
  have un: "unat (0x1000 + of_nat i :: u32) = 0x1000 + i" "unat (0x2000 + of_nat i :: u32) = 0x2000 + i"
    if "i < length ?es" for i
    using that assms by (simp_all add: unat_word_ariths unat_of_nat)
  have apart: "VID_ACL_USER_BASE + of_nat i \<noteq> VID_ACL_RIGHTS_BASE + of_nat j"
    if "i < length ?es" "j < length ?es" for i j
    using un(1) [OF that(1)] un(2) [OF that(2)] that assms by (intro notI) simp
  have "VID_ACL_SIZE \<noteq> VID_ACL_USER_BASE + of_nat i \<and> VID_ACL_SIZE \<noteq> VID_ACL_RIGHTS_BASE + of_nat i"
    if "i < length ?es" for i
  proof -
    have "unat VID_ACL_SIZE \<noteq> unat (0x1000 + of_nat i :: u32)" "unat VID_ACL_SIZE \<noteq> unat (0x2000 + of_nat i :: u32)"
      unfolding un [OF that] by simp_all
    then show ?thesis by metis
  qed
  from fill_entries_outside [OF this] have size: "fillMessage_acl l msg VID_ACL_SIZE = of_nat (length ?es)"
    by (simp add: fillMessage_acl_def)
  have "sint (of_nat (length ?es) :: u32) = int (length ?es)"
    using assms by (simp add: signed_of_nat signed_take_bit_int_eq_self)
  then have n: "nat (sint (fillMessage_acl l msg VID_ACL_SIZE)) = length ?es" using size by simp
  have "length ?es < 2 ^ 32" using assms by simp
  then have nth: "fillMessage_acl l msg (VID_ACL_USER_BASE + of_nat k) = e_userId (?es ! k)
      \<and> fillMessage_acl l msg (VID_ACL_RIGHTS_BASE + of_nat k) = e_accessRights (?es ! k)" if "k < length ?es" for k
    unfolding fillMessage_acl_def by (intro fill_entries_nth apart that)
  show ?thesis unfolding message_entries_def n by (rule nth_equalityI) (simp_all add: nth)
qed

lemma acl_message_round_trip:
  assumes "acl_ok l" "acl_ok l0" "length (acl_elements l) \<le> 0x1000"
  obtains l' where "updateFromMessage_acl (fillMessage_acl l msg) l0 = Inr l'"
    and "acl_map (acl_elements l') = acl_map (acl_elements l)"
proof -
  let ?ms = "map (\<lambda>e. (e_userId e, e_accessRights e)) (acl_elements l)"
  note m = message_entries_fill [OF assms(3), of msg]
  have d: "distinct (map fst ?ms)" using assms(1) by (simp add: acl_ok_def comp_def)
  then have "new_once (acl_elements l0) (message_entries (fillMessage_acl l msg))"
    unfolding m new_once_def by (rule distinct_filter)
  then obtain l' where l': "updateFromMessage_acl (fillMessage_acl l msg) l0 = Inr l'"
      "acl_map (acl_elements l') = map_of (rev ?ms)"
    using updateFromMessage_result [OF assms(2), of "fillMessage_acl l msg"] m by auto
  moreover have "map_of (rev ?ms) = map_of ?ms" 
    using map_of_inject_set [of "rev ?ms" ?ms] d by (simp add: rev_map [symmetric] del: map_map)
  ultimately show thesis using that [of l'] by (simp add: acl_map_def)
qed

section \<open>Rights from a list\<close>

lemma fold_group_rights:
  "fst (fold (group_rights check u) es (b, r)) \<longleftrightarrow>
     b \<or> (\<exists>e. e \<in> set es \<and> e_userId e AND GROUP_BIT \<noteq> 0 \<and> check u (e_userId e))"
  "bit (snd (fold (group_rights check u) es (b, r))) n \<longleftrightarrow>
     bit r n \<or> (\<exists>e. e \<in> set es \<and> e_userId e AND GROUP_BIT \<noteq> 0 \<and> check u (e_userId e) \<and> bit (e_accessRights e) n)"
  by (induction es arbitrary: b r) (auto simp: group_rights_def bit_or_iff)

text \<open>An entry of the user counts alone; without one the entries of the user's groups are joined.\<close>

lemma getUserRights_acl_direct:
  "acl_map (acl_elements l) u = Some r \<Longrightarrow> getUserRights_acl check u l = (True, r)"
  using find_user_Some [of u "acl_elements l"] find_user_None [of u "acl_elements l"] acl_map_None [of "acl_elements l" u]
  by (cases "find_user u (acl_elements l)") (auto simp: getUserRights_acl_def)

lemma getUserRights_acl_groups:
  assumes "acl_map (acl_elements l) u = None"
  shows "fst (getUserRights_acl check u l) \<longleftrightarrow>
      (\<exists>e. e \<in> set (acl_elements l) \<and> e_userId e AND GROUP_BIT \<noteq> 0 \<and> check u (e_userId e))"
    and "bit (snd (getUserRights_acl check u l)) n \<longleftrightarrow>
      (\<exists>e. e \<in> set (acl_elements l) \<and> e_userId e AND GROUP_BIT \<noteq> 0 \<and> check u (e_userId e) \<and> bit (e_accessRights e) n)"
proof -
  have "find_user u (acl_elements l) = None" using assms by (simp add: acl_map_None find_user_None)
  then show "fst (getUserRights_acl check u l) \<longleftrightarrow>
      (\<exists>e. e \<in> set (acl_elements l) \<and> e_userId e AND GROUP_BIT \<noteq> 0 \<and> check u (e_userId e))"
    "bit (snd (getUserRights_acl check u l)) n \<longleftrightarrow>
      (\<exists>e. e \<in> set (acl_elements l) \<and> e_userId e AND GROUP_BIT \<noteq> 0 \<and> check u (e_userId e) \<and> bit (e_accessRights e) n)"
    by (auto simp: getUserRights_acl_def fold_group_rights)
qed

lemma getCachedUserRights_map: "getCachedUserRights u l = acl_map (acl_cache l) u"
  using find_user_map [of "acl_cache l" u] by (auto simp: getCachedUserRights_def acl_map_def)

end
