(* ===== verification/Nx_Access.thy ===== *)
theory Nx_Access
  imports Nx_Acl
begin

text \<open>
  Effective access rights on objects (\<^verbatim>\<open>NetObj\<close> in \<^verbatim>\<open>src/src/server/core/netobj.cpp\<close>, the
  parent and child lists of \<^verbatim>\<open>NObject\<close> in \<^verbatim>\<open>src/src/server/libnxsrv/nobject.cpp\<close>). An object
  without a matching entry in its own access list takes the rights of all its parents, and keeps
  them in its cache. Objects are named by their identifiers; the world is the object behind each
  identifier. The recursion through parents and children has fuel, which must exceed the depth of
  the object graph. Membership of users in groups is the parameter \<open>check\<close>.
\<close>

section \<open>Objects\<close>

abbreviation (input) "MODIFY_RELATIONS \<equiv> (0x8 :: u32)"
abbreviation (input) "MODIFY_ACCESS_LIST \<equiv> (0x20 :: u32)"
abbreviation (input) "VID_INHERIT_RIGHTS \<equiv> (33 :: u32)"

record net_obj =
  ob_acl :: access_list
  ob_inherit :: bool
  ob_parents :: "u32 list"
  ob_children :: "u32 list"
  ob_modified :: u32

type_synonym objects = "u32 \<Rightarrow> net_obj"

definition on_object :: "u32 \<Rightarrow> (net_obj \<Rightarrow> net_obj) \<Rightarrow> objects \<Rightarrow> objects" where
  "on_object x f w = w(x := f (w x))"

definition setModified :: "u32 \<Rightarrow> net_obj \<Rightarrow> net_obj" where
  "setModified flags ob = ob\<lparr> ob_modified := ob_modified ob OR flags \<rparr>"

section \<open>Reading rights\<close>

text \<open>The loop over the parents, each of which may fill its own cache.\<close>

fun parent_rights :: "(u32 \<Rightarrow> objects \<Rightarrow> (u32 \<times> objects) option) \<Rightarrow> u32 list \<Rightarrow> u32 \<Rightarrow> objects \<Rightarrow> (u32 \<times> objects) option" where
  "parent_rights get [] rights w = Some (rights, w)"
| "parent_rights get (p # ps) rights w =
     (case get p w of None \<Rightarrow> None | Some (r, w') \<Rightarrow> parent_rights get ps (rights OR r) w')"

fun getUserRights :: "nat \<Rightarrow> (u32 \<Rightarrow> u32 \<Rightarrow> bool) \<Rightarrow> u32 \<Rightarrow> u32 \<Rightarrow> objects \<Rightarrow> (u32 \<times> objects) option" where
  "getUserRights 0 check userId x w = None"
| "getUserRights (Suc fuel) check userId x w =
     (if userId = 0 then Some (0xFFFFFFFF, w)
      else (let (direct, rights) = getUserRights_acl check userId (ob_acl (w x)) in
        if \<not> direct \<and> ob_inherit (w x) then
          (case getCachedUserRights userId (ob_acl (w x)) of
             Some r \<Rightarrow> Some (r, w)
           | None \<Rightarrow>
               (case parent_rights (getUserRights fuel check userId) (ob_parents (w x)) 0 w of
                  None \<Rightarrow> None
                | Some (r, w') \<Rightarrow>
                    Some (r, on_object x (\<lambda>ob. ob\<lparr> ob_acl := snd (addElement userId r True (ob_acl ob)) \<rparr>) w')))
        else Some (rights, w)))"

definition checkAccessRights ::
  "nat \<Rightarrow> (u32 \<Rightarrow> u32 \<Rightarrow> bool) \<Rightarrow> u32 \<Rightarrow> u32 \<Rightarrow> u32 \<Rightarrow> objects \<Rightarrow> (bool \<times> objects) option" where
  "checkAccessRights fuel check userId requiredRights x w =
     map_option (\<lambda>(effectiveRights, w'). (effectiveRights AND requiredRights = requiredRights, w'))
       (getUserRights fuel check userId x w)"

section \<open>Changing rights and relations\<close>

fun clear_each :: "(u32 \<Rightarrow> objects \<Rightarrow> objects option) \<Rightarrow> u32 list \<Rightarrow> objects \<Rightarrow> objects option" where
  "clear_each clear [] w = Some w"
| "clear_each clear (c # cs) w = (case clear c w of None \<Rightarrow> None | Some w' \<Rightarrow> clear_each clear cs w')"

definition clearOwnInheritedAccessCache :: "net_obj \<Rightarrow> net_obj" where
  "clearOwnInheritedAccessCache ob = ob\<lparr> ob_acl := clearCache_acl (ob_acl ob) \<rparr>"

fun clearInheritedAccessCache :: "nat \<Rightarrow> u32 \<Rightarrow> objects \<Rightarrow> objects option" where
  "clearInheritedAccessCache 0 x w = None"
| "clearInheritedAccessCache (Suc fuel) x w =
     (let w1 = on_object x clearOwnInheritedAccessCache w
      in clear_each (clearInheritedAccessCache fuel) (ob_children (w1 x)) w1)"

definition setUserAccess :: "nat \<Rightarrow> u32 \<Rightarrow> u32 \<Rightarrow> u32 \<Rightarrow> objects \<Rightarrow> objects option" where
  "setUserAccess fuel userId rights x w =
     (let (changed, acl) = addElement userId rights False (ob_acl (w x));
          w1 = on_object x (\<lambda>ob. ob\<lparr> ob_acl := acl \<rparr>) w
      in if changed then clearInheritedAccessCache fuel x (on_object x (setModified MODIFY_ACCESS_LIST) w1) else Some w1)"

definition dropUserAccess :: "nat \<Rightarrow> u32 \<Rightarrow> u32 \<Rightarrow> objects \<Rightarrow> objects option" where
  "dropUserAccess fuel userId x w =
     (let (deleted, acl) = deleteElement userId (ob_acl (w x));
          w1 = on_object x (\<lambda>ob. ob\<lparr> ob_acl := acl \<rparr>) w
      in if deleted then clearInheritedAccessCache fuel x (on_object x (setModified MODIFY_ACCESS_LIST) w1) else Some w1)"

text \<open>The change of the access list by a message that has one.\<close>

definition modify_acl :: "nat \<Rightarrow> (u32 \<Rightarrow> u32) \<Rightarrow> u32 \<Rightarrow> objects \<Rightarrow> (fault + objects) option" where
  "modify_acl fuel msg x w =
     (case updateFromMessage_acl msg (ob_acl (w x)) of
        Inl f \<Rightarrow> Some (Inl f)
      | Inr acl \<Rightarrow>
          map_option Inr (clearInheritedAccessCache fuel x
            (on_object x (\<lambda>ob. ob\<lparr> ob_inherit := (msg VID_INHERIT_RIGHTS \<noteq> 0), ob_acl := acl \<rparr>) w)))"

definition addParentReference :: "u32 \<Rightarrow> u32 \<Rightarrow> objects \<Rightarrow> objects" where
  "addParentReference p x w =
     (if p = x \<or> p \<in> set (ob_parents (w x)) then w
      else on_object x (\<lambda>ob. ob\<lparr> ob_parents := ob_parents ob @ [p] \<rparr>) w)"

definition addChildReference :: "u32 \<Rightarrow> u32 \<Rightarrow> objects \<Rightarrow> objects" where
  "addChildReference c x w =
     (if c = x \<or> c \<in> set (ob_children (w x)) then w
      else on_object x (\<lambda>ob. ob\<lparr> ob_children := ob_children ob @ [c] \<rparr>) w)"

definition deleteParentReference :: "u32 \<Rightarrow> u32 \<Rightarrow> objects \<Rightarrow> objects" where
  "deleteParentReference p x w = on_object x (\<lambda>ob. ob\<lparr> ob_parents := remove1 p (ob_parents ob) \<rparr>) w"

definition deleteChildReference :: "u32 \<Rightarrow> u32 \<Rightarrow> objects \<Rightarrow> objects" where
  "deleteChildReference c x w = on_object x (\<lambda>ob. ob\<lparr> ob_children := remove1 c (ob_children ob) \<rparr>) w"

definition linkObjects :: "nat \<Rightarrow> u32 \<Rightarrow> u32 \<Rightarrow> objects \<Rightarrow> objects option" where
  "linkObjects fuel parent child w =
     clearInheritedAccessCache fuel child
       (on_object parent (setModified MODIFY_RELATIONS) (on_object child (setModified MODIFY_RELATIONS)
         (addChildReference child parent (addParentReference parent child w))))"

definition unlinkObjects :: "nat \<Rightarrow> u32 \<Rightarrow> u32 \<Rightarrow> objects \<Rightarrow> objects option" where
  "unlinkObjects fuel parent child w =
     clearInheritedAccessCache fuel child
       (on_object parent (setModified MODIFY_RELATIONS) (on_object child (setModified MODIFY_RELATIONS)
         (deleteChildReference child parent (deleteParentReference parent child w))))"

definition ClearAllObjectsInheritedAccessCache :: "objects \<Rightarrow> objects" where
  "ClearAllObjectsInheritedAccessCache w = (\<lambda>x. clearOwnInheritedAccessCache (w x))"

text \<open>What the deletion of an object does to its children that have another parent.\<close>

definition detach_children :: "u32 \<Rightarrow> objects \<Rightarrow> objects" where
  "detach_children x w =
     (let cs = filter (\<lambda>c. length (ob_parents (w c)) \<noteq> 1) (ob_children (w x));
          w1 = on_object x (\<lambda>ob. ob\<lparr> ob_children := [] \<rparr>) w
      in fold (\<lambda>c w'. on_object c (setModified MODIFY_RELATIONS) (deleteParentReference x c w')) cs w1)"

end
