(* ===== verification/Nx_Access_Laws.thy ===== *)
theory Nx_Access_Laws
  imports Nx_Access
begin

text \<open>
  The cached computation of access rights agrees with the rights defined without a cache, in every
  world that the operations of \<open>Nx_Access\<close> reach.
\<close>

section \<open>Rights without a cache\<close>

fun effective :: "nat \<Rightarrow> (u32 \<Rightarrow> u32 \<Rightarrow> bool) \<Rightarrow> u32 \<Rightarrow> objects \<Rightarrow> u32 \<Rightarrow> u32" where
  "effective 0 check userId w x = 0"
| "effective (Suc n) check userId w x =
     (if userId = 0 then 0xFFFFFFFF
      else (let (direct, rights) = getUserRights_acl check userId (ob_acl (w x)) in
        if \<not> direct \<and> ob_inherit (w x)
        then foldl (\<lambda>r p. r OR effective n check userId w p) 0 (ob_parents (w x)) else rights))"

definition inherited :: "nat \<Rightarrow> (u32 \<Rightarrow> u32 \<Rightarrow> bool) \<Rightarrow> u32 \<Rightarrow> objects \<Rightarrow> u32 \<Rightarrow> u32" where
  "inherited n check userId w x = foldl (\<lambda>r p. r OR effective n check userId w p) 0 (ob_parents (w x))"

text \<open>The data of an object that rights are computed from.\<close>

definition own_data :: "net_obj \<Rightarrow> acl_element list \<times> bool \<times> u32 list" where
  "own_data ob = (acl_elements (ob_acl ob), ob_inherit ob, ob_parents ob)"

lemma getUserRights_acl_cong:
  "acl_elements l = acl_elements l' \<Longrightarrow> getUserRights_acl check u l = getUserRights_acl check u l'"
  by (simp add: getUserRights_acl_def cong: option.case_cong)

lemma foldl_or_cong: "(\<And>p. p \<in> set ps \<Longrightarrow> f p = g p) \<Longrightarrow> foldl (\<lambda>r p. r OR f p) a ps = foldl (\<lambda>r p. r OR g p) a ps" for a :: u32
  by (induction ps arbitrary: a) auto

inductive below :: "objects \<Rightarrow> u32 \<Rightarrow> u32 \<Rightarrow> bool" for w x where
  self: "below w x x"
| child: "below w x p \<Longrightarrow> p \<in> set (ob_parents (w y)) \<Longrightarrow> below w x y"

lemma below_trans: "below w y z \<Longrightarrow> below w x y \<Longrightarrow> below w x z"
  by (induction rule: below.induct) (auto intro: below.child)

text \<open>A change of the data of one object does not reach the objects that are not below it.\<close>

lemma effective_outside:
  assumes "\<And>y. y \<noteq> x \<Longrightarrow> own_data (w1 y) = own_data (w y)"
  shows "\<not> below w1 x y \<Longrightarrow> effective n check u w1 y = effective n check u w y"
proof (induction n arbitrary: y)
  case (Suc n)
  have "y \<noteq> x" using Suc.prems below.self by metis
  then have d: "own_data (w1 y) = own_data (w y)" by (rule assms)
  have "getUserRights_acl check u (ob_acl (w1 y)) = getUserRights_acl check u (ob_acl (w y))"
    using d by (intro getUserRights_acl_cong) (simp add: own_data_def)
  moreover have "effective n check u w1 p = effective n check u w p" if "p \<in> set (ob_parents (w1 y))" for p
    using Suc.IH [of p] Suc.prems below.child [of w1 x p y] that by blast
  then have "foldl (\<lambda>r p. r OR effective n check u w1 p) 0 (ob_parents (w1 y))
      = foldl (\<lambda>r p. r OR effective n check u w p) 0 (ob_parents (w1 y))" by (rule foldl_or_cong)
  ultimately show ?case using d by (simp add: own_data_def case_prod_beta)
qed simp

lemma effective_same:
  assumes "\<And>y. own_data (w1 y) = own_data (w y)"
  shows "effective n check u w1 y = effective n check u w y"
proof (induction n arbitrary: y)
  case (Suc n)
  have "getUserRights_acl check u (ob_acl (w1 y)) = getUserRights_acl check u (ob_acl (w y))"
    using assms [of y] by (intro getUserRights_acl_cong) (simp add: own_data_def)
  then show ?case using assms [of y] by (simp add: own_data_def Suc.IH case_prod_beta)
qed simp

lemma inherited_same: "(\<And>y. own_data (w1 y) = own_data (w y)) \<Longrightarrow> inherited n check u w1 y = inherited n check u w y"
  using effective_same [of w1 w n check u] by (simp add: inherited_def own_data_def)

section \<open>Depth\<close>

text \<open>A numbering that increases from parents to children; its bound limits the depth of recursion.\<close>

definition ranked :: "(u32 \<Rightarrow> nat) \<Rightarrow> nat \<Rightarrow> objects \<Rightarrow> bool" where
  "ranked rk N w \<longleftrightarrow> (\<forall>x p. p \<in> set (ob_parents (w x)) \<longrightarrow> rk p < rk x) \<and> (\<forall>x. rk x \<le> N)"

lemma effective_fuel:
  assumes "ranked rk N w"
  shows "rk x < n \<Longrightarrow> rk x < m \<Longrightarrow> effective n check u w x = effective m check u w x"
proof (induction n arbitrary: m x)
  case (Suc n)
  then obtain k where m: "m = Suc k" by (cases m) auto
  have "effective n check u w p = effective k check u w p" if "p \<in> set (ob_parents (w x))" for p
  proof (rule Suc.IH)
    have "rk p < rk x" using assms that by (simp add: ranked_def)
    then show "rk p < n" "rk p < k" using Suc.prems m by simp_all
  qed
  then have "foldl (\<lambda>r p. r OR effective n check u w p) 0 (ob_parents (w x))
      = foldl (\<lambda>r p. r OR effective k check u w p) 0 (ob_parents (w x))" by (rule foldl_or_cong)
  then show ?case by (simp add: m case_prod_beta)
qed simp

lemma effective_unfold:
  assumes "ranked rk N w"
  shows "effective (Suc N) check u w x =
    (if u = 0 then 0xFFFFFFFF
     else (let (direct, rights) = getUserRights_acl check u (ob_acl (w x)) in
       if \<not> direct \<and> ob_inherit (w x) then inherited (Suc N) check u w x else rights))"
proof -
  have "effective N check u w p = effective (Suc N) check u w p" if "p \<in> set (ob_parents (w x))" for p
  proof (rule effective_fuel [OF assms])
    have "rk p < rk x" "rk x \<le> N" using assms that by (simp_all add: ranked_def)
    then show "rk p < N" "rk p < Suc N" by simp_all
  qed
  then have "foldl (\<lambda>r p. r OR effective N check u w p) 0 (ob_parents (w x)) = inherited (Suc N) check u w x"
    unfolding inherited_def by (rule foldl_or_cong)
  then show ?thesis by simp
qed

section \<open>The cache is coherent\<close>

definition caches_ok :: "nat \<Rightarrow> (u32 \<Rightarrow> u32 \<Rightarrow> bool) \<Rightarrow> objects \<Rightarrow> bool" where
  [nx_inv]: "caches_ok N check w \<longleftrightarrow> (\<forall>x. acl_ok (ob_acl (w x)) \<and>
     (\<forall>u r. acl_map (acl_cache (ob_acl (w x))) u = Some r \<longrightarrow> r = inherited (Suc N) check u w x))"

definition same_but_cache :: "objects \<Rightarrow> objects \<Rightarrow> bool" where
  "same_but_cache w w' \<longleftrightarrow> (\<forall>x. \<exists>c. w' x = (w x)\<lparr> ob_acl := (ob_acl (w x))\<lparr> acl_cache := c \<rparr> \<rparr>)"

lemma same_but_cache_refl: "same_but_cache w w"
  unfolding same_but_cache_def
proof
  fix x
  show "\<exists>c. w x = (w x)\<lparr> ob_acl := (ob_acl (w x))\<lparr> acl_cache := c \<rparr> \<rparr>"
    by (rule exI [of _ "acl_cache (ob_acl (w x))"]) simp
qed

lemma same_but_cache_trans:
  assumes "same_but_cache w1 w2" "same_but_cache w2 w3"
  shows "same_but_cache w1 w3"
  unfolding same_but_cache_def
proof
  fix x
  obtain c d where "w2 x = (w1 x)\<lparr> ob_acl := (ob_acl (w1 x))\<lparr> acl_cache := c \<rparr> \<rparr>"
      "w3 x = (w2 x)\<lparr> ob_acl := (ob_acl (w2 x))\<lparr> acl_cache := d \<rparr> \<rparr>"
    using assms unfolding same_but_cache_def by blast
  then show "\<exists>c. w3 x = (w1 x)\<lparr> ob_acl := (ob_acl (w1 x))\<lparr> acl_cache := c \<rparr> \<rparr>"
    by (intro exI [of _ d]) simp
qed

lemma same_but_cache_fields:
  assumes "same_but_cache w w'"
  shows "own_data (w' x) = own_data (w x)" "ob_children (w' x) = ob_children (w x)" "ob_parents (w' x) = ob_parents (w x)"
proof -
  obtain c where "w' x = (w x)\<lparr> ob_acl := (ob_acl (w x))\<lparr> acl_cache := c \<rparr> \<rparr>"
    using assms unfolding same_but_cache_def by blast
  then show "own_data (w' x) = own_data (w x)" "ob_children (w' x) = ob_children (w x)" "ob_parents (w' x) = ob_parents (w x)"
    by (simp_all add: own_data_def)
qed

lemma ranked_same: "same_but_cache w w' \<Longrightarrow> ranked rk N w' \<longleftrightarrow> ranked rk N w"
  by (simp add: ranked_def same_but_cache_fields)

lemma addElement_cached: "snd (addElement u r True l) = l\<lparr> acl_cache := snd (add_to u r (acl_cache l)) \<rparr>"
  by (simp add: addElement_def Let_def case_prod_beta)

lemma cache_entry_ok:
  assumes "caches_ok N check w" "r = inherited (Suc N) check u w x"
  shows "caches_ok N check (on_object x (\<lambda>ob. ob\<lparr> ob_acl := snd (addElement u r True (ob_acl ob)) \<rparr>) w)"
    (is "caches_ok N check ?w")
    and "same_but_cache w (on_object x (\<lambda>ob. ob\<lparr> ob_acl := snd (addElement u r True (ob_acl ob)) \<rparr>) w)"
proof -
  show s: "same_but_cache w ?w"
    using same_but_cache_refl [of w] unfolding same_but_cache_def on_object_def addElement_cached by auto
  have i: "inherited (Suc N) check v ?w y = inherited (Suc N) check v w y" for v y
    by (rule inherited_same) (rule same_but_cache_fields [OF s])
  have ok: "acl_ok (ob_acl (w y))" "acl_map (acl_cache (ob_acl (w y))) v = Some q \<Longrightarrow> q = inherited (Suc N) check v w y" for y v q
    using assms(1) unfolding caches_ok_def by blast+
  show "caches_ok N check ?w"
    unfolding caches_ok_def i
  proof (intro allI conjI impI)
    fix y
    show "acl_ok (ob_acl (?w y))" using ok(1) [of y] addElement_ok [of "ob_acl (w x)" u r True] ok(1) [of x] by (simp add: on_object_def)
    fix v q
    assume "acl_map (acl_cache (ob_acl (?w y))) v = Some q"
    moreover have "acl_map (snd (add_to u r (acl_cache (ob_acl (w x))))) = (acl_map (acl_cache (ob_acl (w x))))(u \<mapsto> r)"
      using ok(1) [of x] by (intro add_to_map) (simp add: acl_ok_def)
    ultimately show "q = inherited (Suc N) check v w y"
      using ok(2) [of y v q] assms(2) by (auto simp: on_object_def addElement_cached split: if_splits)
  qed
qed

lemma parent_rights_coherent:
  assumes "\<And>p w'. p \<in> set ps \<Longrightarrow> same_but_cache w w' \<Longrightarrow> caches_ok N check w' \<Longrightarrow>
      \<exists>w''. get p w' = Some (effective (Suc N) check u w p, w'') \<and> same_but_cache w w'' \<and> caches_ok N check w''"
    and "same_but_cache w w1" "caches_ok N check w1"
  shows "\<exists>w2. parent_rights get ps a w1 = Some (foldl (\<lambda>r p. r OR effective (Suc N) check u w p) a ps, w2)
    \<and> same_but_cache w w2 \<and> caches_ok N check w2"
  using assms
proof (induction ps arbitrary: a w1)
  case (Cons p ps)
  obtain w' where w': "get p w1 = Some (effective (Suc N) check u w p, w')" "same_but_cache w w'" "caches_ok N check w'"
    using Cons.prems(1) [of p w1] Cons.prems(2,3) by auto
  have "\<exists>w2. parent_rights get ps (a OR effective (Suc N) check u w p) w' =
      Some (foldl (\<lambda>r p. r OR effective (Suc N) check u w p) (a OR effective (Suc N) check u w p) ps, w2)
    \<and> same_but_cache w w2 \<and> caches_ok N check w2"
    using Cons.prems(1) w'(2,3) by (intro Cons.IH) simp_all
  then show ?case using w'(1) by simp
qed simp

lemma getUserRights_coherent:
  assumes "ranked rk N w"
  shows "same_but_cache w w1 \<Longrightarrow> caches_ok N check w1 \<Longrightarrow> rk x < fuel \<Longrightarrow>
    \<exists>w2. getUserRights fuel check u x w1 = Some (effective (Suc N) check u w x, w2)
      \<and> same_but_cache w w2 \<and> caches_ok N check w2"
proof (induction fuel arbitrary: x w1)
  case (Suc fuel)
  note s = Suc.prems(1) note ok = Suc.prems(2)
  note f = same_but_cache_fields [OF s]
  have acl: "getUserRights_acl check u (ob_acl (w1 x)) = getUserRights_acl check u (ob_acl (w x))"
    using f(1) [of x] by (intro getUserRights_acl_cong) (simp add: own_data_def)
  obtain direct rights where d: "getUserRights_acl check u (ob_acl (w x)) = (direct, rights)" by fastforce
  have inh: "ob_inherit (w1 x) = ob_inherit (w x)" using f(1) [of x] by (simp add: own_data_def)
  note unf = effective_unfold [OF assms, of check u x, unfolded d Let_def prod.case]
  show ?case
  proof (cases "u \<noteq> 0 \<and> \<not> direct \<and> ob_inherit (w x)")
    case False
    then have "getUserRights (Suc fuel) check u x w1 = Some (effective (Suc N) check u w x, w1)"
      unfolding unf by (auto simp: acl d inh)
    then show ?thesis using s ok by blast
  next
    case True
    have eff: "effective (Suc N) check u w x = inherited (Suc N) check u w x" using unf True by simp
    show ?thesis
    proof (cases "getCachedUserRights u (ob_acl (w1 x))")
      case (Some r)
      then have "r = inherited (Suc N) check u w1 x" using ok by (simp add: caches_ok_def getCachedUserRights_map)
      also have "\<dots> = inherited (Suc N) check u w x" by (rule inherited_same) (rule f(1))
      finally have "getUserRights (Suc fuel) check u x w1 = Some (effective (Suc N) check u w x, w1)"
        using Some True eff by (simp add: acl d inh)
      then show ?thesis using s ok by blast
    next
      case None
      have "\<exists>w2. parent_rights (getUserRights fuel check u) (ob_parents (w x)) 0 w1
          = Some (foldl (\<lambda>r p. r OR effective (Suc N) check u w p) 0 (ob_parents (w x)), w2)
        \<and> same_but_cache w w2 \<and> caches_ok N check w2"
      proof (rule parent_rights_coherent [OF _ s ok])
        fix p w'
        assume "p \<in> set (ob_parents (w x))" "same_but_cache w w'" "caches_ok N check w'"
        moreover from this have "rk p < rk x" using assms by (simp add: ranked_def)
        then have "rk p < fuel" using Suc.prems(3) by simp
        ultimately show "\<exists>w''. getUserRights fuel check u p w' = Some (effective (Suc N) check u w p, w'')
            \<and> same_but_cache w w'' \<and> caches_ok N check w''" using Suc.IH by blast
      qed
      then obtain w2 where w2: "parent_rights (getUserRights fuel check u) (ob_parents (w x)) 0 w1
          = Some (inherited (Suc N) check u w x, w2)" "same_but_cache w w2" "caches_ok N check w2"
        unfolding inherited_def by blast
      let ?r = "inherited (Suc N) check u w x"
      let ?w3 = "on_object x (\<lambda>ob. ob\<lparr> ob_acl := snd (addElement u ?r True (ob_acl ob)) \<rparr>) w2"
      have "?r = inherited (Suc N) check u w2 x"
        by (rule inherited_same [symmetric]) (rule same_but_cache_fields [OF w2(2)])
      note e = cache_entry_ok [OF w2(3) this]
      have "getUserRights (Suc fuel) check u x w1 = Some (?r, ?w3)"
        using None True w2(1) f(3) [of x] by (simp add: acl d inh)
      then show ?thesis unfolding eff using e same_but_cache_trans [OF w2(2) e(2)] by blast
    qed
  qed
qed simp

section \<open>Clearing reaches every object below\<close>

definition linked :: "objects \<Rightarrow> bool" where
  [nx_inv]: "linked w \<longleftrightarrow> (\<forall>p c. p \<in> set (ob_parents (w c)) \<longleftrightarrow> c \<in> set (ob_children (w p)))
     \<and> (\<forall>x. distinct (ob_parents (w x)) \<and> distinct (ob_children (w x)))"

lemma below_first: "linked w \<Longrightarrow> below w x y \<longleftrightarrow> y = x \<or> (\<exists>c. c \<in> set (ob_children (w x)) \<and> below w c y)"
proof
  assume l: "linked w"
  assume "below w x y"
  then show "y = x \<or> (\<exists>c. c \<in> set (ob_children (w x)) \<and> below w c y)"
  proof (induction rule: below.induct)
    case (child p y)
    from child.IH show ?case
    proof
      assume "p = x"
      then have "y \<in> set (ob_children (w x))" using child.hyps(2) l by (simp add: linked_def)
      then show ?thesis using below.self [of w y] by blast
    next
      assume "\<exists>c. c \<in> set (ob_children (w x)) \<and> below w c p"
      then show ?thesis using below.child [of w _ p y] child.hyps(2) by blast
    qed
  qed simp
next
  assume l: "linked w" and "y = x \<or> (\<exists>c. c \<in> set (ob_children (w x)) \<and> below w c y)"
  then show "below w x y"
  proof (elim disjE exE conjE)
    fix c
    assume c: "c \<in> set (ob_children (w x))" "below w c y"
    then have "x \<in> set (ob_parents (w c))" using l by (simp add: linked_def)
    then have "below w x c" using below.child [of w x x c] below.self by blast
    then show ?thesis using below_trans [OF c(2)] by blast
  qed (simp add: below.self)
qed

lemma clear_twice: "clearOwnInheritedAccessCache (clearOwnInheritedAccessCache ob) = clearOwnInheritedAccessCache ob"
  by (simp add: clearOwnInheritedAccessCache_def clearCache_acl_def)

lemma same_clear:
  assumes "same_but_cache w w1" "\<And>y. w2 y = (if P y then clearOwnInheritedAccessCache (w1 y) else w1 y)"
  shows "same_but_cache w w2"
proof (rule same_but_cache_trans [OF assms(1)])
  show "same_but_cache w1 w2"
    unfolding same_but_cache_def
  proof
    fix x
    show "\<exists>c. w2 x = (w1 x)\<lparr> ob_acl := (ob_acl (w1 x))\<lparr> acl_cache := c \<rparr> \<rparr>"
    proof (cases "P x")
      case True
      then show ?thesis by (intro exI [of _ "[]"]) (simp add: assms(2) clearOwnInheritedAccessCache_def clearCache_acl_def)
    next
      case False
      then show ?thesis by (intro exI [of _ "acl_cache (ob_acl (w1 x))"]) (simp add: assms(2))
    qed
  qed
qed

lemma clear_each_below:
  assumes "\<And>c w'. c \<in> set cs \<Longrightarrow> same_but_cache w w' \<Longrightarrow> \<exists>w''. clear c w' = Some w''
      \<and> (\<forall>y. w'' y = (if below w c y then clearOwnInheritedAccessCache (w' y) else w' y))"
    and "same_but_cache w w1"
  shows "\<exists>w2. clear_each clear cs w1 = Some w2 \<and>
    (\<forall>y. w2 y = (if \<exists>c. c \<in> set cs \<and> below w c y then clearOwnInheritedAccessCache (w1 y) else w1 y))"
  using assms
proof (induction cs arbitrary: w1)
  case (Cons c cs)
  obtain w' where w': "clear c w1 = Some w'" "\<forall>y. w' y = (if below w c y then clearOwnInheritedAccessCache (w1 y) else w1 y)"
    using Cons.prems(1) [of c w1] Cons.prems(2) by auto
  have "same_but_cache w w'" by (rule same_clear [OF Cons.prems(2)]) (use w'(2) in blast)
  then have "\<exists>w2. clear_each clear cs w' = Some w2 \<and>
    (\<forall>y. w2 y = (if \<exists>c. c \<in> set cs \<and> below w c y then clearOwnInheritedAccessCache (w' y) else w' y))"
    using Cons.prems(1) by (intro Cons.IH) simp_all
  then obtain w2 where "clear_each clear cs w' = Some w2"
    "\<forall>y. w2 y = (if \<exists>c. c \<in> set cs \<and> below w c y then clearOwnInheritedAccessCache (w' y) else w' y)" by blast
  then show ?case using w' by (intro exI [of _ w2]) (auto simp: clear_twice)
qed simp

lemma clear_below:
  assumes "linked w" "ranked rk N w"
  shows "same_but_cache w w1 \<Longrightarrow> N - rk x < fuel \<Longrightarrow> \<exists>w2. clearInheritedAccessCache fuel x w1 = Some w2
    \<and> (\<forall>y. w2 y = (if below w x y then clearOwnInheritedAccessCache (w1 y) else w1 y))"
proof (induction fuel arbitrary: x w1)
  case (Suc fuel)
  let ?w = "on_object x clearOwnInheritedAccessCache w1"
  have s: "same_but_cache w ?w" by (rule same_clear [OF Suc.prems(1), of _ "\<lambda>y. y = x"]) (simp add: on_object_def)
  have kids: "ob_children (?w x) = ob_children (w x)" by (rule same_but_cache_fields [OF s])
  have "\<exists>w2. clear_each (clearInheritedAccessCache fuel) (ob_children (w x)) ?w = Some w2 \<and>
    (\<forall>y. w2 y = (if \<exists>c. c \<in> set (ob_children (w x)) \<and> below w c y then clearOwnInheritedAccessCache (?w y) else ?w y))"
  proof (rule clear_each_below [OF _ s])
    fix c w'
    assume c: "c \<in> set (ob_children (w x))" "same_but_cache w w'"
    then have "x \<in> set (ob_parents (w c))" using assms(1) by (simp add: linked_def)
    then have "rk x < rk c" "rk c \<le> N" using assms(2) by (simp_all add: ranked_def)
    then have "N - rk c < fuel" using Suc.prems(2) by simp
    then show "\<exists>w''. clearInheritedAccessCache fuel c w' = Some w''
        \<and> (\<forall>y. w'' y = (if below w c y then clearOwnInheritedAccessCache (w' y) else w' y))"
      by (rule Suc.IH [OF c(2)])
  qed
  then obtain w2 where w2: "clear_each (clearInheritedAccessCache fuel) (ob_children (w x)) ?w = Some w2"
    "\<forall>y. w2 y = (if \<exists>c. c \<in> set (ob_children (w x)) \<and> below w c y then clearOwnInheritedAccessCache (?w y) else ?w y)" by blast
  have "w2 y = (if below w x y then clearOwnInheritedAccessCache (w1 y) else w1 y)" for y
    using w2(2) below_first [OF assms(1), of x y] by (auto simp: on_object_def clear_twice)
  moreover have "clearInheritedAccessCache (Suc fuel) x w1 = Some w2" using w2(1) kids by simp
  ultimately show ?case by blast
qed simp

section \<open>Every operation keeps the caches coherent\<close>

definition world_ok :: "nat \<Rightarrow> (u32 \<Rightarrow> u32 \<Rightarrow> bool) \<Rightarrow> objects \<Rightarrow> bool" where
  [nx_inv]: "world_ok N check w \<longleftrightarrow> caches_ok N check w \<and> linked w \<and> (\<exists>rk. ranked rk N w)"

text \<open>
  Whatever an operation changes in one object, clearing the caches from that object down makes all
  caches coherent again.
\<close>

lemma clear_restores:
  assumes "caches_ok N check w" and "\<And>y. y \<noteq> x \<Longrightarrow> own_data (w1 y) = own_data (w y)"
    and "\<And>y. y \<noteq> x \<Longrightarrow> acl_cache (ob_acl (w1 y)) = acl_cache (ob_acl (w y))" and "acl_ok (ob_acl (w1 x))"
    and "linked w1" and "\<exists>rk. ranked rk N w1" and "N < fuel"
  shows "\<exists>w2. clearInheritedAccessCache fuel x w1 = Some w2 \<and> same_but_cache w1 w2 \<and> world_ok N check w2"
proof -
  obtain rk where rk: "ranked rk N w1" using assms(6) by blast
  obtain w2 where w2: "clearInheritedAccessCache fuel x w1 = Some w2"
      "\<And>y. w2 y = (if below w1 x y then clearOwnInheritedAccessCache (w1 y) else w1 y)"
  proof -
    have "N - rk x < fuel" using assms(7) by simp
    from clear_below [OF assms(5) rk same_but_cache_refl this] show thesis using that by blast
  qed
  have s: "same_but_cache w1 w2" by (rule same_clear [OF same_but_cache_refl w2(2)])
  have acl1: "acl_ok (ob_acl (w1 y))" for y
  proof (cases "y = x")
    case False
    have "acl_ok (ob_acl (w y))" using assms(1) by (simp add: caches_ok_def)
    then show ?thesis using assms(2,3) [OF False] by (simp add: acl_ok_def own_data_def)
  qed (simp add: assms(4))
  have "caches_ok N check w2"
    unfolding caches_ok_def
  proof (intro allI conjI impI)
    fix y
    show "acl_ok (ob_acl (w2 y))"
      using acl1 [of y] by (simp add: w2(2) clearOwnInheritedAccessCache_def clearCache_acl_def acl_ok_def)
    fix u r
    assume r: "acl_map (acl_cache (ob_acl (w2 y))) u = Some r"
    then have out: "\<not> below w1 x y"
      by (auto simp: w2(2) clearOwnInheritedAccessCache_def clearCache_acl_def acl_map_def split: if_splits)
    then have "y \<noteq> x" using below.self by metis
    then have "r = inherited (Suc N) check u w y"
      using r out assms(1,3) by (simp add: w2(2) caches_ok_def)
    also have "\<dots> = inherited (Suc N) check u w1 y"
    proof -
      have "effective (Suc N) check u w p = effective (Suc N) check u w1 p" if "p \<in> set (ob_parents (w1 y))" for p
      proof (rule effective_outside [symmetric, of x])
        show "\<not> below w1 x p" using out below.child [of w1 x p y] that by blast
      qed (rule assms(2))
      then have "foldl (\<lambda>r p. r OR effective (Suc N) check u w p) 0 (ob_parents (w1 y))
          = foldl (\<lambda>r p. r OR effective (Suc N) check u w1 p) 0 (ob_parents (w1 y))" by (rule foldl_or_cong)
      moreover have "ob_parents (w y) = ob_parents (w1 y)" using assms(2) [OF \<open>y \<noteq> x\<close>] by (simp add: own_data_def)
      ultimately show ?thesis by (simp only: inherited_def)
    qed
    also have "\<dots> = inherited (Suc N) check u w2 y"
      by (rule inherited_same [symmetric]) (rule same_but_cache_fields [OF s])
    finally show "r = inherited (Suc N) check u w2 y" .
  qed
  moreover have "linked w2" using assms(5) same_but_cache_fields [OF s] by (simp add: linked_def)
  moreover have "ranked rk N w2" using rk ranked_same [OF s] by simp
  ultimately show ?thesis using w2(1) s by (auto simp: world_ok_def)
qed

text \<open>A change of the access list or the inheritance flag of one object.\<close>

lemma change_acl:
  assumes "world_ok N check w" "N < fuel" "acl_ok acl"
  shows "\<exists>w2. clearInheritedAccessCache fuel x (w(x := (w x)\<lparr> ob_acl := acl, ob_inherit := b, ob_modified := m \<rparr>)) = Some w2
    \<and> world_ok N check w2 \<and> own_data (w2 x) = (acl_elements acl, b, ob_parents (w x))
    \<and> (\<forall>y. y \<noteq> x \<longrightarrow> own_data (w2 y) = own_data (w y))"
proof -
  let ?w1 = "w(x := (w x)\<lparr> ob_acl := acl, ob_inherit := b, ob_modified := m \<rparr>)"
  have "linked ?w1" using assms(1) by (auto simp: world_ok_def linked_def)
  moreover have "\<exists>rk. ranked rk N ?w1" using assms(1) by (auto simp: world_ok_def ranked_def)
  ultimately obtain w2 where w2: "clearInheritedAccessCache fuel x ?w1 = Some w2" "same_but_cache ?w1 w2" "world_ok N check w2"
    using clear_restores [of N check w x ?w1 fuel] assms by (auto simp: world_ok_def)
  have "own_data (w2 y) = own_data (?w1 y)" for y by (rule same_but_cache_fields [OF w2(2)])
  then show ?thesis using w2(1,3) by (intro exI [of _ w2]) (simp add: own_data_def)
qed

lemma addElement_unchanged: "\<not> fst (addElement u r c l) \<Longrightarrow> snd (addElement u r c l) = l"
  by (cases c) (auto simp: addElement_def add_to_def Let_def split: option.splits if_splits prod.splits)

lemma setUserAccess_ok:
  assumes "world_ok N check w" "N < fuel"
  shows "\<exists>w2. setUserAccess fuel u r x w = Some w2 \<and> world_ok N check w2
    \<and> acl_map (acl_elements (ob_acl (w2 x))) = (acl_map (acl_elements (ob_acl (w x))))(u \<mapsto> r)"
proof -
  let ?acl = "snd (addElement u r False (ob_acl (w x)))"
  have acl: "acl_ok (ob_acl (w x))" using assms(1) by (simp add: world_ok_def caches_ok_def)
  note m = addElement_map [OF acl, of u r]
  show ?thesis
  proof (cases "fst (addElement u r False (ob_acl (w x)))")
    case True
    let ?w1 = "w(x := (w x)\<lparr> ob_acl := ?acl, ob_inherit := ob_inherit (w x), ob_modified := ob_modified (w x) OR MODIFY_ACCESS_LIST \<rparr>)"
    have "setUserAccess fuel u r x w = clearInheritedAccessCache fuel x ?w1"
      using True by (simp add: setUserAccess_def Let_def case_prod_beta on_object_def setModified_def)
    then show ?thesis
      using change_acl [OF assms addElement_ok [OF acl, of u r False], where x = x and b = "ob_inherit (w x)" and m = "ob_modified (w x) OR MODIFY_ACCESS_LIST"] m
      by (auto simp: own_data_def)
  next
    case False
    then have "setUserAccess fuel u r x w = Some w"
      by (simp add: setUserAccess_def Let_def case_prod_beta on_object_def addElement_unchanged)
    then show ?thesis using assms(1) m addElement_unchanged [OF False] by simp
  qed
qed

lemma dropUserAccess_ok:
  assumes "world_ok N check w" "N < fuel"
  shows "\<exists>w2. dropUserAccess fuel u x w = Some w2 \<and> world_ok N check w2
    \<and> acl_map (acl_elements (ob_acl (w2 x))) = (acl_map (acl_elements (ob_acl (w x))))(u := None)"
proof -
  let ?acl = "snd (deleteElement u (ob_acl (w x)))"
  have acl: "acl_ok (ob_acl (w x))" using assms(1) by (simp add: world_ok_def caches_ok_def)
  note m = deleteElement_map [OF acl, of u]
  show ?thesis
  proof (cases "fst (deleteElement u (ob_acl (w x)))")
    case True
    let ?w1 = "w(x := (w x)\<lparr> ob_acl := ?acl, ob_inherit := ob_inherit (w x), ob_modified := ob_modified (w x) OR MODIFY_ACCESS_LIST \<rparr>)"
    have "dropUserAccess fuel u x w = clearInheritedAccessCache fuel x ?w1"
      using True by (simp add: dropUserAccess_def Let_def case_prod_beta on_object_def setModified_def)
    then show ?thesis
      using change_acl [OF assms deleteElement_ok [OF acl, of u], where x = x and b = "ob_inherit (w x)" and m = "ob_modified (w x) OR MODIFY_ACCESS_LIST"] m
      by (auto simp: own_data_def)
  next
    case False
    then have e: "snd (deleteElement u (ob_acl (w x))) = ob_acl (w x)" by (auto simp: deleteElement_def split: option.splits)
    then have "dropUserAccess fuel u x w = Some w"
      using False by (simp add: dropUserAccess_def Let_def case_prod_beta on_object_def)
    then show ?thesis using assms(1) m e by simp
  qed
qed

lemma inherit_acl_swap: "r\<lparr> ob_inherit := b, ob_acl := a \<rparr> = r\<lparr> ob_acl := a, ob_inherit := b \<rparr>"
  by (cases r) simp

lemma modify_acl_ok:
  assumes "world_ok N check w" "N < fuel" "new_once (acl_elements (ob_acl (w x))) (message_entries msg)"
  shows "\<exists>w2. modify_acl fuel msg x w = Some (Inr w2) \<and> world_ok N check w2
    \<and> acl_map (acl_elements (ob_acl (w2 x))) = map_of (rev (message_entries msg)) \<and> ob_inherit (w2 x) = (msg VID_INHERIT_RIGHTS \<noteq> 0)"
proof -
  have "acl_ok (ob_acl (w x))" using assms(1) by (simp add: world_ok_def caches_ok_def)
  then obtain acl where acl: "updateFromMessage_acl msg (ob_acl (w x)) = Inr acl" "acl_ok acl"
      "acl_map (acl_elements acl) = map_of (rev (message_entries msg))"
    using updateFromMessage_result [of "ob_acl (w x)" msg] assms(3) by auto
  let ?w1 = "w(x := (w x)\<lparr> ob_acl := acl, ob_inherit := (msg VID_INHERIT_RIGHTS \<noteq> 0), ob_modified := ob_modified (w x) \<rparr>)"
  have "modify_acl fuel msg x w = map_option Inr (clearInheritedAccessCache fuel x ?w1)"
    using acl(1) by (simp add: modify_acl_def on_object_def inherit_acl_swap)
  then show ?thesis
    using change_acl [OF assms(1,2) acl(2), where x = x and b = "msg VID_INHERIT_RIGHTS \<noteq> 0" and m = "ob_modified (w x)"] acl(3)
    by (auto simp: own_data_def)
qed

lemma linkObjects_ok:
  assumes "world_ok N check w" "N < fuel" "\<exists>rk. ranked rk N (addParentReference p c w)"
  shows "\<exists>w2. linkObjects fuel p c w = Some w2 \<and> world_ok N check w2"
proof -
  let ?w1 = "on_object p (setModified MODIFY_RELATIONS) (on_object c (setModified MODIFY_RELATIONS)
      (addChildReference c p (addParentReference p c w)))"
  have par: "ob_parents (?w1 y) = ob_parents (addParentReference p c w y)" for y
    by (simp add: on_object_def setModified_def addChildReference_def)
  have "\<exists>rk. ranked rk N ?w1" using assms(3) by (simp add: ranked_def par)
  moreover have "linked ?w1"
    using assms(1) by (auto simp: world_ok_def linked_def on_object_def setModified_def addChildReference_def addParentReference_def)
  moreover have "own_data (?w1 y) = own_data (w y)" if "y \<noteq> c" for y
    using that by (simp add: own_data_def on_object_def setModified_def addChildReference_def addParentReference_def)
  moreover have "ob_acl (?w1 y) = ob_acl (w y)" for y
    by (simp add: on_object_def setModified_def addChildReference_def addParentReference_def)
  ultimately have "\<exists>w2. clearInheritedAccessCache fuel c ?w1 = Some w2 \<and> same_but_cache ?w1 w2 \<and> world_ok N check w2"
    using assms(1,2) by (intro clear_restores [of N check w c ?w1 fuel]) (simp_all add: world_ok_def caches_ok_def)
  then show ?thesis unfolding linkObjects_def by blast
qed

lemma unlinkObjects_ok:
  assumes "world_ok N check w" "N < fuel"
  shows "\<exists>w2. unlinkObjects fuel p c w = Some w2 \<and> world_ok N check w2"
proof -
  let ?w1 = "on_object p (setModified MODIFY_RELATIONS) (on_object c (setModified MODIFY_RELATIONS)
      (deleteChildReference c p (deleteParentReference p c w)))"
  have par: "ob_parents (?w1 y) = (if y = c then remove1 p (ob_parents (w y)) else ob_parents (w y))" for y
    by (simp add: on_object_def setModified_def deleteChildReference_def deleteParentReference_def)
  have kid: "ob_children (?w1 y) = (if y = p then remove1 c (ob_children (w y)) else ob_children (w y))" for y
    by (simp add: on_object_def setModified_def deleteChildReference_def deleteParentReference_def)
  have "\<exists>rk. ranked rk N ?w1"
    using assms(1) set_remove1_subset [of p "ob_parents (w c)"] by (auto simp: ranked_def par world_ok_def)
  moreover have "linked ?w1"
    using assms(1) unfolding world_ok_def linked_def par kid by (auto simp: distinct_remove1 set_remove1_eq)
  moreover have "own_data (?w1 y) = own_data (w y)" if "y \<noteq> c" for y
    using that by (simp add: own_data_def on_object_def setModified_def deleteChildReference_def deleteParentReference_def)
  moreover have "ob_acl (?w1 y) = ob_acl (w y)" for y
    by (simp add: on_object_def setModified_def deleteChildReference_def deleteParentReference_def)
  ultimately have "\<exists>w2. clearInheritedAccessCache fuel c ?w1 = Some w2 \<and> same_but_cache ?w1 w2 \<and> world_ok N check w2"
    using assms(1,2) by (intro clear_restores [of N check w c ?w1 fuel]) (simp_all add: world_ok_def caches_ok_def)
  then show ?thesis unfolding unlinkObjects_def by blast
qed

lemma ClearAll_ok:
  assumes "world_ok N check w"
  shows "world_ok N check' (ClearAllObjectsInheritedAccessCache w)"
proof -
  let ?w = "ClearAllObjectsInheritedAccessCache w"
  have f: "ob_parents (?w x) = ob_parents (w x)" "ob_children (?w x) = ob_children (w x)"
      "acl_cache (ob_acl (?w x)) = []" "acl_elements (ob_acl (?w x)) = acl_elements (ob_acl (w x))" for x
    by (simp_all add: ClearAllObjectsInheritedAccessCache_def clearOwnInheritedAccessCache_def clearCache_acl_def)
  have "ranked rk N ?w = ranked rk N w" for rk by (simp add: ranked_def f)
  moreover have "linked ?w = linked w" by (simp add: linked_def f)
  moreover have "caches_ok N check' ?w" using assms by (simp add: world_ok_def caches_ok_def f acl_ok_def acl_map_def)
  ultimately show ?thesis using assms by (simp add: world_ok_def)
qed

section \<open>Runs of the server\<close>

text \<open>
  The operations that touch access lists, relations or caches, in any order. Readers fill caches
  between the changes; a change of group membership or of the state of a group is followed by the
  clearing of all caches (\<^verbatim>\<open>ModifyUserDatabaseObject\<close>). A link must not close a cycle in the object
  tree, and keeps its depth below the bound; a message lists a user that is new to the list once.
\<close>

type_synonym access_state = "(u32 \<Rightarrow> u32 \<Rightarrow> bool) \<times> objects"

inductive access_step :: "nat \<Rightarrow> access_state \<Rightarrow> access_state \<Rightarrow> bool" for N where
  read: "getUserRights (Suc N) check u x w = Some (r, w') \<Longrightarrow> access_step N (check, w) (check, w')"
| set_access: "setUserAccess (Suc N) u r x w = Some w' \<Longrightarrow> access_step N (check, w) (check, w')"
| drop_access: "dropUserAccess (Suc N) u x w = Some w' \<Longrightarrow> access_step N (check, w) (check, w')"
| message: "new_once (acl_elements (ob_acl (w x))) (message_entries msg) \<Longrightarrow>
    modify_acl (Suc N) msg x w = Some (Inr w') \<Longrightarrow> access_step N (check, w) (check, w')"
| link: "\<exists>rk. ranked rk N (addParentReference p c w) \<Longrightarrow> linkObjects (Suc N) p c w = Some w' \<Longrightarrow>
    access_step N (check, w) (check, w')"
| unlink: "unlinkObjects (Suc N) p c w = Some w' \<Longrightarrow> access_step N (check, w) (check, w')"
| membership: "access_step N (check, w) (check', ClearAllObjectsInheritedAccessCache w)"

inductive access_reachable :: "nat \<Rightarrow> access_state \<Rightarrow> bool" for N where
  start: "(\<And>x. ob_acl (w x) = new_acl \<and> ob_parents (w x) = [] \<and> ob_children (w x) = []) \<Longrightarrow> access_reachable N (check, w)"
| run: "access_reachable N s \<Longrightarrow> access_step N s s' \<Longrightarrow> access_reachable N s'"

lemma world_ok_read:
  assumes "world_ok N check w" "N < fuel"
  shows "\<exists>w2. getUserRights fuel check u x w = Some (effective (Suc N) check u w x, w2) \<and> same_but_cache w w2 \<and> world_ok N check w2"
proof -
  obtain rk where rk: "ranked rk N w" using assms(1) by (auto simp: world_ok_def)
  then have "rk x < fuel" using assms(2) by (auto simp: ranked_def intro: le_less_trans)
  then obtain w2 where w2: "getUserRights fuel check u x w = Some (effective (Suc N) check u w x, w2)"
      "same_but_cache w w2" "caches_ok N check w2"
    using getUserRights_coherent [OF rk same_but_cache_refl, of check x fuel u] assms(1) by (auto simp: world_ok_def)
  have "linked w2" using assms(1) same_but_cache_fields [OF w2(2)] by (simp add: world_ok_def linked_def)
  moreover have "ranked rk N w2" using rk ranked_same [OF w2(2)] by simp
  ultimately show ?thesis using w2 by (auto simp: world_ok_def)
qed

lemma access_step_ok:
  assumes "access_step N s s'"
  shows "world_ok N (fst s) (snd s) \<Longrightarrow> world_ok N (fst s') (snd s')"
  using assms
proof (induction rule: access_step.induct)
  case (read check u x w r w')
  then show ?case using world_ok_read [of N check w "Suc N" u x] by auto
next
  case (set_access u r x w w' check)
  then show ?case using setUserAccess_ok [of N check w "Suc N" u r x] by auto
next
  case (drop_access u x w w' check)
  then show ?case using dropUserAccess_ok [of N check w "Suc N" u x] by auto
next
  case (message w x msg w' check)
  then show ?case using modify_acl_ok [of N check w "Suc N" x msg] by auto
next
  case (link p c w w' check)
  then show ?case using linkObjects_ok [of N check w "Suc N" p c] by auto
next
  case (unlink p c w w' check)
  then show ?case using unlinkObjects_ok [of N check w "Suc N" p c] by auto
next
  case (membership check w check')
  then show ?case using ClearAll_ok [of N check w check'] by simp
qed

lemma access_reachable_ok: "access_reachable N s \<Longrightarrow> world_ok N (fst s) (snd s)"
proof (induction rule: access_reachable.induct)
  case (start w check)
  have "ranked (\<lambda>_. 0) N w" using start by (simp add: ranked_def)
  then show ?case using start by (auto simp: world_ok_def caches_ok_def linked_def acl_ok_def acl_map_def new_acl_def)
next
  case (run s s')
  then show ?case by (auto dest: access_step_ok)
qed


lemma link_step_demo:
  defines "w0 \<equiv> \<lambda>_::u32. \<lparr> ob_acl = new_acl, ob_inherit = True, ob_parents = [], ob_children = [], ob_modified = 0 \<rparr>"
  shows "access_reachable 1 (check, w0(1 := (w0 1)\<lparr> ob_children := [2], ob_modified := MODIFY_RELATIONS \<rparr>,
    2 := (w0 2)\<lparr> ob_parents := [1], ob_modified := MODIFY_RELATIONS \<rparr>))"
proof -
  let ?w1 = "w0(1 := (w0 1)\<lparr> ob_children := [2], ob_modified := MODIFY_RELATIONS \<rparr>,
    2 := (w0 2)\<lparr> ob_parents := [1], ob_modified := MODIFY_RELATIONS \<rparr>)"
  have "access_reachable 1 (check, w0)" by (rule access_reachable.start) (simp add: w0_def)
  moreover have "access_step 1 (check, w0) (check, ?w1)"
  proof (rule access_step.link [of 1 1 2])
    show "\<exists>rk. ranked rk 1 (addParentReference 1 2 w0)"
      by (rule exI [of _ "\<lambda>x. if x = 2 then 1 else 0"]) (simp add: ranked_def addParentReference_def on_object_def w0_def)
    show "linkObjects (Suc 1) 1 2 w0 = Some ?w1"
      by (simp add: linkObjects_def addParentReference_def addChildReference_def on_object_def setModified_def
          clearOwnInheritedAccessCache_def clearCache_acl_def w0_def new_acl_def fun_eq_iff)
  qed
  ultimately show ?thesis by (rule access_reachable.run)
qed


section \<open>Deletion leaves stale rights\<close>

text \<open>
  Deleting an object detaches its children that have other parents without clearing their caches. A
  user whose rights on such a child came only from the deleted object keeps them: below, object 3 has
  parents 1 and 2, user 5 has rights on 1 only and has read object 3 once; after the deletion of 1
  the rights defined by the remaining parent are none, and the server still answers 3.
\<close>

lemma delete_keeps_stale_rights:
  defines "w0 \<equiv> (\<lambda>_::u32. \<lparr> ob_acl = new_acl, ob_inherit = True, ob_parents = [], ob_children = [], ob_modified = 0 \<rparr>)
    (1 := \<lparr> ob_acl = \<lparr> acl_elements = [\<lparr> e_userId = 5, e_accessRights = 3 \<rparr>], acl_cache = [] \<rparr>,
            ob_inherit = True, ob_parents = [], ob_children = [3], ob_modified = 0 \<rparr>,
     2 := \<lparr> ob_acl = new_acl, ob_inherit = True, ob_parents = [], ob_children = [3], ob_modified = 0 \<rparr>,
     3 := \<lparr> ob_acl = new_acl, ob_inherit = True, ob_parents = [1, 2], ob_children = [], ob_modified = 0 \<rparr>)"
  shows "\<exists>w1 w2. getUserRights (Suc (Suc 0)) (\<lambda>_ _. False) 5 3 w0 = Some (3, w1)
    \<and> getUserRights (Suc (Suc 0)) (\<lambda>_ _. False) 5 3 (detach_children 1 w1) = Some (3, w2)
    \<and> effective (Suc (Suc 0)) (\<lambda>_ _. False) 5 (detach_children 1 w1) 3 = 0"
proof -
  let ?w1 = "w0(2 := (w0 2)\<lparr> ob_acl := \<lparr> acl_elements = [], acl_cache = [\<lparr> e_userId = 5, e_accessRights = 0 \<rparr>] \<rparr> \<rparr>,
                3 := (w0 3)\<lparr> ob_acl := \<lparr> acl_elements = [], acl_cache = [\<lparr> e_userId = 5, e_accessRights = 3 \<rparr>] \<rparr> \<rparr>)"
  note d = w0_def new_acl_def getUserRights_acl_def getCachedUserRights_def addElement_def add_to_def
    on_object_def
  have 1: "getUserRights (Suc (Suc 0)) (\<lambda>_ _. False) 5 3 w0 = Some (3, ?w1)"
    by (simp add: d fun_eq_iff)
  obtain wd where wd: "wd = detach_children 1 ?w1" by simp
  have w2: "wd 3 = \<lparr> ob_acl = \<lparr> acl_elements = [], acl_cache = [\<lparr> e_userId = 5, e_accessRights = 3 \<rparr>] \<rparr>,
      ob_inherit = True, ob_parents = [2], ob_children = [], ob_modified = MODIFY_RELATIONS \<rparr>"
      "wd 2 = \<lparr> ob_acl = \<lparr> acl_elements = [], acl_cache = [\<lparr> e_userId = 5, e_accessRights = 0 \<rparr>] \<rparr>,
      ob_inherit = True, ob_parents = [], ob_children = [3], ob_modified = 0 \<rparr>"
    by (simp_all add: wd detach_children_def deleteParentReference_def setModified_def on_object_def w0_def)
  have "getUserRights (Suc (Suc 0)) (\<lambda>_ _. False) 5 3 wd = Some (3, wd)" by (simp add: d w2)
  moreover have "effective (Suc (Suc 0)) (\<lambda>_ _. False) 5 wd 3 = 0" by (simp add: d w2)
  ultimately show ?thesis using 1 wd by blast
qed

end
