(* ===== verification/Nx_Access_Groups.thy ===== *)
theory Nx_Access_Groups
  imports Nx_Access_Laws Nx_Groups
begin

text \<open>
  Access rights and user groups together: what the rights of objects rely on the user database for
  (\<^verbatim>\<open>CheckUserMembership\<close>, called by \<^verbatim>\<open>AccessList::getUserRights\<close>) is an interface, which the group
  search implements. A right is granted along a chain of parents that ends at an entry for the user
  or for a group of theirs; the answer of the server is exactly that.
\<close>

section \<open>Grants\<close>

definition group_entry :: "(u32 \<Rightarrow> u32 \<Rightarrow> bool) \<Rightarrow> u32 \<Rightarrow> net_obj \<Rightarrow> acl_element \<Rightarrow> bool" where
  "group_entry in_group u ob e \<longleftrightarrow> e \<in> set (acl_elements (ob_acl ob)) \<and> e_userId e AND GROUP_BIT \<noteq> 0 \<and> in_group u (e_userId e)"

inductive granted :: "(u32 \<Rightarrow> u32 \<Rightarrow> bool) \<Rightarrow> objects \<Rightarrow> u32 \<Rightarrow> nat \<Rightarrow> u32 \<Rightarrow> bool" for in_group w u n where
  own: "acl_map (acl_elements (ob_acl (w x))) u = Some r \<Longrightarrow> bit r n \<Longrightarrow> granted in_group w u n x"
| group: "acl_map (acl_elements (ob_acl (w x))) u = None \<Longrightarrow> group_entry in_group u (w x) e \<Longrightarrow>
    bit (e_accessRights e) n \<Longrightarrow> granted in_group w u n x"
| parent: "acl_map (acl_elements (ob_acl (w x))) u = None \<Longrightarrow> \<not> (\<exists>e. group_entry in_group u (w x) e) \<Longrightarrow>
    ob_inherit (w x) \<Longrightarrow> p \<in> set (ob_parents (w x)) \<Longrightarrow> granted in_group w u n p \<Longrightarrow> granted in_group w u n x"

inductive_simps granted_at: "granted in_group w u n x"

lemma bit_foldl_or: "bit (foldl (\<lambda>r p. r OR f p) a ps) n \<longleftrightarrow> bit a n \<or> (\<exists>p. p \<in> set ps \<and> bit (f p) n)" for a :: u32
  by (induction ps arbitrary: a) (auto simp: bit_or_iff)

lemma effective_granted:
  assumes "ranked rk N w" "u \<noteq> 0"
  shows "rk x < m \<Longrightarrow> bit (effective m check u w x) n \<longleftrightarrow> granted check w u n x"
proof (induction m arbitrary: x)
  case (Suc m)
  have up: "bit (effective m check u w p) n \<longleftrightarrow> granted check w u n p" if "p \<in> set (ob_parents (w x))" for p
  proof (rule Suc.IH)
    have "rk p < rk x" using that assms(1) by (simp add: ranked_def)
    then show "rk p < m" using Suc.prems by simp
  qed
  show ?case
  proof (cases "acl_map (acl_elements (ob_acl (w x))) u")
    case None
    note g = getUserRights_acl_groups [OF None, of check]
    show ?thesis
    proof (cases "\<exists>e. group_entry check u (w x) e")
      case True
      then have d: "fst (getUserRights_acl check u (ob_acl (w x)))" by (simp add: g(1) group_entry_def)
      then have "bit (effective (Suc m) check u w x) n \<longleftrightarrow> bit (snd (getUserRights_acl check u (ob_acl (w x)))) n"
        using assms(2) by (simp add: case_prod_beta)
      then show ?thesis using True None by (subst granted_at) (auto simp: g(2) group_entry_def)
    next
      case False
      then have d: "\<not> fst (getUserRights_acl check u (ob_acl (w x)))" by (simp add: g(1) group_entry_def)
      have z: "\<not> bit (snd (getUserRights_acl check u (ob_acl (w x)))) n" using False by (auto simp: g(2) group_entry_def)
      have "bit (effective (Suc m) check u w x) n \<longleftrightarrow> ob_inherit (w x) \<and> (\<exists>p. p \<in> set (ob_parents (w x)) \<and> granted check w u n p)"
        using assms(2) d z up by (auto simp: case_prod_beta bit_foldl_or)
      then show ?thesis using False None by (subst granted_at) auto
    qed
  next
    case (Some r)
    then have "effective (Suc m) check u w x = r" using assms(2) by (simp add: getUserRights_acl_direct)
    then show ?thesis using Some by (subst granted_at) auto
  qed
qed simp

lemma granted_cong:
  assumes "\<And>g. g AND GROUP_BIT \<noteq> 0 \<Longrightarrow> in_group u g = in_group' u g"
  shows "granted in_group w u n x \<longleftrightarrow> granted in_group' w u n x"
proof -
  have e: "group_entry in_group u ob e = group_entry in_group' u ob e" for ob e
    using assms [of "e_userId e"] by (auto simp: group_entry_def)
  have "granted A w u n x \<Longrightarrow> granted B w u n x" if "\<And>ob e. group_entry A u ob e = group_entry B u ob e" for A B
    by (induction rule: granted.induct) (auto simp: that intro: granted.intros)
  then show ?thesis using e by blast
qed

section \<open>What access rights need of the user database\<close>

locale membership_service =
  fixes valid :: "'db \<Rightarrow> bool"
    and check :: "'db \<Rightarrow> u32 \<Rightarrow> u32 \<Rightarrow> bool"
    and belongs :: "'db \<Rightarrow> u32 \<Rightarrow> u32 \<Rightarrow> bool"
  assumes check_belongs: "valid db \<Longrightarrow> g AND GROUP_BIT \<noteq> 0 \<Longrightarrow> check db u g \<longleftrightarrow> belongs db u g"
begin

lemma rights_granted:
  assumes "valid db" "access_reachable N (check db, w)" "N < fuel" "u \<noteq> 0"
  shows "\<exists>r w'. getUserRights fuel (check db) u x w = Some (r, w') \<and> (\<forall>n. bit r n \<longleftrightarrow> granted (belongs db) w u n x)"
proof -
  have ok: "world_ok N (check db) w" using access_reachable_ok [OF assms(2)] by simp
  then obtain rk where rk: "ranked rk N w" by (auto simp: world_ok_def)
  have "rk x < Suc N" using rk by (simp add: ranked_def less_Suc_eq_le)
  then have "bit (effective (Suc N) (check db) u w x) n \<longleftrightarrow> granted (belongs db) w u n x" for n
    using effective_granted [OF rk assms(4), of x "Suc N" "check db" n]
      granted_cong [of "check db" u "belongs db" w n x] check_belongs [OF assms(1)] by blast
  then show ?thesis using world_ok_read [OF ok assms(3), of u x] by auto
qed

end

text \<open>The group search provides it, with enough fuel for every object of the database.\<close>

definition is_member :: "db_object list \<Rightarrow> u32 \<Rightarrow> u32 \<Rightarrow> bool" where
  "is_member db u g \<longleftrightarrow> CheckUserMembership (Suc (length db)) db u g = Some (Inr True)"

definition belongs_to :: "db_object list \<Rightarrow> u32 \<Rightarrow> u32 \<Rightarrow> bool" where
  "belongs_to db u g \<longleftrightarrow> g = GROUP_EVERYONE \<or> member_of db u g"

interpretation userdb: membership_service db_ok is_member belongs_to
  by unfold_locales (simp add: is_member_def belongs_to_def membership_decided)



end
