(* ===== verification/Nx_Status.thy ===== *)
theory Nx_Status
  imports Nx_Alarm
begin

text \<open>
  The status of objects (\<^verbatim>\<open>NetObj::calculateCompoundStatus\<close>, \<^verbatim>\<open>getPropagatedStatus\<close>,
  \<^verbatim>\<open>setMgmtStatus\<close> in \<^verbatim>\<open>src/src/server/core/netobj.cpp\<close>, the defaults in
  \<^verbatim>\<open>src/src/server/core/objects.cpp\<close>). An object takes its status from what its children propagate
  and from its alarms, and makes its parents recalculate theirs when it changes. Objects are named by
  their identifiers. Alarm severities, the additional status of an object class and the statuses that
  server modules report are parameters. The recursions to parents and to children have fuel.
\<close>

section \<open>Objects and server defaults\<close>

abbreviation (input) "STATUS_NORMAL \<equiv> (0 :: int)"
abbreviation (input) "STATUS_UNMANAGED \<equiv> (6 :: int)"
abbreviation (input) "SA_CALCULATE_DEFAULT \<equiv> (0 :: int)"
abbreviation (input) "SA_CALCULATE_MOST_CRITICAL \<equiv> (1 :: int)"
abbreviation (input) "SA_CALCULATE_SINGLE_THRESHOLD \<equiv> (2 :: int)"
abbreviation (input) "SA_CALCULATE_MULTIPLE_THRESHOLDS \<equiv> (3 :: int)"
abbreviation (input) "SA_PROPAGATE_DEFAULT \<equiv> (0 :: int)"
abbreviation (input) "SA_PROPAGATE_UNCHANGED \<equiv> (1 :: int)"
abbreviation (input) "SA_PROPAGATE_FIXED \<equiv> (2 :: int)"
abbreviation (input) "SA_PROPAGATE_RELATIVE \<equiv> (3 :: int)"
abbreviation (input) "SA_PROPAGATE_TRANSLATED \<equiv> (4 :: int)"
abbreviation (input) "MODIFY_RUNTIME \<equiv> (0 :: u32)"
abbreviation (input) "MODIFY_COMMON_PROPERTIES \<equiv> (0x10 :: u32)"

record st_obj =
  st_status :: int
  st_calcAlg :: int
  st_propAlg :: int
  st_fixedStatus :: int
  st_shift :: int
  st_translation :: "int list"
  st_singleThreshold :: int
  st_thresholds :: "int list"
  st_parents :: "u32 list"
  st_children :: "u32 list"
  st_modified :: u32

type_synonym st_objects = "u32 \<Rightarrow> st_obj"

record status_env =
  se_calcAlg :: int
  se_propAlg :: int
  se_fixedStatus :: int
  se_shift :: int
  se_translation :: "int list"
  se_singleThreshold :: int
  se_thresholds :: "int list"
  se_alarm :: "u32 \<Rightarrow> int"
  se_additional :: "u32 \<Rightarrow> int"
  se_modules :: "u32 \<Rightarrow> int list"

definition new_st_obj :: st_obj where
  "new_st_obj = \<lparr> st_status = STATUS_UNKNOWN, st_calcAlg = SA_CALCULATE_DEFAULT, st_propAlg = SA_PROPAGATE_DEFAULT,
     st_fixedStatus = 1, st_shift = 0, st_translation = [1, 2, 3, 4], st_singleThreshold = 75,
     st_thresholds = [80, 60, 40, 20], st_parents = [], st_children = [], st_modified = 0 \<rparr>"

definition setModified_st :: "u32 \<Rightarrow> st_obj \<Rightarrow> st_obj" where
  "setModified_st flags ob = ob\<lparr> st_modified := st_modified ob OR flags \<rparr>"

section \<open>What an object tells its parents\<close>

definition DefaultPropagatedStatus :: "status_env \<Rightarrow> int \<Rightarrow> int" where
  "DefaultPropagatedStatus E s =
     (if se_propAlg E = SA_PROPAGATE_UNCHANGED then s
      else if se_propAlg E = SA_PROPAGATE_FIXED then (if s > STATUS_NORMAL \<and> s < STATUS_UNKNOWN then se_fixedStatus E else s)
      else if se_propAlg E = SA_PROPAGATE_RELATIVE then
        (if s > STATUS_NORMAL \<and> s < STATUS_UNKNOWN then
           (let t = s + se_shift E; t = (if t < 0 then 0 else t) in if t > STATUS_CRITICAL then STATUS_CRITICAL else t)
         else s)
      else if se_propAlg E = SA_PROPAGATE_TRANSLATED then
        (if s > STATUS_NORMAL \<and> s < STATUS_UNKNOWN then se_translation E ! nat (s - 1) else s)
      else STATUS_UNKNOWN)"

definition getPropagatedStatus :: "status_env \<Rightarrow> st_obj \<Rightarrow> int" where
  "getPropagatedStatus E ob =
     (let s = st_status ob in
      if st_propAlg ob = SA_PROPAGATE_DEFAULT then DefaultPropagatedStatus E s
      else if st_propAlg ob = SA_PROPAGATE_UNCHANGED then s
      else if st_propAlg ob = SA_PROPAGATE_FIXED then (if s > STATUS_NORMAL \<and> s < STATUS_UNKNOWN then st_fixedStatus ob else s)
      else if st_propAlg ob = SA_PROPAGATE_RELATIVE then
        (if s > STATUS_NORMAL \<and> s < STATUS_UNKNOWN then
           (let t = s + st_shift ob; t = (if t < 0 then 0 else t) in if t > STATUS_CRITICAL then STATUS_CRITICAL else t)
         else s)
      else if st_propAlg ob = SA_PROPAGATE_TRANSLATED then
        (if s > STATUS_NORMAL \<and> s < STATUS_UNKNOWN then st_translation ob ! nat (s - 1) else s)
      else STATUS_UNKNOWN)"

section \<open>The status of an object\<close>

text \<open>The most critical status of the children, with the number of times it rose.\<close>

fun most_critical_child :: "int list \<Rightarrow> int \<Rightarrow> nat \<Rightarrow> int \<times> nat" where
  "most_critical_child [] m n = (m, n)"
| "most_critical_child (s # ss) m n =
     (if s < STATUS_UNKNOWN \<and> s > m then most_critical_child ss s (n + 1) else most_critical_child ss m n)"

text \<open>\<open>bump n\<close> counts the elements \<open>n - 1\<close> to 0 of the ratings up.\<close>

fun bump :: "nat \<Rightarrow> int list \<Rightarrow> int list" where
  "bump 0 r = r"
| "bump (Suc n) r = bump n (r[n := r ! n + 1])"

fun ratings :: "int list \<Rightarrow> int list \<Rightarrow> int \<Rightarrow> int list \<times> int" where
  "ratings [] r n = (r, n)"
| "ratings (s # ss) r n = (if s < STATUS_UNKNOWN then ratings ss (bump (nat (s + 1)) r) (n + 1) else ratings ss r n)"

fun rating_above :: "int list \<Rightarrow> int \<Rightarrow> int list \<Rightarrow> nat \<Rightarrow> nat" where
  "rating_above r n thresholds 0 = 0"
| "rating_above r n thresholds (Suc i) =
     (if r ! Suc i * 100 div n \<ge> thresholds ! i then Suc i else rating_above r n thresholds i)"

definition status_from_children :: "status_env \<Rightarrow> st_obj \<Rightarrow> int list \<Rightarrow> int" where
  "status_from_children E ob ss =
     (let (alg, single, multiple) =
            (if st_calcAlg ob = SA_CALCULATE_DEFAULT then (se_calcAlg E, se_singleThreshold E, se_thresholds E)
             else (st_calcAlg ob, st_singleThreshold ob, st_thresholds ob));
          thresholds = (if alg = SA_CALCULATE_SINGLE_THRESHOLD then replicate 4 single else multiple)
      in if alg = SA_CALCULATE_MOST_CRITICAL then
           (let (m, n) = most_critical_child ss (- 1) 0 in if n > 0 then m else STATUS_UNKNOWN)
         else if alg = SA_CALCULATE_SINGLE_THRESHOLD \<or> alg = SA_CALCULATE_MULTIPLE_THRESHOLDS then
           (let (r, n) = ratings ss [0, 0, 0, 0, 0] 0 in
            if n > 0 then int (rating_above r n thresholds 4) else STATUS_UNKNOWN)
         else STATUS_UNKNOWN)"

definition apply_status :: "int \<Rightarrow> int \<Rightarrow> int" where
  "apply_status other new =
     (if new \<noteq> STATUS_CRITICAL \<and> other \<noteq> STATUS_UNKNOWN
      then (if new = STATUS_UNKNOWN then other else max new other) else new)"

text \<open>The loop over the server modules, which takes the maximum with the present status of the object.\<close>

fun module_loop :: "int \<Rightarrow> int list \<Rightarrow> int \<Rightarrow> int" where
  "module_loop status [] new = new"
| "module_loop status (s # ss) new =
     (let new' = (if s \<noteq> STATUS_UNKNOWN then (if new = STATUS_UNKNOWN then s else max status s) else new)
      in if new' = STATUS_CRITICAL then new' else module_loop status ss new')"

definition newStatus :: "status_env \<Rightarrow> st_objects \<Rightarrow> u32 \<Rightarrow> int" where
  "newStatus E w x =
     (let s = status_from_children E (w x) (map (\<lambda>c. getPropagatedStatus E (w c)) (st_children (w x)));
          s = apply_status (se_alarm E x) s;
          s = apply_status (se_additional E x) s
      in if s \<noteq> STATUS_CRITICAL then module_loop (st_status (w x)) (se_modules E x) s else s)"

fun for_each :: "(u32 \<Rightarrow> 'w \<Rightarrow> 'w option) \<Rightarrow> u32 list \<Rightarrow> 'w \<Rightarrow> 'w option" where
  "for_each f [] w = Some w"
| "for_each f (x # xs) w = (case f x w of None \<Rightarrow> None | Some w' \<Rightarrow> for_each f xs w')"

fun calculateCompoundStatus :: "nat \<Rightarrow> status_env \<Rightarrow> bool \<Rightarrow> u32 \<Rightarrow> st_objects \<Rightarrow> st_objects option" where
  "calculateCompoundStatus 0 E forcedRecalc x w = None"
| "calculateCompoundStatus (Suc fuel) E forcedRecalc x w =
     (if st_status (w x) = STATUS_UNMANAGED then Some w
      else (let new = newStatus E w x;
                changed = (new \<noteq> st_status (w x));
                w1 = (if changed then w(x := setModified_st MODIFY_RUNTIME ((w x)\<lparr> st_status := new \<rparr>)) else w)
            in if forcedRecalc \<or> changed
               then for_each (calculateCompoundStatus fuel E False) (st_parents (w1 x)) w1 else Some w1))"

section \<open>Management and configuration\<close>

text \<open>\<^verbatim>\<open>up\<close> is the fuel for the recalculation of parents, the first number that for the descent to children.\<close>

fun setMgmtStatus :: "nat \<Rightarrow> nat \<Rightarrow> status_env \<Rightarrow> bool \<Rightarrow> u32 \<Rightarrow> st_objects \<Rightarrow> (bool \<times> st_objects) option" where
  "setMgmtStatus 0 up E isManaged x w = None"
| "setMgmtStatus (Suc fuel) up E isManaged x w =
     (if isManaged \<and> st_status (w x) \<noteq> STATUS_UNMANAGED \<or> \<not> isManaged \<and> st_status (w x) = STATUS_UNMANAGED
      then Some (False, w)
      else (let w1 = w(x := setModified_st MODIFY_COMMON_PROPERTIES
                        ((w x)\<lparr> st_status := (if isManaged then STATUS_UNKNOWN else STATUS_UNMANAGED) \<rparr>))
            in (case for_each (\<lambda>c w'. map_option snd (setMgmtStatus fuel up E isManaged c w')) (st_children (w1 x)) w1 of
                  None \<Rightarrow> None
                | Some w2 \<Rightarrow>
                    map_option (\<lambda>w3. (True, w3)) (for_each (calculateCompoundStatus up E False) (st_parents (w2 x)) w2))))"

definition setStatusCalculation :: "int \<Rightarrow> int \<Rightarrow> int \<Rightarrow> int \<Rightarrow> int \<Rightarrow> st_obj \<Rightarrow> st_obj" where
  "setStatusCalculation method arg1 arg2 arg3 arg4 ob =
     setModified_st MODIFY_COMMON_PROPERTIES
       (let ob' = ob\<lparr> st_calcAlg := method \<rparr> in
        if method = SA_CALCULATE_SINGLE_THRESHOLD then ob'\<lparr> st_singleThreshold := arg1 \<rparr>
        else if method = SA_CALCULATE_MULTIPLE_THRESHOLDS then ob'\<lparr> st_thresholds := [arg1, arg2, arg3, arg4] \<rparr>
        else ob')"

definition setStatusPropagation :: "int \<Rightarrow> int \<Rightarrow> int \<Rightarrow> int \<Rightarrow> int \<Rightarrow> st_obj \<Rightarrow> st_obj" where
  "setStatusPropagation method arg1 arg2 arg3 arg4 ob =
     setModified_st MODIFY_COMMON_PROPERTIES
       (let ob' = ob\<lparr> st_propAlg := method \<rparr> in
        if method = SA_PROPAGATE_FIXED then ob'\<lparr> st_fixedStatus := arg1 \<rparr>
        else if method = SA_PROPAGATE_RELATIVE then ob'\<lparr> st_shift := arg1 \<rparr>
        else if method = SA_PROPAGATE_TRANSLATED then ob'\<lparr> st_translation := [arg1, arg2, arg3, arg4] \<rparr>
        else ob')"

text \<open>The part of \<^verbatim>\<open>modifyFromMessageInternal\<close> for a message that has the fields of status calculation.\<close>

definition modify_status :: "(nat \<Rightarrow> 16 word) \<Rightarrow> st_obj \<Rightarrow> st_obj" where
  "modify_status msg ob = ob\<lparr>
     st_calcAlg := sint (msg 160), st_propAlg := sint (msg 183), st_fixedStatus := sint (msg 184), st_shift := sint (msg 185),
     st_translation := [sint (msg 186), sint (msg 187), sint (msg 188), sint (msg 189)], st_singleThreshold := sint (msg 190),
     st_thresholds := [sint (msg 191), sint (msg 192), sint (msg 193), sint (msg 194)] \<rparr>"

definition postModify :: "nat \<Rightarrow> status_env \<Rightarrow> u32 \<Rightarrow> st_objects \<Rightarrow> st_objects option" where
  "postModify fuel E x w = calculateCompoundStatus fuel E True x w"

end
