(* ===== verification/Nx_Status_Laws.thy ===== *)
theory Nx_Status_Laws
  imports Nx_Status
begin

text \<open>
  Statuses settle: whatever happens to an object, recalculating it makes every object show the status
  that its children and alarms define, with the exception of objects that became managed again and
  were not polled since. With the default algorithms that status is the worst alarm at or below the
  object.
\<close>

section \<open>Settled objects\<close>

definition settled :: "status_env \<Rightarrow> st_objects \<Rightarrow> u32 \<Rightarrow> bool" where
  "settled E w x \<longleftrightarrow> st_status (w x) = STATUS_UNMANAGED \<or> st_status (w x) = newStatus E w x"

definition no_modules :: "status_env \<Rightarrow> bool" where
  "no_modules E \<longleftrightarrow> (\<forall>x s. s \<in> set (se_modules E x) \<longrightarrow> s = STATUS_UNKNOWN)"

definition st_tree_ok :: "(u32 \<Rightarrow> nat) \<Rightarrow> nat \<Rightarrow> st_objects \<Rightarrow> bool" where
  [nx_inv]: "st_tree_ok rk N w \<longleftrightarrow> (\<forall>p c. p \<in> set (st_parents (w c)) \<longleftrightarrow> c \<in> set (st_children (w p)))
     \<and> (\<forall>x p. p \<in> set (st_parents (w x)) \<longrightarrow> rk p < rk x) \<and> (\<forall>x. rk x \<le> N)"

lemma tree_parent: "st_tree_ok rk N w \<Longrightarrow> p \<in> set (st_parents (w x)) \<Longrightarrow> rk p < rk x"
  unfolding st_tree_ok_def by blast

text \<open>The configuration of an object: everything but its status and modification flags.\<close>

definition st_setup :: "st_obj \<Rightarrow> int \<times> int \<times> int \<times> int \<times> int list \<times> int \<times> int list \<times> u32 list \<times> u32 list" where
  "st_setup ob = (st_calcAlg ob, st_propAlg ob, st_fixedStatus ob, st_shift ob, st_translation ob, st_singleThreshold ob,
     st_thresholds ob, st_parents ob, st_children ob)"

definition same_setup :: "st_objects \<Rightarrow> st_objects \<Rightarrow> bool" where
  "same_setup w w' \<longleftrightarrow> (\<forall>x. st_setup (w' x) = st_setup (w x))"

lemma same_setup_refl [simp]: "same_setup w w"
  by (simp add: same_setup_def)

lemma same_setup_trans: "same_setup w1 w2 \<Longrightarrow> same_setup w2 w3 \<Longrightarrow> same_setup w1 w3"
  by (simp add: same_setup_def)

lemma same_setup_upd [simp]: "same_setup w (w(x := setModified_st f ((w x)\<lparr> st_status := s \<rparr>)))"
  by (simp add: same_setup_def setModified_st_def st_setup_def)

lemma same_setup_fields:
  assumes "same_setup w w'"
  shows "st_parents (w' x) = st_parents (w x)" "st_children (w' x) = st_children (w x)"
  using assms by (simp_all add: same_setup_def st_setup_def)

lemma same_setup_tree: "same_setup w w' \<Longrightarrow> st_tree_ok rk N w' \<longleftrightarrow> st_tree_ok rk N w"
  by (simp add: st_tree_ok_def same_setup_fields)

section \<open>What the status of an object depends on\<close>

lemma module_loop_quiet: "(\<And>s. s \<in> set ss \<Longrightarrow> s = STATUS_UNKNOWN) \<Longrightarrow> module_loop m ss new = new"
  by (induction ss) (simp_all add: Let_def)

lemma newStatus_quiet:
  assumes "no_modules E"
  shows "newStatus E w x = apply_status (se_additional E x) (apply_status (se_alarm E x)
    (status_from_children E (w x) (map (\<lambda>c. getPropagatedStatus E (w c)) (st_children (w x)))))"
  using assms module_loop_quiet [of "se_modules E x"] by (simp add: newStatus_def no_modules_def Let_def)

lemma getPropagatedStatus_cong:
  "st_setup ob' = st_setup ob \<Longrightarrow> st_status ob' = st_status ob \<Longrightarrow> getPropagatedStatus E ob' = getPropagatedStatus E ob"
  by (simp add: getPropagatedStatus_def st_setup_def Let_def)

lemma status_from_children_cong:
  "st_setup ob' = st_setup ob \<Longrightarrow> status_from_children E ob' ss = status_from_children E ob ss"
  by (simp add: status_from_children_def st_setup_def Let_def)

lemma newStatus_cong:
  assumes "no_modules E" "st_setup (w' y) = st_setup (w y)"
    and "\<And>c. c \<in> set (st_children (w y)) \<Longrightarrow> getPropagatedStatus E (w' c) = getPropagatedStatus E (w c)"
  shows "newStatus E w' y = newStatus E w y"
proof -
  have "st_children (w' y) = st_children (w y)" using assms(2) by (simp add: st_setup_def)
  then have "map (\<lambda>c. getPropagatedStatus E (w' c)) (st_children (w' y)) = map (\<lambda>c. getPropagatedStatus E (w c)) (st_children (w y))"
    using assms(3) by simp
  then show ?thesis by (simp add: newStatus_quiet [OF assms(1)] status_from_children_cong [OF assms(2)])
qed

text \<open>A new status of one object keeps all others settled but its parents.\<close>

lemma settled_outside:
  assumes "no_modules E" "st_tree_ok rk N w" "y \<noteq> x" "y \<notin> set (st_parents (w x))"
  shows "settled E (w(x := setModified_st f ((w x)\<lparr> st_status := s \<rparr>))) y \<longleftrightarrow> settled E w y"
proof -
  let ?w = "w(x := setModified_st f ((w x)\<lparr> st_status := s \<rparr>))"
  have "newStatus E ?w y = newStatus E w y"
  proof (rule newStatus_cong [OF assms(1)])
    show "st_setup (?w y) = st_setup (w y)" using assms(3) by simp
    show "getPropagatedStatus E (?w c) = getPropagatedStatus E (w c)" if "c \<in> set (st_children (w y))" for c
      using that assms(2,4) by (auto simp: st_tree_ok_def)
  qed
  then show ?thesis using assms(3) by (simp add: settled_def)
qed

lemma newStatus_self:
  assumes "no_modules E" "st_tree_ok rk N w"
  shows "newStatus E (w(x := setModified_st f ((w x)\<lparr> st_status := s \<rparr>))) x = newStatus E w x"
proof (rule newStatus_cong [OF assms(1)])
  show "st_setup ((w(x := setModified_st f ((w x)\<lparr> st_status := s \<rparr>))) x) = st_setup (w x)"
    by (simp add: setModified_st_def st_setup_def)
  have "x \<notin> set (st_children (w x))" using assms(2) by (auto simp: st_tree_ok_def)
  then show "getPropagatedStatus E ((w(x := setModified_st f ((w x)\<lparr> st_status := s \<rparr>))) c) = getPropagatedStatus E (w c)"
    if "c \<in> set (st_children (w x))" for c using that by auto
qed

section \<open>Recalculation settles\<close>

definition keeps_unmanaged :: "st_objects \<Rightarrow> st_objects \<Rightarrow> bool" where
  "keeps_unmanaged w w' \<longleftrightarrow> (\<forall>y. st_status (w y) = STATUS_UNMANAGED \<longrightarrow> st_status (w' y) = STATUS_UNMANAGED)"

definition settled_but :: "status_env \<Rightarrow> st_objects \<Rightarrow> u32 set \<Rightarrow> bool" where
  "settled_but E w U \<longleftrightarrow> (\<forall>y. \<not> settled E w y \<longrightarrow> y \<in> U)"

lemma settled_but_mono: "settled_but E w U \<Longrightarrow> U \<subseteq> U' \<Longrightarrow> settled_but E w U'"
  by (auto simp: settled_but_def)

lemma set_status_settles:
  assumes "no_modules E" "st_tree_ok rk N w" "settled_but E w U"
  shows "settled_but E (w(x := setModified_st f ((w x)\<lparr> st_status := s \<rparr>))) (insert x (set (st_parents (w x)) \<union> U))"
  using assms(3) settled_outside [OF assms(1,2), of _ x f s] by (auto simp: settled_but_def)

lemma settled_but_drop: "settled_but E w (insert x U) \<Longrightarrow> settled E w x \<Longrightarrow> settled_but E w U"
  by (auto simp: settled_but_def)

lemma for_each_settles:
  assumes "\<And>p w' U. p \<in> set ps \<Longrightarrow> same_setup w w' \<Longrightarrow> settled_but E w' (insert p U) \<Longrightarrow>
      \<exists>w''. f p w' = Some w'' \<and> same_setup w w'' \<and> keeps_unmanaged w' w'' \<and> settled_but E w'' U"
  shows "same_setup w w1 \<Longrightarrow> settled_but E w1 (set ps \<union> U) \<Longrightarrow>
    \<exists>w2. for_each f ps w1 = Some w2 \<and> same_setup w w2 \<and> keeps_unmanaged w1 w2 \<and> settled_but E w2 U"
  using assms
proof (induction ps arbitrary: w1)
  case (Cons p ps)
  have "settled_but E w1 (insert p (set ps \<union> U))" using Cons.prems(2) by simp
  then obtain w' where w': "f p w1 = Some w'" "same_setup w w'" "keeps_unmanaged w1 w'" "settled_but E w' (set ps \<union> U)"
    using Cons.prems(3) [of p w1 "set ps \<union> U"] Cons.prems(1) by auto
  obtain w2 where "for_each f ps w' = Some w2" "same_setup w w2" "keeps_unmanaged w' w2" "settled_but E w2 U"
    using Cons.IH [OF w'(2,4)] Cons.prems(3) by auto
  then show ?case using w' by (auto simp: keeps_unmanaged_def)
qed (auto simp: keeps_unmanaged_def)

lemma calculate_settles:
  assumes "no_modules E" "st_tree_ok rk N w0"
  shows "same_setup w0 w \<Longrightarrow> rk x < fuel \<Longrightarrow>
    settled_but E w (insert x (U \<union> (if forced \<and> st_status (w x) \<noteq> STATUS_UNMANAGED then set (st_parents (w x)) else {}))) \<Longrightarrow>
    \<exists>w'. calculateCompoundStatus fuel E forced x w = Some w' \<and> same_setup w0 w' \<and> keeps_unmanaged w w' \<and> settled_but E w' U"
proof (induction fuel arbitrary: x w U forced)
  case (Suc fuel)
  have t: "st_tree_ok rk N w" using assms(2) Suc.prems(1) same_setup_tree by blast
  show ?case
  proof (cases "st_status (w x) = STATUS_UNMANAGED")
    case True
    then show ?thesis using Suc.prems by (auto simp: settled_but_def settled_def keeps_unmanaged_def)
  next
    case False
    let ?new = "newStatus E w x"
    let ?w1 = "if ?new \<noteq> st_status (w x) then w(x := setModified_st MODIFY_RUNTIME ((w x)\<lparr> st_status := ?new \<rparr>)) else w"
    have s1: "same_setup w ?w1" by simp
    have k1: "keeps_unmanaged w ?w1" using False by (simp add: keeps_unmanaged_def)
    have x1: "settled E ?w1 x" by (simp add: settled_def newStatus_self [OF assms(1) t]) (simp add: setModified_st_def)
    have "settled_but E ?w1 (insert x (set (st_parents (w x)) \<union> U))"
      using set_status_settles [OF assms(1) t Suc.prems(3), of x MODIFY_RUNTIME ?new] Suc.prems(3)
      by (auto simp: settled_but_def split: if_splits)
    then have u1: "settled_but E ?w1 (set (st_parents (w x)) \<union> U)" using x1 by (rule settled_but_drop)
    have p1: "st_parents (?w1 x) = st_parents (w x)" using same_setup_fields(1) [OF s1] .
    show ?thesis
    proof (cases "forced \<or> ?new \<noteq> st_status (w x)")
      case True
      have "\<exists>w2. for_each (calculateCompoundStatus fuel E False) (st_parents (w x)) ?w1 = Some w2 \<and> same_setup w0 w2
          \<and> keeps_unmanaged ?w1 w2 \<and> settled_but E w2 U"
      proof (rule for_each_settles)
        show "same_setup w0 ?w1" using same_setup_trans [OF Suc.prems(1) s1] .
        fix p w' V assume "p \<in> set (st_parents (w x))" "same_setup w0 w'" "settled_but E w' (insert p V)"
        moreover have "rk p < fuel" using tree_parent [OF t \<open>p \<in> set (st_parents (w x))\<close>] Suc.prems(2) by simp
        ultimately show "\<exists>w''. calculateCompoundStatus fuel E False p w' = Some w'' \<and> same_setup w0 w''
            \<and> keeps_unmanaged w' w'' \<and> settled_but E w'' V"
          using Suc.IH [of w' p V False] by simp
      qed (rule u1)
      then show ?thesis using False True k1 p1 by (auto simp: keeps_unmanaged_def Let_def)
    next
      case F: False
      then have "settled_but E w U" using Suc.prems(3) x1 by (auto simp: settled_but_def)
      then show ?thesis using F False Suc.prems(1) by (simp add: keeps_unmanaged_def)
    qed
  qed
qed simp

section \<open>Management status\<close>

inductive st_below :: "st_objects \<Rightarrow> u32 \<Rightarrow> u32 \<Rightarrow> bool" for w x where
  self: "st_below w x x"
| child: "st_below w x p \<Longrightarrow> y \<in> set (st_children (w p)) \<Longrightarrow> st_below w x y"

lemma st_below_child: "st_below w c y \<Longrightarrow> c \<in> set (st_children (w x)) \<Longrightarrow> st_below w x y"
  by (induction rule: st_below.induct) (auto intro: st_below.intros)

lemma for_each_inv:
  assumes "\<And>c w'. c \<in> set cs \<Longrightarrow> I w' \<Longrightarrow> \<exists>w''. f c w' = Some w'' \<and> I w''"
  shows "I w \<Longrightarrow> \<exists>w'. for_each f cs w = Some w' \<and> I w'"
  using assms
proof (induction cs arbitrary: w)
  case (Cons c cs)
  then obtain w' where "f c w = Some w'" "I w'" by (meson list.set_intros(1))
  then show ?case using Cons.IH [of w'] Cons.prems(2) by auto
qed simp

lemma setMgmtStatus_settles:
  assumes "no_modules E" "st_tree_ok rk N w0" "N < up"
  defines "pending m x \<equiv> if m then {y. st_below w0 x y} else {}"
  shows "same_setup w0 w \<Longrightarrow> N - rk x < fuel \<Longrightarrow> settled_but E w U \<Longrightarrow>
    \<exists>b w'. setMgmtStatus fuel up E m x w = Some (b, w') \<and> same_setup w0 w' \<and> settled_but E w' (U \<union> pending m x)
      \<and> (m \<or> keeps_unmanaged w w' \<and> st_status (w' x) = STATUS_UNMANAGED)"
proof (induction fuel arbitrary: x w U)
  case (Suc fuel)
  note su = Suc.prems(1)
  have t: "st_tree_ok rk N w" using assms(2) su same_setup_tree by blast
  show ?case
  proof (cases "m \<and> st_status (w x) \<noteq> STATUS_UNMANAGED \<or> \<not> m \<and> st_status (w x) = STATUS_UNMANAGED")
    case True
    have "settled_but E w (U \<union> pending m x)" by (rule settled_but_mono [OF Suc.prems(3)]) simp
    then show ?thesis using True su by (auto simp: keeps_unmanaged_def)
  next
    case False
    define st where "st = (if m then STATUS_UNKNOWN else STATUS_UNMANAGED)"
    define w1 where "w1 = w(x := setModified_st MODIFY_COMMON_PROPERTIES ((w x)\<lparr> st_status := st \<rparr>))"
    let ?V = "U \<union> pending m x" let ?W = "set (st_parents (w0 x)) \<union> ?V"
    let ?I = "\<lambda>w'. same_setup w0 w' \<and> settled_but E w' ?W \<and> (m \<or> keeps_unmanaged w1 w')"
    have s1: "same_setup w0 w1" unfolding w1_def by (rule same_setup_trans [OF su same_setup_upd])
    have x1: "m \<or> st_status (w1 x) = STATUS_UNMANAGED \<and> keeps_unmanaged w w1"
      by (simp add: w1_def st_def setModified_st_def keeps_unmanaged_def)
    have "settled_but E w1 (insert x (set (st_parents (w0 x)) \<union> U))"
      using set_status_settles [OF assms(1) t Suc.prems(3), of x] same_setup_fields(1) [OF su] unfolding w1_def by simp
    then have "settled_but E w1 ?W"
      using x1 settled_but_drop [of E w1 x] by (cases m) (auto simp: settled_def settled_but_def pending_def st_below.self)
    then have i1: "?I w1" using s1 by (simp add: keeps_unmanaged_def)
    obtain w2 where w2: "for_each (\<lambda>c w'. map_option snd (setMgmtStatus fuel up E m c w')) (st_children (w1 x)) w1 = Some w2" "?I w2"
    proof (rule exE [OF for_each_inv [of _ ?I, OF _ i1]])
      fix c w' assume c: "c \<in> set (st_children (w1 x))" and i: "?I w'"
      have c0: "c \<in> set (st_children (w0 x))" using c same_setup_fields(2) [OF s1] by simp
      have "rk x < rk c" "rk c \<le> N" using c0 assms(2) tree_parent [OF assms(2), of x c] unfolding st_tree_ok_def by blast+
      then have "N - rk c < fuel" using Suc.prems(2) by simp
      then obtain b w'' where w'': "setMgmtStatus fuel up E m c w' = Some (b, w'')" "same_setup w0 w''"
          "settled_but E w'' (?W \<union> pending m c)" "m \<or> keeps_unmanaged w' w''"
        using Suc.IH [of w' c ?W] i by blast
      have "pending m c \<subseteq> pending m x" using c0 by (auto simp: pending_def intro: st_below_child)
      then have "settled_but E w'' ?W" by (intro settled_but_mono [OF w''(3)]) blast
      then show "\<exists>w''. map_option snd (setMgmtStatus fuel up E m c w') = Some w'' \<and> ?I w''"
        using w'' i by (auto simp: keeps_unmanaged_def)
    qed blast
    have p2: "st_parents (w2 x) = st_parents (w0 x)" using w2(2) same_setup_fields(1) by blast
    obtain w3 where "for_each (calculateCompoundStatus up E False) (st_parents (w0 x)) w2 = Some w3" "same_setup w0 w3"
        "keeps_unmanaged w2 w3" "settled_but E w3 ?V"
    proof (rule exE [OF for_each_settles [of "st_parents (w0 x)" w0 E "calculateCompoundStatus up E False" w2 ?V]])
      fix p w' V assume "same_setup w0 w'" "settled_but E w' (insert p V)"
      moreover have "rk p < up" using assms(2,3) by (auto simp: st_tree_ok_def intro: le_less_trans)
      ultimately show "\<exists>w''. calculateCompoundStatus up E False p w' = Some w'' \<and> same_setup w0 w''
          \<and> keeps_unmanaged w' w'' \<and> settled_but E w'' V"
        using calculate_settles [OF assms(1,2), of w' p up V False] by simp
    qed (use w2(2) in auto)
    then show ?thesis
      using False w2 p2 x1 unfolding w1_def st_def by (auto simp: keeps_unmanaged_def Let_def)
  qed
qed simp

section \<open>Configuration\<close>

lemma unmanaged_silent: "st_status ob = STATUS_UNMANAGED \<Longrightarrow> \<not> getPropagatedStatus E ob < STATUS_UNKNOWN"
  by (simp add: getPropagatedStatus_def DefaultPropagatedStatus_def)

lemma most_critical_child_filter: "most_critical_child ss m n = most_critical_child (filter (\<lambda>s. s < STATUS_UNKNOWN) ss) m n"
  by (induction ss arbitrary: m n) auto

lemma ratings_filter: "ratings ss r n = ratings (filter (\<lambda>s. s < STATUS_UNKNOWN) ss) r n"
  by (induction ss arbitrary: r n) auto

lemma status_from_children_filter:
  assumes "filter (\<lambda>s. s < STATUS_UNKNOWN) ss = filter (\<lambda>s. s < STATUS_UNKNOWN) ss'"
  shows "status_from_children E ob ss = status_from_children E ob ss'"
proof -
  have "most_critical_child ss m n = most_critical_child ss' m n" for m n
    by (metis most_critical_child_filter assms)
  moreover have "ratings ss r n = ratings ss' r n" for r n by (metis ratings_filter assms)
  ultimately show ?thesis by (simp add: status_from_children_def)
qed

lemma filter_map_cong:
  "(\<And>c. c \<in> set cs \<Longrightarrow> f c = g c \<or> \<not> P (f c) \<and> \<not> P (g c)) \<Longrightarrow> filter P (map f cs) = filter P (map g cs)"
  by (induction cs) force+

lemma modify_status_keeps [simp]:
  "st_status (modify_status msg ob) = st_status ob" "st_parents (modify_status msg ob) = st_parents ob"
  "st_children (modify_status msg ob) = st_children ob"
  by (simp_all add: modify_status_def)

text \<open>A new configuration of an object unsettles the object and, if it is managed, its parents.\<close>

lemma modify_elsewhere:
  assumes "no_modules E" "y \<noteq> x" "x \<notin> set (st_children (w y)) \<or> st_status (w x) = STATUS_UNMANAGED"
  shows "settled E (w(x := modify_status msg (w x))) y \<longleftrightarrow> settled E w y"
proof -
  let ?w = "w(x := modify_status msg (w x))"
  have "filter (\<lambda>s. s < STATUS_UNKNOWN) (map (\<lambda>c. getPropagatedStatus E (?w c)) (st_children (w y))) =
      filter (\<lambda>s. s < STATUS_UNKNOWN) (map (\<lambda>c. getPropagatedStatus E (w c)) (st_children (w y)))"
  proof (rule filter_map_cong)
    fix c assume "c \<in> set (st_children (w y))"
    then show "getPropagatedStatus E (?w c) = getPropagatedStatus E (w c) \<or>
        \<not> getPropagatedStatus E (?w c) < STATUS_UNKNOWN \<and> \<not> getPropagatedStatus E (w c) < STATUS_UNKNOWN"
      using assms(3) unmanaged_silent [of "w x" E] unmanaged_silent [of "modify_status msg (w x)" E] by (cases "c = x") simp_all
  qed
  from status_from_children_filter [OF this] have "newStatus E ?w y = newStatus E w y"
    using assms(2) by (simp add: newStatus_quiet [OF assms(1)])
  then show ?thesis using assms(2) by (simp add: settled_def)
qed

lemma modify_settles:
  assumes "no_modules E" "st_tree_ok rk N w" "settled_but E w U"
  shows "settled_but E (w(x := modify_status msg (w x)))
    (insert x (U \<union> (if st_status (w x) \<noteq> STATUS_UNMANAGED then set (st_parents (w x)) else {})))"
  unfolding settled_but_def
proof (intro allI impI)
  fix y assume y: "\<not> settled E (w(x := modify_status msg (w x))) y"
  have "x \<notin> set (st_children (w y)) \<or> y \<in> set (st_parents (w x))" using assms(2) unfolding st_tree_ok_def by blast
  then consider "y = x" | "\<not> settled E w y" | "st_status (w x) \<noteq> STATUS_UNMANAGED" "y \<in> set (st_parents (w x))"
    using modify_elsewhere [OF assms(1), of y x w msg] y by blast
  then show "y \<in> insert x (U \<union> (if st_status (w x) \<noteq> STATUS_UNMANAGED then set (st_parents (w x)) else {}))"
    using assms(3) by cases (simp_all add: settled_but_def)
qed

lemma modify_tree: "st_tree_ok rk N w \<Longrightarrow> st_tree_ok rk N (w(x := modify_status msg (w x)))"
  unfolding st_tree_ok_def by simp

section \<open>Runs\<close>

text \<open>
  The state is the most critical alarm of each object, the objects, and those of them that became
  managed (or were loaded) and have not been recalculated since. An alarm operation changes the
  alarms of an object and recalculates it; status polls recalculate any object at any time.
\<close>

type_synonym st_state = "(u32 \<Rightarrow> int) \<times> st_objects \<times> u32 set"

abbreviation with_alarms :: "status_env \<Rightarrow> (u32 \<Rightarrow> int) \<Rightarrow> status_env" where
  "with_alarms E a \<equiv> E\<lparr> se_alarm := a \<rparr>"

inductive st_step :: "status_env \<Rightarrow> nat \<Rightarrow> st_state \<Rightarrow> st_state \<Rightarrow> bool" for E N where
  alarm: "0 \<le> s \<Longrightarrow> s \<le> STATUS_UNKNOWN \<Longrightarrow> calculateCompoundStatus (Suc N) (with_alarms E (a(x := s))) False x w = Some w' \<Longrightarrow>
    st_step E N (a, w, P) (a(x := s), w', P - {x})"
| poll: "calculateCompoundStatus (Suc N) (with_alarms E a) forced x w = Some w' \<Longrightarrow> st_step E N (a, w, P) (a, w', P - {x})"
| unmanage: "setMgmtStatus (Suc N) (Suc N) (with_alarms E a) False x w = Some (b, w') \<Longrightarrow> st_step E N (a, w, P) (a, w', P)"
| manage: "setMgmtStatus (Suc N) (Suc N) (with_alarms E a) True x w = Some (b, w') \<Longrightarrow>
    st_step E N (a, w, P) (a, w', P \<union> {y. st_below w x y})"
| configure: "postModify (Suc N) (with_alarms E a) x (w(x := modify_status msg (w x))) = Some w' \<Longrightarrow>
    st_step E N (a, w, P) (a, w', P - {x})"

inductive st_reachable :: "status_env \<Rightarrow> (u32 \<Rightarrow> nat) \<Rightarrow> nat \<Rightarrow> st_state \<Rightarrow> bool" for E rk N where
  start: "st_tree_ok rk N w \<Longrightarrow> (\<And>x. 0 \<le> a x \<and> a x \<le> STATUS_UNKNOWN) \<Longrightarrow> st_reachable E rk N (a, w, UNIV)"
| run: "st_reachable E rk N s \<Longrightarrow> st_step E N s s' \<Longrightarrow> st_reachable E rk N s'"

definition st_inv :: "status_env \<Rightarrow> (u32 \<Rightarrow> nat) \<Rightarrow> nat \<Rightarrow> st_state \<Rightarrow> bool" where
  "st_inv E rk N s \<longleftrightarrow> (case s of (a, w, P) \<Rightarrow> st_tree_ok rk N w \<and> (\<forall>x. 0 \<le> a x \<and> a x \<le> STATUS_UNKNOWN)
     \<and> settled_but (with_alarms E a) w P)"

lemma no_modules_alarms [simp]: "no_modules (with_alarms E a) = no_modules E"
  by (simp add: no_modules_def)

lemma alarm_elsewhere:
  assumes "no_modules E" "y \<noteq> x"
  shows "settled (with_alarms E (a(x := s))) w y \<longleftrightarrow> settled (with_alarms E a) w y"
proof -
  have "getPropagatedStatus (with_alarms E (a(x := s))) ob = getPropagatedStatus (with_alarms E a) ob" for ob
    by (simp add: getPropagatedStatus_def DefaultPropagatedStatus_def Let_def)
  moreover have "status_from_children (with_alarms E (a(x := s))) ob ss = status_from_children (with_alarms E a) ob ss" for ob ss
    by (simp add: status_from_children_def Let_def)
  ultimately show ?thesis using assms by (simp add: settled_def newStatus_quiet)
qed

lemma calculate_inv:
  assumes "no_modules E" "st_tree_ok rk N w" "settled_but E w (insert x (U \<union> (if forced \<and> st_status (w x) \<noteq> STATUS_UNMANAGED then set (st_parents (w x)) else {})))"
    and "N < fuel"
  shows "\<exists>w'. calculateCompoundStatus fuel E forced x w = Some w' \<and> st_tree_ok rk N w' \<and> settled_but E w' (U - {x})"
proof -
  have "rk x < fuel" using assms(2,4) by (auto simp: st_tree_ok_def intro: le_less_trans)
  moreover have "settled_but E w (insert x (U - {x} \<union> (if forced \<and> st_status (w x) \<noteq> STATUS_UNMANAGED then set (st_parents (w x)) else {})))"
    by (rule settled_but_mono [OF assms(3)]) auto
  ultimately show ?thesis
    using calculate_settles [OF assms(1,2) same_setup_refl, of x fuel "U - {x}" forced] same_setup_tree assms(2) by blast
qed

lemma st_invI:
  "st_tree_ok rk N w \<Longrightarrow> (\<And>x. 0 \<le> a x \<and> a x \<le> STATUS_UNKNOWN) \<Longrightarrow> settled_but (with_alarms E a) w P \<Longrightarrow> st_inv E rk N (a, w, P)"
  by (simp add: st_inv_def)

lemma st_invD:
  assumes "st_inv E rk N (a, w, P)"
  shows "st_tree_ok rk N w" "0 \<le> a x \<and> a x \<le> STATUS_UNKNOWN" "settled_but (with_alarms E a) w P"
  using assms by (simp_all add: st_inv_def)

lemma recalculated_inv:
  assumes "no_modules E" "st_tree_ok rk N w" "\<And>x. 0 \<le> a x \<and> a x \<le> STATUS_UNKNOWN"
    and "calculateCompoundStatus (Suc N) (with_alarms E a) forced x w = Some w'"
    and "settled_but (with_alarms E a) w
      (insert x (P \<union> (if forced \<and> st_status (w x) \<noteq> STATUS_UNMANAGED then set (st_parents (w x)) else {})))"
  shows "st_inv E rk N (a, w', P - {x})"
proof -
  have n: "no_modules (with_alarms E a)" using assms(1) by simp
  from calculate_inv [OF n assms(2,5) lessI] assms(4) have "st_tree_ok rk N w'" "settled_but (with_alarms E a) w' (P - {x})"
    by simp_all
  then show ?thesis using assms(3) by (intro st_invI)
qed

lemma managed_inv:
  assumes "no_modules E" "st_inv E rk N (a, w, P)"
    and "setMgmtStatus (Suc N) (Suc N) (with_alarms E a) m x w = Some (b, w')"
  shows "st_inv E rk N (a, w', P \<union> (if m then {y. st_below w x y} else {}))"
proof -
  note i = st_invD [OF assms(2)]
  have n: "no_modules (with_alarms E a)" using assms(1) by simp
  have "N - rk x < Suc N" by simp
  from setMgmtStatus_settles [OF n i(1) lessI same_setup_refl this i(3), of m] assms(3)
  have w': "same_setup w w'" "settled_but (with_alarms E a) w' (P \<union> (if m then {y. st_below w x y} else {}))"
    by auto
  have "st_tree_ok rk N w'" using same_setup_tree [OF w'(1)] i(1) by simp
  then show ?thesis using i(2) w'(2) by (intro st_invI)
qed

lemma st_step_inv:
  assumes "st_step E N s s'" "no_modules E"
  shows "st_inv E rk N s \<Longrightarrow> st_inv E rk N s'"
  using assms(1)
proof (induction rule: st_step.induct)
  case (alarm s a x w w' P)
  note i = st_invD [OF alarm.prems]
  have "settled_but (with_alarms E (a(x := s))) w (insert x P)"
    using i(3) alarm_elsewhere [OF assms(2), of _ x a s w] unfolding settled_but_def by blast
  moreover have "0 \<le> (a(x := s)) y \<and> (a(x := s)) y \<le> STATUS_UNKNOWN" for y using alarm.hyps(1,2) i(2) [of y] by simp
  ultimately show ?case by (intro recalculated_inv [OF assms(2) i(1) _ alarm.hyps(3)]) simp_all
next
  case (poll a forced x w w' P)
  note i = st_invD [OF poll.prems]
  show ?case
    by (rule recalculated_inv [OF assms(2) i(1,2) poll.hyps settled_but_mono [OF i(3)]]) auto
next
  case (unmanage a x w b w' P)
  then show ?case using managed_inv [OF assms(2) unmanage.prems unmanage.hyps] by simp
next
  case (manage a x w b w' P)
  then show ?case using managed_inv [OF assms(2) manage.prems manage.hyps] by simp
next
  case (configure a x w msg w' P)
  note i = st_invD [OF configure.prems]
  have n: "no_modules (with_alarms E a)" using assms(2) by simp
  show ?case
    by (rule recalculated_inv [OF assms(2) modify_tree [OF i(1)] i(2) configure.hyps [unfolded postModify_def]])
      (use modify_settles [OF n i(1,3), of x msg] in \<open>simp split: if_splits\<close>)
qed

lemma st_reachable_inv: "st_reachable E rk N s \<Longrightarrow> no_modules E \<Longrightarrow> st_inv E rk N s"
proof (induction rule: st_reachable.induct)
  case (start w a)
  then show ?case by (simp add: st_inv_def settled_but_def)
qed (auto intro: st_step_inv)


text \<open>A server with default settings, and a container with one object in it.\<close>

definition default_env :: status_env where
  "default_env = \<lparr> se_calcAlg = SA_CALCULATE_MOST_CRITICAL, se_propAlg = SA_PROPAGATE_UNCHANGED, se_fixedStatus = STATUS_NORMAL,
     se_shift = 0, se_translation = [1, 1, 1, 1], se_singleThreshold = 75, se_thresholds = [50, 50, 50, 50],
     se_alarm = (\<lambda>_. STATUS_UNKNOWN), se_additional = (\<lambda>_. STATUS_UNKNOWN), se_modules = (\<lambda>_. []) \<rparr>"

definition container_world :: "int \<Rightarrow> int \<Rightarrow> st_objects" where
  "container_world s1 s2 = (\<lambda>_. new_st_obj)(1 := new_st_obj\<lparr> st_status := s1, st_children := [100] \<rparr>,
     100 := new_st_obj\<lparr> st_status := s2, st_parents := [1] \<rparr>)"

lemma container_tree: "st_tree_ok (\<lambda>x. if x = 100 then 1 else 0) 1 (container_world s1 s2)"
  by (auto simp: st_tree_ok_def container_world_def new_st_obj_def)

lemma container_new:
  "newStatus (with_alarms default_env a) (container_world s1 s2) 100 = apply_status (a 100) STATUS_UNKNOWN"
  "newStatus (with_alarms default_env a) (container_world s1 s2) 1 =
     apply_status (a 1) (if - 1 < s2 \<and> s2 < STATUS_UNKNOWN then s2 else STATUS_UNKNOWN)"
  by (auto simp: newStatus_def status_from_children_def container_world_def new_st_obj_def default_env_def apply_status_def
      getPropagatedStatus_def DefaultPropagatedStatus_def Let_def)

lemma container_set:
  "(container_world s1 s2)(100 := setModified_st MODIFY_RUNTIME (container_world s1 s2 100\<lparr> st_status := s \<rparr>)) = container_world s1 s"
  "(container_world s1 s2)(1 := setModified_st MODIFY_RUNTIME (container_world s1 s2 1\<lparr> st_status := s \<rparr>)) = container_world s s2"
  by (auto simp: container_world_def setModified_st_def new_st_obj_def)

lemma container_fields:
  "st_status (container_world s1 s2 1) = s1" "st_status (container_world s1 s2 100) = s2"
  "st_parents (container_world s1 s2 1) = []" "st_parents (container_world s1 s2 100) = [1]"
  by (simp_all add: container_world_def new_st_obj_def)

lemma container_alarm:
  "st_reachable default_env (\<lambda>x. if x = 100 then 1 else 0) 1 ((\<lambda>_. STATUS_UNKNOWN)(100 := 3), container_world 3 3, UNIV - {100} - {1})"
    (is "st_reachable _ ?rk _ (?a, _, _)")
proof -
  have "st_reachable default_env ?rk 1 (\<lambda>_. STATUS_UNKNOWN, container_world STATUS_UNKNOWN STATUS_UNKNOWN, UNIV)"
    by (rule st_reachable.start [OF container_tree]) simp
  moreover have "calculateCompoundStatus (Suc 1) (with_alarms default_env ?a) False 100 (container_world STATUS_UNKNOWN STATUS_UNKNOWN) =
      Some (container_world 3 3)"
    by (simp add: Let_def container_new container_set container_fields apply_status_def)
  then have "st_step default_env 1 (\<lambda>_. STATUS_UNKNOWN, container_world STATUS_UNKNOWN STATUS_UNKNOWN, UNIV)
      (?a, container_world 3 3, UNIV - {100})"
    by (intro st_step.alarm) simp_all
  ultimately have r: "st_reachable default_env ?rk 1 (?a, container_world 3 3, UNIV - {100})" by (rule st_reachable.run)
  have "calculateCompoundStatus (Suc 1) (with_alarms default_env ?a) False 1 (container_world 3 3) = Some (container_world 3 3)"
    by (simp add: Let_def container_new container_set container_fields apply_status_def)
  from st_reachable.run [OF r st_step.poll [OF this]] show ?thesis .
qed

lemma default_quiet: "no_modules default_env"
  by (simp add: no_modules_def default_env_def)


section \<open>Statuses that stick\<close>

text \<open>
  With a module that reports a status, the loop over the modules takes the maximum with the old status
  of the object. Unknown is a larger number than any severity, so an object that is unknown stays
  unknown, although without the module its children and alarms would give it a status.
\<close>

lemma module_keeps_unknown:
  assumes "st_status (w x) = STATUS_UNKNOWN" "se_modules E x = [s]" "s < STATUS_UNKNOWN"
    and "newStatus (E\<lparr> se_modules := \<lambda>_. [] \<rparr>) w x \<notin> {STATUS_CRITICAL, STATUS_UNKNOWN}"
  shows "newStatus E w x = STATUS_UNKNOWN"
proof -
  have "getPropagatedStatus (E\<lparr> se_modules := \<lambda>_. [] \<rparr>) ob = getPropagatedStatus E ob" for ob
    by (simp add: getPropagatedStatus_def DefaultPropagatedStatus_def Let_def)
  moreover have "status_from_children (E\<lparr> se_modules := \<lambda>_. [] \<rparr>) ob ss = status_from_children E ob ss" for ob ss
    by (simp add: status_from_children_def Let_def)
  ultimately show ?thesis using assms by (simp add: newStatus_def Let_def split: if_splits)
qed

end
