(* ===== verification/Nx_Status_Alarms.thy ===== *)
theory Nx_Status_Alarms
  imports Nx_Status_Laws Nx_Alarm_Laws
begin

text \<open>
  Statuses and alarms together, with the default algorithms of status calculation: the status of an
  object is the worst severity among the unresolved alarms of the objects in its managed subtree.
\<close>

section \<open>The worst status of a subtree\<close>

definition worst_only :: "status_env \<Rightarrow> st_objects \<Rightarrow> bool" where
  "worst_only E w \<longleftrightarrow> (\<forall>x. se_additional E x = STATUS_UNKNOWN
     \<and> (if st_calcAlg (w x) = SA_CALCULATE_DEFAULT then se_calcAlg E else st_calcAlg (w x)) = SA_CALCULATE_MOST_CRITICAL
     \<and> (if st_propAlg (w x) = SA_PROPAGATE_DEFAULT then se_propAlg E else st_propAlg (w x)) = SA_PROPAGATE_UNCHANGED)"

lemma worst_onlyD:
  assumes "worst_only E w"
  shows "se_additional E x = STATUS_UNKNOWN"
    and "st_calcAlg (w x) = SA_CALCULATE_DEFAULT \<and> se_calcAlg E = SA_CALCULATE_MOST_CRITICAL \<or> st_calcAlg (w x) = SA_CALCULATE_MOST_CRITICAL"
    and "st_propAlg (w x) = SA_PROPAGATE_DEFAULT \<and> se_propAlg E = SA_PROPAGATE_UNCHANGED \<or> st_propAlg (w x) = SA_PROPAGATE_UNCHANGED"
  using assms unfolding worst_only_def by meson+

lemma worst_only_alarms [simp]: "worst_only (with_alarms E a) w = worst_only E w"
  by (simp add: worst_only_def)

text \<open>The objects reached from an object through managed objects only.\<close>

inductive contributes :: "st_objects \<Rightarrow> u32 \<Rightarrow> u32 \<Rightarrow> bool" for w where
  self: "st_status (w x) \<noteq> STATUS_UNMANAGED \<Longrightarrow> contributes w x x"
| child: "st_status (w x) \<noteq> STATUS_UNMANAGED \<Longrightarrow> c \<in> set (st_children (w x)) \<Longrightarrow> contributes w c y \<Longrightarrow> contributes w x y"

inductive_simps contributes_at: "contributes w x y"

text \<open>A known severity of at least \<open>s\<close>.\<close>

definition at_least :: "int \<Rightarrow> int \<Rightarrow> bool" where
  "at_least s t \<longleftrightarrow> s \<le> t \<and> t < STATUS_UNKNOWN"

lemma most_critical_child_at_least:
  assumes "- 1 \<le> m" "m < STATUS_UNKNOWN" "0 \<le> s"
  shows "most_critical_child ss m n = (m', n') \<Longrightarrow>
    (at_least s m' \<longleftrightarrow> at_least s m \<or> (\<exists>t. t \<in> set ss \<and> at_least s t)) \<and> m \<le> m' \<and> m' < STATUS_UNKNOWN \<and> n \<le> n' \<and> (m < m' \<longleftrightarrow> n < n')"
  using assms(1,2)
proof (induction ss arbitrary: m n)
  case (Cons t ss)
  show ?case
  proof (cases "t < STATUS_UNKNOWN \<and> t > m")
    case True
    then show ?thesis using Cons.IH [of t "n + 1"] Cons.prems by (auto simp: at_least_def)
  next
    case False
    then show ?thesis using Cons.IH [of m n] Cons.prems by (auto simp: at_least_def)
  qed
qed simp

lemma children_at_least:
  assumes "worst_only E w" "0 \<le> s"
  shows "at_least s (status_from_children E (w x) ss) \<longleftrightarrow> (\<exists>t. t \<in> set ss \<and> at_least s t)"
    and "0 \<le> status_from_children E (w x) ss \<and> status_from_children E (w x) ss \<le> STATUS_UNKNOWN"
proof -
  obtain m n where mn: "most_critical_child ss (- 1) 0 = (m, n)" by force
  note c = most_critical_child_at_least [OF _ _ assms(2) mn]
  have "status_from_children E (w x) ss = (if n > 0 then m else STATUS_UNKNOWN)"
    using worst_onlyD(2) [OF assms(1), of x] mn by (auto simp: status_from_children_def)
  then show "at_least s (status_from_children E (w x) ss) \<longleftrightarrow> (\<exists>t. t \<in> set ss \<and> at_least s t)"
    "0 \<le> status_from_children E (w x) ss \<and> status_from_children E (w x) ss \<le> STATUS_UNKNOWN"
    using c assms(2) by (auto simp: at_least_def)
qed

lemma apply_status_at_least:
  "0 \<le> r \<Longrightarrow> r \<le> STATUS_UNKNOWN \<Longrightarrow> 0 \<le> a \<Longrightarrow> a \<le> STATUS_UNKNOWN \<Longrightarrow> s \<le> STATUS_CRITICAL \<Longrightarrow>
   at_least s (apply_status a r) \<longleftrightarrow> at_least s r \<or> at_least s a"
  by (auto simp: at_least_def apply_status_def)

lemma propagates_own: "worst_only E w \<Longrightarrow> getPropagatedStatus E (w c) = st_status (w c)"
  using worst_onlyD(3) [of E w c] by (auto simp: getPropagatedStatus_def DefaultPropagatedStatus_def)

lemma newStatus_at_least:
  assumes "worst_only E w" "no_modules E" "0 \<le> se_alarm E x \<and> se_alarm E x \<le> STATUS_UNKNOWN" "0 \<le> s" "s \<le> STATUS_CRITICAL"
  shows "at_least s (newStatus E w x) \<longleftrightarrow>
    at_least s (se_alarm E x) \<or> (\<exists>c. c \<in> set (st_children (w x)) \<and> at_least s (st_status (w c)))"
proof -
  let ?r = "status_from_children E (w x) (map (\<lambda>c. st_status (w c)) (st_children (w x)))"
  have "newStatus E w x = apply_status (se_alarm E x) ?r"
    by (simp add: newStatus_quiet [OF assms(2)] propagates_own [OF assms(1)] worst_onlyD(1) [OF assms(1)]) (simp add: apply_status_def)
  then show ?thesis
    using apply_status_at_least [of ?r "se_alarm E x" s] children_at_least [OF assms(1,4), of x] assms(3,5) by auto
qed

lemma st_below_step: "c \<in> set (st_children (w x)) \<Longrightarrow> \<not> (\<exists>y. y \<in> P \<and> st_below w x y) \<Longrightarrow> \<not> (\<exists>y. y \<in> P \<and> st_below w c y)"
  using st_below_child by blast

lemma worst_in_subtree:
  assumes "st_tree_ok rk N w" "no_modules E" "worst_only E w" "\<And>x. 0 \<le> se_alarm E x \<and> se_alarm E x \<le> STATUS_UNKNOWN"
    and "settled_but E w P" "0 \<le> s" "s \<le> STATUS_CRITICAL"
  shows "\<not> (\<exists>y. y \<in> P \<and> st_below w x y) \<Longrightarrow> N - rk x = d \<Longrightarrow>
    at_least s (st_status (w x)) \<longleftrightarrow> (\<exists>y. contributes w x y \<and> at_least s (se_alarm E y))"
proof (induction d arbitrary: x rule: less_induct)
  case (less d)
  show ?case
  proof (cases "st_status (w x) = STATUS_UNMANAGED")
    case True
    then show ?thesis by (subst contributes_at) (simp add: at_least_def)
  next
    case False
    have "x \<notin> P" using less.prems(1) st_below.self by blast
    then have "st_status (w x) = newStatus E w x" using assms(5) False by (auto simp: settled_but_def settled_def)
    moreover have "at_least s (st_status (w c)) \<longleftrightarrow> (\<exists>y. contributes w c y \<and> at_least s (se_alarm E y))"
      if c: "c \<in> set (st_children (w x))" for c
    proof (rule less.IH [OF _ st_below_step [OF c less.prems(1)] refl])
      have "rk x < rk c" "rk c \<le> N" using c assms(1) unfolding st_tree_ok_def by blast+
      then show "N - rk c < d" using less.prems(2) by simp
    qed
    ultimately show ?thesis
      using False newStatus_at_least [OF assms(3,2,4,6,7), of x] by (subst contributes_at) auto
  qed
qed

section \<open>Alarms\<close>

lemma summary_at_least:
  assumes "al_reachable U m" and "\<not> (\<exists>a. a \<in> set (al_alarms m) \<and> STATUS_CRITICAL < uint (a_currentSeverity a))"
  shows "at_least s (getMostCriticalAlarmForObject y m) \<longleftrightarrow>
    (\<exists>al. al \<in> set (al_alarms m) \<and> a_sourceObject al = y \<and> a_state al \<noteq> ALARM_STATE_RESOLVED \<and> s \<le> uint (a_currentSeverity al))"
proof -
  obtain V :: al_env where "v_toupper V = U" by (metis al_env.select_convs(2))
  from most_critical_exact [OF reachable_ok [OF assms(1) this]]
  have e: "getMostCriticalAlarmForObject y m =
    (if active_severities y m = {} then STATUS_UNKNOWN else Max (active_severities y m))" .
  have fin: "finite (active_severities y m)" by (simp add: active_severities_def)
  have small: "v \<le> STATUS_CRITICAL" if "v \<in> active_severities y m" for v
    using that assms(2) by (force simp: active_severities_def)
  have "at_least s (getMostCriticalAlarmForObject y m) \<longleftrightarrow> (\<exists>v. v \<in> active_severities y m \<and> s \<le> v)"
  proof (cases "active_severities y m = {}")
    case True
    then show ?thesis by (simp add: e at_least_def)
  next
    case False
    then have "Max (active_severities y m) \<le> STATUS_CRITICAL" using fin small by simp
    moreover have "s \<le> Max (active_severities y m) \<longleftrightarrow> (\<exists>v. v \<in> active_severities y m \<and> s \<le> v)"
      using Max_ge_iff [OF fin False] by blast
    ultimately show ?thesis using False by (auto simp only: e at_least_def if_False)
  qed
  then show ?thesis by (auto simp: active_severities_def)
qed


text \<open>The container with one alarm of severity 3 on the object inside.\<close>

lemma one_alarm_summary: "(\<lambda>y. getMostCriticalAlarmForObject y one_alarm) = (\<lambda>_. STATUS_UNKNOWN)(100 := 3)"
proof
  fix y
  have "active_severities y one_alarm = (if y = 100 then {3} else {})"
    by (simp add: active_list one_alarm_list new_alarm_def plain_rule_def plain_event_def)
  then show "getMostCriticalAlarmForObject y one_alarm = ((\<lambda>_. STATUS_UNKNOWN)(100 := 3)) y"
    using most_critical_exact [OF reachable_ok [OF one_alarm_reachable], of quiet_env y] by (cases "y = 100") (simp_all add: quiet_env_def)
qed


end
