(* ===== verification/Spec2Isabelle.thy ===== *)
theory Spec2Isabelle
  imports Nx_Index Nx_Index_Sync Nx_Match Nx_Itoa Nx_Threshold_Laws Nx_DCItem_Value Nx_Alarm_Keys Nx_Alarm_Cascade
    Nx_Index_Live Nx_SnmpWalk Nx_Group_Rights Nx_Access_Groups Nx_Status_Alarms
begin

text \<open>
  A verification development for the NetXMS management server.

  \<^bold>\<open>The program.\<close> The server keeps the managed objects of a network in memory, collects metrics from
  them, compares the metrics with thresholds, turns what the thresholds report into events and
  alarms, and lets users see and change objects according to their rights. Objects are found through
  an index; agents and SNMP devices deliver values; data collection items transform them, store them
  and check thresholds; events create alarms; access lists, inherited through the object tree, and
  nested user groups decide who may do what. The development models these parts in C++ order of
  control: each operation is one function over the record of the state it works on, faults of the
  machine (a division by zero, an access outside an array, a thrown exception) are values in a sum
  type, and what an operation sends elsewhere is returned as a list of
  effects.

  \<^bold>\<open>Shared vocabulary\<close> (\<^verbatim>\<open>Nx_Prelude\<close>): machine words \<open>u32\<close> and \<open>u64\<close>, strings as lists of character
  codes, the error monad \<open>sum_bind\<close>, the collections \<open>nx_inv\<close> (invariants) and \<open>nx_frame\<close> (fields an
  operation leaves alone), and lemmas about lists that several components use.

  \<^bold>\<open>Object index\<close> (\<^verbatim>\<open>src/src/server/core/index.cpp\<close>).
  \<^item> \<^verbatim>\<open>Nx_Index\<close> models \<^verbatim>\<open>AbstractIndexBase\<close>: two heads with sorted arrays, \<^verbatim>\<open>put\<close>, \<^verbatim>\<open>remove\<close>, \<^verbatim>\<open>clear\<close>,
    \<^verbatim>\<open>findElement\<close>, \<^verbatim>\<open>get\<close>, \<^verbatim>\<open>keys\<close>, startup mode and ownership. The binary search is shown free of
    faults and exact; any sequence of changes implements the changes of a map on both heads; an
    owning index destroys each object once. The locales \<open>object_lookup\<close> and \<open>object_store\<close> state what
    the rest of the server relies on, and are interpreted on the index in startup mode and in steady
    mode.
  \<^item> \<^verbatim>\<open>Nx_Index_Sync\<close> models the lock-free reader protocol (\<^verbatim>\<open>acquireIndex\<close>, \<^verbatim>\<open>swapAndWait\<close>) as a step
    relation over interleaved threads. The second edit of a writer is exclusive; the first one is
    not, which is shown by a reachable state.
  \<^item> \<^verbatim>\<open>Nx_Index_Live\<close> shows that in a fair run the wait of a writer ends.

  \<^bold>\<open>Metric values and text\<close> (\<^verbatim>\<open>src/src/server/core/dcivalue.cpp\<close>, \<^verbatim>\<open>src/src/libnetxms/itoa.cpp\<close>,
  \<^verbatim>\<open>src/src/libnetxms/tools.cpp\<close>, \<^verbatim>\<open>src/src/libnetxms/strmapbase.cpp\<close>).
  \<^item> \<^verbatim>\<open>Nx_Value\<close> models \<^verbatim>\<open>ItemValue\<close> with its four representations, and the aggregates over cached values.
    Floating point is a parameter. The locale \<open>int_type\<close> holds the proofs for an integer type of any
    width and sign; it is interpreted on the four types the code instantiates its templates with.
  \<^item> \<^verbatim>\<open>Nx_Itoa\<close> shows that reading back a printed integer gives the integer.
  \<^item> \<^verbatim>\<open>Nx_Match\<close> relates the wildcard matcher to the language of a pattern: sound always, complete with
    one star.
  \<^item> \<^verbatim>\<open>Nx_StrMap\<close> models \<^verbatim>\<open>StringMapBase\<close> and interprets the locale \<open>store\<close> on it.

  \<^bold>\<open>Thresholds and items\<close> (\<^verbatim>\<open>src/src/server/core/dcithreshold.cpp\<close>, \<^verbatim>\<open>src/src/server/core/dcitem.cpp\<close>).
  \<^item> \<^verbatim>\<open>Nx_Threshold\<close> models \<^verbatim>\<open>Threshold::check\<close> and \<^verbatim>\<open>Threshold::checkError\<close> with every function and
    operation, the counters of matches and clears, and the updates from messages. Proved: the result
    is the transition of the active flag; the state after any sequence of polls is that of an
    automaton over consecutive matches and clears; a check returns when the cache covers the
    required size.
  \<^item> \<^verbatim>\<open>Nx_Threshold_Laws\<close> adds the condition of difference thresholds and the round trip through the
    database.
  \<^item> \<^verbatim>\<open>Nx_DCItem\<close> models the evaluation of all thresholds of an item and the events it posts;
    \<^verbatim>\<open>Nx_DCItem_Value\<close> the processing of a new value: delta, transformation, storage, shadow copies and
    the cache. The cache size invariant is established by loading and kept by every value, and under
    it no value makes the server fault.

  \<^bold>\<open>Alarms\<close> (\<^verbatim>\<open>src/src/server/core/alarm.cpp\<close>).
  \<^item> \<^verbatim>\<open>Nx_Alarm\<close> has the alarm list, the key index, the severity summary of objects and all operations
    that change them; \<^verbatim>\<open>Nx_Alarm_Inv\<close> the invariants, one per projection of an alarm; \<^verbatim>\<open>Nx_Alarm_Ops\<close> that
    each operation keeps them; \<^verbatim>\<open>Nx_Alarm_Laws\<close> what follows for every sequence of operations.
  \<^item> \<^verbatim>\<open>Nx_Alarm_Keys\<close> shows how events with a key find their alarm. \<^verbatim>\<open>Nx_Alarm_Cascade\<close> shows that the
    background work on subordinate alarms ends, also when parent references form a cycle.

  \<^bold>\<open>Object status\<close> (\<^verbatim>\<open>src/src/server/core/netobj.cpp\<close>, \<^verbatim>\<open>src/src/server/core/objects.cpp\<close>).
  \<^item> \<^verbatim>\<open>Nx_Status\<close> models the calculation of a status from children, alarms and modules, its propagation
    to parents, and management status. \<^verbatim>\<open>Nx_Status_Laws\<close> shows over the step relation \<open>st_step\<close> that
    statuses settle: each recalculation leaves no object out of date. \<^verbatim>\<open>Nx_Status_Alarms\<close> joins this
    with the alarm manager: the status of an object is the worst unresolved alarm of its managed
    subtree.

  \<^bold>\<open>Users and access rights\<close> (\<^verbatim>\<open>src/src/server/core/userdb.cpp\<close>, \<^verbatim>\<open>userdb_objects.cpp\<close>, \<^verbatim>\<open>acl.cpp\<close>, \<^verbatim>\<open>netobj.cpp\<close>,
  \<^verbatim>\<open>src/src/server/libnxsrv/nobject.cpp\<close>).
  \<^item> \<^verbatim>\<open>Nx_Groups\<close> models nested groups and the search for membership. The search ends in spite of cycles
    and decides the inductive relation \<open>member_of\<close>.
  \<^item> \<^verbatim>\<open>Nx_Group_Rights\<close> bounds the system rights a user gets from below and above, shows that the upper
    bound is reached by a user who is not a member, and models the changes of membership.
  \<^item> \<^verbatim>\<open>Nx_Acl\<close> models access lists, \<^verbatim>\<open>Nx_Access\<close> the rights on an object with the cache of inherited rights,
    and \<^verbatim>\<open>Nx_Access_Laws\<close> shows by invariant over the step relation \<open>access_step\<close> that the cache is
    never stale. \<^verbatim>\<open>Nx_Access_Groups\<close> states the interface to the user database as the locale
    \<open>membership_service\<close>, interprets it on the group search, and proves the access decision from end
    to end against the inductive relation \<open>granted\<close>.

  \<^bold>\<open>SNMP library\<close> (\<^verbatim>\<open>src/src/snmp/libnxsnmp/\<close>).
  \<^item> \<^verbatim>\<open>Nx_Ber\<close> models encoding and decoding of BER values as bytes, with a round trip for every type.
  \<^item> \<^verbatim>\<open>Nx_Oid\<close> models object identifiers with their inline and heap storage, \<^verbatim>\<open>Nx_Oid_Text\<close> their text form.
  \<^item> \<^verbatim>\<open>Nx_SnmpWalk\<close> models the walk with its two ways of loop detection: it ends against every device with
    finitely many names, and handles every variable once when hashes do not collide.

  \<^bold>\<open>Fuel.\<close> The recursions below have fuel and return None without enough of it. Membership needs more than
  the number of objects in the user database, since no group is on the search path twice; rights,
  cache clearing and status calculation need more than the depth of the object tree; a walk needs four rounds for each name
  the device uses and four more. The theorems are stated for every fuel above these bounds and
  conclude that a result is returned. Every other loop is structural or has a termination proof;
  the alarm cascade is a step relation whose runs are shown to be finite.

  \<^bold>\<open>Abstractions.\<close> Locks are not modelled where an operation holds one for its whole duration. Objects
  behind pointers are named by their identifiers. Hash tables are lists in the order of iteration.
  Time, floating point, the script engine, help desk links, the transport of SNMP and the answers
  of devices are parameters, and theorems hold for each value of them that meets their stated
  hypotheses.

  \<^bold>\<open>Not modelled.\<close> Parts whose behaviour is mostly the outside world: the agent and its subagents,
  database drivers and SQL, sockets, TLS, the session protocol and its dispatch (\<^verbatim>\<open>session.cpp\<close>), polling of
  nodes (\<^verbatim>\<open>node.cpp\<close>), discovery, notification channels, the web interfaces and the Java clients. Parts
  that are languages of their own: the script compiler and machine (\<^verbatim>\<open>libnxsl\<close>), report definitions, log
  parsing rules. Third party code in the tree (\<^verbatim>\<open>sqlite\<close>, \<^verbatim>\<open>jansson\<close>, \<^verbatim>\<open>lz4.c\<close>, \<^verbatim>\<open>pugixml.cpp\<close>, hash functions).
  Of the modelled classes, output to clients as NXCP messages or JSON, import and export as XML, and
  saving and loading of members other than those of thresholds are left out: they are lists of
  field assignments without decisions. The event processing policy, network maps, business services,
  custom attributes of objects and table metrics have logic of their own and remain to be modelled.
\<close>

end
